(* ===== verification/Prelude.thy ===== *)
theory Prelude
  imports Main "HOL-Library.Word" "HOL-Library.Sublist"
begin

text \<open>
  What every component shares: Go's 64-bit integers, durations and instants, the byte-string
  helpers of package strings, and the generic lemmas on lists that the component proofs use.

  \<^item> A Go \<open>int\<close>, \<open>int64\<close> or \<open>time.Duration\<close> is an \<open>int\<close>; where the code
    can leave the 64-bit range the result goes through \<open>wrap64\<close>.
  \<^item> A \<open>time.Time\<close> is the number of nanoseconds since the Unix epoch, an \<open>int\<close> too;
    \<open>time_sub\<close> is \<open>Time.Sub\<close> with its saturation. Every operation that reads
    the clock takes the reading as an argument.
  \<^item> A Go string is its bytes, a \<open>char list\<close>.
\<close>

named_theorems wrap_simps \<open>reading values through the 64-bit wrap-around\<close>
named_theorems trim_simps \<open>facts about trimming\<close>

section \<open>64-bit integers\<close>

type_synonym go_int = int
type_synonym duration = int
type_synonym instant = int

definition max_int64 :: int where
  "max_int64 = 2 ^ 63 - 1"

definition min_int64 :: int where
  "min_int64 = - (2 ^ 63)"

definition in_int64 :: "int \<Rightarrow> bool" where
  "in_int64 x \<longleftrightarrow> min_int64 \<le> x \<and> x \<le> max_int64"

definition wrap64 :: "int \<Rightarrow> int" where
  "wrap64 x = (x + 2 ^ 63) mod 2 ^ 64 - 2 ^ 63"

definition wrap32 :: "int \<Rightarrow> int" where
  "wrap32 x = (x + 2 ^ 31) mod 2 ^ 32 - 2 ^ 31"

lemma in_int64_iff: "in_int64 x \<longleftrightarrow> - 9223372036854775808 \<le> x \<and> x \<le> 9223372036854775807"
  by (simp add: in_int64_def min_int64_def max_int64_def)

lemma wrap64_id [wrap_simps]: "in_int64 x \<Longrightarrow> wrap64 x = x"
  by (simp add: in_int64_iff wrap64_def)

lemma wrap64_range: "in_int64 (wrap64 x)"
proof -
  have "0 \<le> (x + 2 ^ 63) mod 2 ^ 64" and "(x + 2 ^ 63) mod 2 ^ 64 < (2 ^ 64 :: int)"
    by simp_all
  then show ?thesis
    by (simp add: in_int64_def min_int64_def max_int64_def wrap64_def)
qed

lemma wrap32_id [wrap_simps]: "- (2 ^ 31) \<le> x \<Longrightarrow> x < 2 ^ 31 \<Longrightarrow> wrap32 x = x"
  by (simp add: wrap32_def)

text \<open>The wrap-around is the one of a 64-bit two's complement word.\<close>

lemma wrap64_word: "wrap64 x = sint (word_of_int x :: 64 word)"
  by (simp add: wrap64_def sint_sbintrunc' signed_take_bit_eq_take_bit_shift take_bit_eq_mod)

lemma less_mult_iff_div_less:
  fixes a b c :: int
  assumes c: "0 < c"
  shows "a < b * c \<longleftrightarrow> a div c < b"
proof -
  have "a = c * (a div c) + a mod c" "0 \<le> a mod c" "a mod c < c" using c by auto
  moreover have "a div c < b \<Longrightarrow> c * (a div c) + c \<le> c * b"
    using c mult_left_mono [of "a div c + 1" b c] by (simp add: distrib_left)
  moreover have "b \<le> a div c \<Longrightarrow> c * b \<le> c * (a div c)" using c by simp
  ultimately show ?thesis by (smt (verit) mult.commute)
qed

section \<open>Time\<close>

definition nanosecond :: duration where
  "nanosecond = 1"

definition millisecond :: duration where
  "millisecond = 1000000"

definition second :: duration where
  "second = 1000000000"

definition minute :: duration where
  "minute = 60 * second"

definition hour :: duration where
  "hour = 60 * minute"

lemmas unit_defs = nanosecond_def millisecond_def second_def minute_def hour_def

text \<open>The zero \<open>time.Time\<close>: January 1, year 1, 00:00:00 UTC.\<close>

definition zero_time :: instant where
  "zero_time = - 62135596800 * second"

definition is_zero_time :: "instant \<Rightarrow> bool" where
  "is_zero_time t \<longleftrightarrow> t = zero_time"

text \<open>\<open>Time.Sub\<close> saturates at the ends of the duration range.\<close>

definition time_sub :: "instant \<Rightarrow> instant \<Rightarrow> duration" where
  "time_sub t u = max min_int64 (min max_int64 (t - u))"

definition time_add :: "instant \<Rightarrow> duration \<Rightarrow> instant" where
  "time_add t d = t + d"

lemma time_sub_exact: "in_int64 (t - u) \<Longrightarrow> time_sub t u = t - u"
  by (simp add: time_sub_def in_int64_def)

lemma time_sub_mono: "t \<le> t' \<Longrightarrow> time_sub t u \<le> time_sub t' u"
  by (auto simp: time_sub_def min_def max_def)

lemma time_sub_antimono: "u' \<le> u \<Longrightarrow> time_sub t u \<le> time_sub t u'"
  by (auto simp: time_sub_def min_def max_def)

lemma time_sub_less_iff:
  "in_int64 d \<Longrightarrow> time_sub t u < d \<longleftrightarrow> t - u < d \<and> min_int64 < d"
  by (auto simp: time_sub_def in_int64_iff min_int64_def max_int64_def min_def max_def)

lemma time_sub_greater_iff:
  "in_int64 d \<Longrightarrow> d < time_sub t u \<longleftrightarrow> d < t - u \<and> d < max_int64"
  by (auto simp: time_sub_def in_int64_iff min_int64_def max_int64_def min_def max_def)

lemma time_sub_self [simp]: "time_sub t t = 0"
  by (simp add: time_sub_def min_int64_def max_int64_def)

section \<open>Searching a list\<close>

text \<open>The position of the first element with a property: a loop that breaks at it.\<close>

fun find_index :: "('a \<Rightarrow> bool) \<Rightarrow> 'a list \<Rightarrow> nat option" where
  "find_index P [] = None"
| "find_index P (x # xs) = (if P x then Some 0 else map_option Suc (find_index P xs))"

lemma find_index_None_iff: "find_index P xs = None \<longleftrightarrow> (\<forall>x \<in> set xs. \<not> P x)"
  by (induction xs) auto

lemma find_index_Some:
  "find_index P xs = Some k \<Longrightarrow> k < length xs \<and> P (xs ! k) \<and> (\<forall>j < k. \<not> P (xs ! j))"
  by (induction xs arbitrary: k) (auto simp: less_Suc_eq_0_disj split: if_splits)

lemmas find_index_SomeD = find_index_Some [THEN conjunct1]
  find_index_Some [THEN conjunct2, THEN conjunct1]
  find_index_Some [THEN conjunct2, THEN conjunct2, rule_format]

text \<open>Updating a list at a position outside a set of positions.\<close>

lemma nth_update_outside: "j \<notin> J \<Longrightarrow> i \<in> J \<Longrightarrow> xs[j := x] ! i = xs ! i"
  by (metis nth_list_update_neq)

section \<open>Errors\<close>

text \<open>
  A Go function that returns a value and an error is a sum, \<open>Inl\<close> the error; an early
  return on an error is \<open>and_then\<close>.
\<close>

fun and_then :: "'e + 'a \<Rightarrow> ('a \<Rightarrow> 'e + 'b) \<Rightarrow> 'e + 'b" where
  "and_then (Inl e) f = Inl e"
| "and_then (Inr a) f = f a"

lemma and_then_Inr_iff: "and_then m f = Inr b \<longleftrightarrow> (\<exists>a. m = Inr a \<and> f a = Inr b)"
  by (cases m) auto

lemma and_then_Inl_iff: "and_then m f = Inl e \<longleftrightarrow> m = Inl e \<or> (\<exists>a. m = Inr a \<and> f a = Inl e)"
  by (cases m) auto

lemma and_then_assoc: "and_then (and_then m f) g = and_then m (\<lambda>a. and_then (f a) g)"
  by (cases m) auto

section \<open>State machines\<close>

text \<open>
  A component that is driven by a sequence of events is a step function; \<open>run\<close> folds it
  over the events. Some events are only possible in some states (\<open>guard\<close>);
  \<open>guarded\<close> says that every event of a run meets its guard where it happens.
\<close>

definition run :: "('e \<Rightarrow> 's \<Rightarrow> 's) \<Rightarrow> 'e list \<Rightarrow> 's \<Rightarrow> 's" where
  "run step es s = fold step es s"

fun guarded :: "('e \<Rightarrow> 's \<Rightarrow> bool) \<Rightarrow> ('e \<Rightarrow> 's \<Rightarrow> 's) \<Rightarrow> 'e list \<Rightarrow> 's \<Rightarrow> bool" where
  "guarded g step [] s = True"
| "guarded g step (e # es) s = (g e s \<and> guarded g step es (step e s))"

lemma run_Nil [simp]: "run step [] s = s"
  by (simp add: run_def)

lemma run_Cons [simp]: "run step (e # es) s = run step es (step e s)"
  by (simp add: run_def)

lemma run_append: "run step (es @ es') s = run step es' (run step es s)"
  by (simp add: run_def)

lemma guarded_append:
  "guarded g step (es @ es') s \<longleftrightarrow> guarded g step es s \<and> guarded g step es' (run step es s)"
  by (induction es arbitrary: s) auto

lemma guarded_True [simp]: "guarded (\<lambda>_ _. True) step es s"
  by (induction es arbitrary: s) auto

text \<open>
  The background loop of StartGC: a sweep at every tick of its timer until the context ends.
\<close>

datatype gc_event = GcTick instant | GcContextDone

fun gc_loop :: "(instant \<Rightarrow> 's \<Rightarrow> 's) \<Rightarrow> gc_event list \<Rightarrow> 's \<Rightarrow> 's" where
  "gc_loop sweep [] s = s"
| "gc_loop sweep (GcContextDone # es) s = s"
| "gc_loop sweep (GcTick now # es) s = gc_loop sweep es (sweep now s)"

text \<open>The interface of a machine with an invariant, and what every run of it keeps.\<close>

locale machine =
  fixes step :: "'e \<Rightarrow> 's \<Rightarrow> 's"
    and guard :: "'e \<Rightarrow> 's \<Rightarrow> bool"
    and ok :: "'s \<Rightarrow> bool"
  assumes step_ok: "ok s \<Longrightarrow> guard e s \<Longrightarrow> ok (step e s)"
begin

lemma run_ok: "ok s \<Longrightarrow> guarded guard step es s \<Longrightarrow> ok (run step es s)"
  by (induction es arbitrary: s) (auto intro: step_ok)

lemma prefix_ok:
  assumes "ok s" and "guarded guard step (es @ es') s"
  shows "ok (run step es s)"
  using assms by (auto simp: guarded_append intro: run_ok)

end

text \<open>
  A machine that implements another one: \<open>absf\<close> reads the abstract state off the
  concrete one, and one concrete step is one abstract step.
\<close>

locale refined_machine = machine step guard ok
  for step :: "'e \<Rightarrow> 's \<Rightarrow> 's" and guard ok +
  fixes absf :: "'s \<Rightarrow> 'a"
    and astep :: "'e \<Rightarrow> 'a \<Rightarrow> 'a"
  assumes step_refines: "ok s \<Longrightarrow> guard e s \<Longrightarrow> absf (step e s) = astep e (absf s)"
begin

lemma run_refines:
  "ok s \<Longrightarrow> guarded guard step es s \<Longrightarrow> absf (run step es s) = run astep es (absf s)"
  by (induction es arbitrary: s) (simp_all add: step_refines step_ok)

end

end
