(* ===== verification/Circuit.thy ===== *)
theory Circuit
  imports Prelude
begin

text \<open>
  The circuit breaker of pkg/client/circuit.go, which guards the upstream Plex server: the
  record of its fields (the mutex and the logger left out: every method holds the lock for its
  whole body, so each is one atomic step), one definition per method with the clock reading as
  an argument, an invariant over every run, an abstract three-mode automaton that the methods
  refine, and the interface the proxy handler relies on.
\<close>

section \<open>State and methods\<close>

definition circuit_state_closed :: string where
  "circuit_state_closed = ''closed''"

definition circuit_state_open :: string where
  "circuit_state_open = ''open''"

definition circuit_state_half_open :: string where
  "circuit_state_half_open = ''half-open''"

definition circuit_breaker_default_threshold :: go_int where
  "circuit_breaker_default_threshold = 5"

definition circuit_breaker_default_cooldown :: duration where
  "circuit_breaker_default_cooldown = 30 * second"

lemmas circuit_state_defs =
  circuit_state_closed_def circuit_state_open_def circuit_state_half_open_def

record circuit_breaker =
  threshold :: go_int
  cooldown :: duration
  consecutive_failures :: go_int
  circuit_state :: string
  last_failure_time :: instant
  half_open_at :: instant

definition new_circuit_breaker :: "go_int \<Rightarrow> duration \<Rightarrow> circuit_breaker" where
  "new_circuit_breaker thr cd =
     \<lparr>threshold = (if thr < 1 then 1 else thr),
      cooldown = (if cd < 0 then 0 else cd),
      consecutive_failures = 0,
      circuit_state = circuit_state_closed,
      last_failure_time = zero_time,
      half_open_at = zero_time\<rparr>"

definition transition_locked :: "string \<Rightarrow> circuit_breaker \<Rightarrow> circuit_breaker" where
  "transition_locked next_state c =
     (if circuit_state c = next_state then c else c\<lparr>circuit_state := next_state\<rparr>)"

definition cb_allow :: "instant \<Rightarrow> circuit_breaker \<Rightarrow> bool \<times> circuit_breaker" where
  "cb_allow now c =
     (if circuit_state c = circuit_state_closed then (True, c)
      else if circuit_state c = circuit_state_open then
        (if time_sub now (half_open_at c) < cooldown c then (False, c)
         else (True, transition_locked circuit_state_half_open c))
      else if circuit_state c = circuit_state_half_open then (False, c)
      else (True, c))"

definition cb_record_success :: "circuit_breaker \<Rightarrow> circuit_breaker" where
  "cb_record_success c =
     transition_locked circuit_state_closed
       (c\<lparr>consecutive_failures := 0, last_failure_time := zero_time, half_open_at := zero_time\<rparr>)"

definition cb_record_failure :: "instant \<Rightarrow> circuit_breaker \<Rightarrow> circuit_breaker" where
  "cb_record_failure now c =
     (let c1 = c\<lparr>consecutive_failures := wrap64 (consecutive_failures c + 1),
                last_failure_time := now\<rparr>
      in if circuit_state c1 = circuit_state_half_open then
           transition_locked circuit_state_open (c1\<lparr>half_open_at := now\<rparr>)
         else if circuit_state c1 = circuit_state_open then c1
         else if consecutive_failures c1 \<ge> threshold c1 then
           transition_locked circuit_state_open (c1\<lparr>half_open_at := now\<rparr>)
         else c1)"

definition cb_state_value :: "circuit_breaker \<Rightarrow> string" where
  "cb_state_value c = circuit_state c"

definition cb_failure_count :: "circuit_breaker \<Rightarrow> go_int" where
  "cb_failure_count c = consecutive_failures c"

section \<open>The invariant\<close>

text \<open>
  The state is one of the three constants; the failures counted while the breaker is closed
  stay below the threshold, so the increment never wraps there; and a breaker that has never
  failed is closed.
\<close>

definition cb_ok :: "circuit_breaker \<Rightarrow> bool" where
  "cb_ok c \<longleftrightarrow>
     circuit_state c \<in> {circuit_state_closed, circuit_state_open, circuit_state_half_open} \<and>
     1 \<le> threshold c \<and> threshold c \<le> max_int64 \<and>
     0 \<le> cooldown c \<and> cooldown c \<le> max_int64 \<and>
     (circuit_state c = circuit_state_closed \<longrightarrow>
        0 \<le> consecutive_failures c \<and> consecutive_failures c < threshold c)"

datatype cb_event = Try instant | Good | Bad instant

fun cb_step :: "cb_event \<Rightarrow> circuit_breaker \<Rightarrow> circuit_breaker" where
  "cb_step (Try now) c = snd (cb_allow now c)"
| "cb_step Good c = cb_record_success c"
| "cb_step (Bad now) c = cb_record_failure now c"

lemma states_distinct [simp]:
  "circuit_state_closed \<noteq> circuit_state_open" "circuit_state_open \<noteq> circuit_state_closed"
  "circuit_state_closed \<noteq> circuit_state_half_open" "circuit_state_half_open \<noteq> circuit_state_closed"
  "circuit_state_open \<noteq> circuit_state_half_open" "circuit_state_half_open \<noteq> circuit_state_open"
  by (simp_all add: circuit_state_defs)

lemmas cb_defs = cb_allow_def cb_record_success_def cb_record_failure_def transition_locked_def

lemma transition_locked_sel [simp]:
  "circuit_state (transition_locked s c) = s"
  "threshold (transition_locked s c) = threshold c"
  "cooldown (transition_locked s c) = cooldown c"
  "consecutive_failures (transition_locked s c) = consecutive_failures c"
  "half_open_at (transition_locked s c) = half_open_at c"
  by (simp_all add: transition_locked_def)

lemma new_circuit_breaker_ok: "in_int64 thr \<Longrightarrow> in_int64 cd \<Longrightarrow> cb_ok (new_circuit_breaker thr cd)"
  by (auto simp: cb_ok_def new_circuit_breaker_def in_int64_def max_int64_def)

lemma closed_count_exact:
  assumes "cb_ok c" and "circuit_state c = circuit_state_closed"
  shows "wrap64 (consecutive_failures c + 1) = consecutive_failures c + 1"
  using assms by (intro wrap64_id) (auto simp: cb_ok_def in_int64_iff max_int64_def)

lemma cb_allow_ok: "cb_ok c \<Longrightarrow> cb_ok (snd (cb_allow now c))"
  by (auto simp: cb_ok_def cb_allow_def)

lemma cb_record_success_ok: "cb_ok c \<Longrightarrow> cb_ok (cb_record_success c)"
  by (auto simp: cb_ok_def cb_record_success_def)

lemma cb_record_failure_ok: "cb_ok c \<Longrightarrow> cb_ok (cb_record_failure now c)"
  by (auto simp: cb_ok_def cb_record_failure_def Let_def closed_count_exact)

lemma cb_step_ok: "cb_ok c \<Longrightarrow> cb_ok (cb_step e c)"
  by (cases e) (auto intro: cb_allow_ok cb_record_success_ok cb_record_failure_ok)

section \<open>The abstract automaton\<close>

text \<open>
  What the breaker promises, without the string states, the counters that no decision reads
  and the field updates: closed with a failure count, open since an instant, or half-open.
\<close>

datatype cb_mode = ModeClosed nat | ModeOpen instant | ModeHalfOpen

definition cb_mode_of :: "circuit_breaker \<Rightarrow> cb_mode" where
  "cb_mode_of c =
     (if circuit_state c = circuit_state_closed then ModeClosed (nat (consecutive_failures c))
      else if circuit_state c = circuit_state_open then ModeOpen (half_open_at c)
      else ModeHalfOpen)"

fun mode_step :: "go_int \<Rightarrow> duration \<Rightarrow> cb_event \<Rightarrow> cb_mode \<Rightarrow> cb_mode" where
  "mode_step thr cd (Try now) (ModeOpen t) =
     (if time_sub now t < cd then ModeOpen t else ModeHalfOpen)"
| "mode_step thr cd (Try now) m = m"
| "mode_step thr cd Good m = ModeClosed 0"
| "mode_step thr cd (Bad now) (ModeClosed n) =
     (if int (n + 1) \<ge> thr then ModeOpen now else ModeClosed (n + 1))"
| "mode_step thr cd (Bad now) (ModeOpen t) = ModeOpen t"
| "mode_step thr cd (Bad now) ModeHalfOpen = ModeOpen now"

fun mode_admits :: "duration \<Rightarrow> instant \<Rightarrow> cb_mode \<Rightarrow> bool" where
  "mode_admits cd now (ModeClosed n) = True"
| "mode_admits cd now (ModeOpen t) = (\<not> time_sub now t < cd)"
| "mode_admits cd now ModeHalfOpen = False"

lemma cb_step_sel [simp]:
  "threshold (cb_step e c) = threshold c" "cooldown (cb_step e c) = cooldown c"
  by (cases e; simp add: cb_defs Let_def)+

lemma cb_ok_cases:
  assumes "cb_ok c"
  obtains (closed) "circuit_state c = circuit_state_closed"
    | (open_st) "circuit_state c = circuit_state_open"
    | (half) "circuit_state c = circuit_state_half_open"
  using assms by (auto simp: cb_ok_def)

lemma cb_step_mode:
  assumes "cb_ok c"
  shows "cb_mode_of (cb_step e c) = mode_step (threshold c) (cooldown c) e (cb_mode_of c)"
  using assms
proof (cases rule: cb_ok_cases)
  case closed
  then have count: "wrap64 (consecutive_failures c + 1) = consecutive_failures c + 1"
    and nonneg: "0 \<le> consecutive_failures c"
    using assms closed_count_exact by (auto simp: cb_ok_def)
  show ?thesis
    by (cases e)
      (use closed nonneg in \<open>auto simp: cb_mode_of_def cb_allow_def cb_record_success_def
         cb_record_failure_def Let_def count nat_add_distrib\<close>)
next
  case open_st
  then show ?thesis
    by (cases e) (auto simp: cb_mode_of_def cb_allow_def cb_record_success_def cb_record_failure_def Let_def)
next
  case half
  then show ?thesis
    by (cases e) (auto simp: cb_mode_of_def cb_allow_def cb_record_success_def cb_record_failure_def Let_def)
qed

lemma cb_allow_mode:
  assumes "cb_ok c"
  shows "fst (cb_allow now c) \<longleftrightarrow> mode_admits (cooldown c) now (cb_mode_of c)"
  using assms by (cases rule: cb_ok_cases) (auto simp: cb_mode_of_def cb_allow_def)

interpretation cb: refined_machine cb_step "\<lambda>_ _. True"
    "\<lambda>c. cb_ok c \<and> threshold c = thr \<and> cooldown c = cd" cb_mode_of "mode_step thr cd"
  for thr cd
  by unfold_locales (auto intro: cb_step_ok simp: cb_step_mode)

lemma new_mode [simp]: "cb_mode_of (new_circuit_breaker thr cd) = ModeClosed 0"
  by (simp add: cb_mode_of_def new_circuit_breaker_def)

lemma run_ok_const:
  assumes "cb_ok c"
  shows "cb_ok (run cb_step es c) \<and> threshold (run cb_step es c) = threshold c
    \<and> cooldown (run cb_step es c) = cooldown c"
  using cb.run_ok [of c "threshold c" "cooldown c" es] assms by simp

section \<open>What the breaker promises\<close>

text \<open>
  C1. Every sequence of Allow, RecordSuccess and RecordFailure calls, at any clock readings,
  takes a new breaker through exactly the states of the abstract automaton, and each Allow
  answers as the automaton's state says.
\<close>

theorem circuit_refines_automaton:
  assumes "in_int64 thr" and "in_int64 cd"
  shows "let c = new_circuit_breaker thr cd;
             m = run (mode_step (max 1 thr) (max 0 cd)) es (ModeClosed 0)
         in cb_mode_of (run cb_step es c) = m
            \<and> fst (cb_allow now (run cb_step es c)) = mode_admits (max 0 cd) now m"
proof -
  let ?c = "new_circuit_breaker thr cd"
  have ok: "cb_ok ?c" using assms by (rule new_circuit_breaker_ok)
  have thr: "threshold ?c = max 1 thr" and cd: "cooldown ?c = max 0 cd"
    by (auto simp: new_circuit_breaker_def)
  from ok thr cd have mode: "cb_mode_of (run cb_step es ?c)
      = run (mode_step (max 1 thr) (max 0 cd)) es (ModeClosed 0)"
    using cb.run_refines [of ?c "max 1 thr" "max 0 cd" es] by simp
  have "fst (cb_allow now (run cb_step es ?c))
      \<longleftrightarrow> mode_admits (max 0 cd) now (cb_mode_of (run cb_step es ?c))"
    using cb_allow_mode run_ok_const [OF ok] cd by simp
  with mode show ?thesis by (simp add: Let_def)
qed

theorem circuit_refines_automaton_witness:
  "let c = new_circuit_breaker 2 10;
       m = run (mode_step 2 10) [Bad 5, Bad 6, Try 20] (ModeClosed 0)
   in cb_mode_of (run cb_step [Bad 5, Bad 6, Try 20] c) = m
      \<and> fst (cb_allow 21 (run cb_step [Bad 5, Bad 6, Try 20] c)) = mode_admits 10 21 m
      \<and> m = ModeHalfOpen"
  using circuit_refines_automaton [of 2 10 "[Bad 5, Bad 6, Try 20]" 21]
  by (simp add: in_int64_iff time_sub_def min_int64_def max_int64_def)

lemma mode_bad_run:
  "n + length ts < k \<Longrightarrow>
     run (mode_step (int k) cd) (map Bad ts) (ModeClosed n) = ModeClosed (n + length ts)"
  by (induction ts arbitrary: n) auto

lemma mode_open_bad_run: "run (mode_step thr cd) (map Bad ts) (ModeOpen t) = ModeOpen t"
  by (induction ts) auto

lemma mode_bad_trips:
  assumes "k \<le> n + length ts" and "n < k"
  shows "run (mode_step (int k) cd) (map Bad ts) (ModeClosed n) = ModeOpen (ts ! (k - n - 1))"
  using assms
proof (induction ts arbitrary: n)
  case Nil
  then show ?case by simp
next
  case (Cons t ts)
  then show ?case
    by (cases "Suc n = k") (auto simp: mode_open_bad_run nth_Cons' not_less_eq)
qed

text \<open>
  A breaker closed with no failure counted stays closed through fewer than \<open>threshold\<close>
  consecutive failures, opens at the \<open>threshold\<close>-th one, and the later ones neither close
  it nor move the instant its cooldown runs from.
\<close>

lemma circuit_opens_at_threshold:
  assumes "cb_ok c" and "circuit_state c = circuit_state_closed" and "consecutive_failures c = 0"
  shows "cb_mode_of (run cb_step (map Bad ts) c) =
    (if length ts < nat (threshold c) then ModeClosed (length ts)
     else ModeOpen (ts ! (nat (threshold c) - 1)))"
proof -
  have thr: "threshold c = int (nat (threshold c))" and pos: "0 < nat (threshold c)"
    using assms(1) by (auto simp: cb_ok_def)
  have start: "cb_mode_of c = ModeClosed 0"
    using assms(2,3) by (simp add: cb_mode_of_def)
  have "cb_mode_of (run cb_step (map Bad ts) c)
      = run (mode_step (int (nat (threshold c))) (cooldown c)) (map Bad ts) (ModeClosed 0)"
    using cb.run_refines [of c "threshold c" "cooldown c" "map Bad ts"] assms(1) start thr by simp
  then show ?thesis
    using mode_bad_run [of 0 ts "nat (threshold c)" "cooldown c"]
      mode_bad_trips [of "nat (threshold c)" 0 ts "cooldown c"] pos by simp
qed

lemma circuit_opens_at_threshold_witness:
  "cb_mode_of (run cb_step (map Bad [7, 8, 9]) (new_circuit_breaker 2 10)) = ModeOpen 8"
  using circuit_opens_at_threshold [of "new_circuit_breaker 2 10" "[7, 8, 9]"]
  by (simp add: new_circuit_breaker_ok in_int64_iff) (simp add: new_circuit_breaker_def)

lemma mode_open_run:
  assumes "\<forall>e \<in> set es. (\<exists>t. e = Bad t) \<or> (\<exists>t. e = Try t \<and> time_sub t t0 < cd)"
  shows "run (mode_step thr cd) es (ModeOpen t0) = ModeOpen t0"
  using assms by (induction es) auto

text \<open>
  While the cooldown of an open breaker has not elapsed, no Allow succeeds, whatever
  number of Allow and RecordFailure calls happen meanwhile: the failures of requests still in
  flight do not extend the window. The first Allow at or after its end succeeds.
\<close>

lemma circuit_cooldown_window:
  assumes "cb_ok c" and "circuit_state c = circuit_state_open"
    and "\<forall>e \<in> set es. (\<exists>t. e = Bad t) \<or> (\<exists>t. e = Try t \<and> time_sub t (half_open_at c) < cooldown c)"
  shows "fst (cb_allow now (run cb_step es c)) \<longleftrightarrow> cooldown c \<le> time_sub now (half_open_at c)"
proof -
  have "cb_mode_of (run cb_step es c)
      = run (mode_step (threshold c) (cooldown c)) es (ModeOpen (half_open_at c))"
    using cb.run_refines [of c "threshold c" "cooldown c" es] assms(1,2)
    by (simp add: cb_mode_of_def)
  also have "\<dots> = ModeOpen (half_open_at c)"
    using assms(3) by (rule mode_open_run)
  finally show ?thesis
    using cb_allow_mode run_ok_const [OF assms(1)] by auto
qed

lemma circuit_cooldown_window_witness:
  "let c = cb_record_failure 100 (new_circuit_breaker 1 30)
   in \<not> fst (cb_allow 120 (run cb_step [Try 105, Bad 110] c))
      \<and> fst (cb_allow 130 (run cb_step [Try 105, Bad 110] c))"
proof -
  let ?c = "cb_record_failure 100 (new_circuit_breaker 1 30)"
  have c: "circuit_state ?c = circuit_state_open" "half_open_at ?c = 100" "cooldown ?c = 30"
    by (auto simp: cb_defs new_circuit_breaker_def Let_def wrap64_def)
  have ok: "cb_ok ?c"
    by (simp add: cb_record_failure_ok new_circuit_breaker_ok in_int64_iff)
  show ?thesis
    using circuit_cooldown_window [OF ok c(1), of "[Try 105, Bad 110]"]
    by (simp add: c time_sub_def min_int64_def max_int64_def Let_def del: cb_step.simps run_Cons)
qed

section \<open>The interface of a breaker\<close>

text \<open>
  What the proxy handler relies on: a healthy breaker admits and is unchanged by it; an
  admission either leaves the breaker as it was or makes it \<open>probing\<close>, waiting for the one
  admitted request; a probing breaker refuses; a recorded success makes it healthy; a recorded
  failure ends the probe.
\<close>

locale breaker =
  fixes allow :: "instant \<Rightarrow> 'b \<Rightarrow> bool \<times> 'b"
    and success :: "'b \<Rightarrow> 'b"
    and failure :: "instant \<Rightarrow> 'b \<Rightarrow> 'b"
    and ok :: "'b \<Rightarrow> bool"
    and healthy :: "'b \<Rightarrow> bool"
    and probing :: "'b \<Rightarrow> bool"
  assumes allow_ok: "ok b \<Longrightarrow> ok (snd (allow t b))"
    and success_ok: "ok b \<Longrightarrow> ok (success b)"
    and failure_ok: "ok b \<Longrightarrow> ok (failure t b)"
    and success_healthy: "ok b \<Longrightarrow> healthy (success b)"
    and healthy_admits: "ok b \<Longrightarrow> healthy b \<Longrightarrow> allow t b = (True, b)"
    and probing_refuses: "ok b \<Longrightarrow> probing b \<Longrightarrow> allow t b = (False, b)"
    and admission: "ok b \<Longrightarrow> \<not> healthy b \<Longrightarrow> fst (allow t b) \<Longrightarrow> probing (snd (allow t b))"
    and refusal: "ok b \<Longrightarrow> \<not> fst (allow t b) \<Longrightarrow> snd (allow t b) = b"
    and failure_ends_probe: "ok b \<Longrightarrow> probing b \<Longrightarrow> \<not> probing (failure t b)"
begin

text \<open>A probing breaker is left as it is by any number of admission requests.\<close>

lemma probing_run:
  "ok b \<Longrightarrow> probing b \<Longrightarrow> run (\<lambda>t b. snd (allow t b)) ts b = b"
  by (induction ts) (simp_all add: probing_refuses)

lemma probing_blocks:
  "ok b \<Longrightarrow> probing b \<Longrightarrow> \<not> fst (allow t (run (\<lambda>t b. snd (allow t b)) ts b))"
  by (simp add: probing_run probing_refuses)

text \<open>After an admission by an unhealthy breaker, every later request is refused.\<close>

lemma one_probe:
  assumes "ok b" and "\<not> healthy b" and "fst (allow t b)"
  shows "\<not> fst (allow t' (run (\<lambda>t b. snd (allow t b)) ts (snd (allow t b))))"
  using assms by (intro probing_blocks) (auto intro: allow_ok admission)

lemma success_reopens:
  "ok b \<Longrightarrow> fst (allow t (success b))"
  by (simp add: healthy_admits success_healthy success_ok)

end

interpretation cb_breaker: breaker cb_allow cb_record_success cb_record_failure cb_ok
    "\<lambda>c. circuit_state c = circuit_state_closed" "\<lambda>c. circuit_state c = circuit_state_half_open"
proof (unfold_locales, goal_cases)
  case (1 b t) then show ?case by (rule cb_allow_ok)
next
  case (2 b) then show ?case by (rule cb_record_success_ok)
next
  case (3 b t) then show ?case by (rule cb_record_failure_ok)
qed (auto simp: cb_defs cb_ok_def Let_def split: if_splits)

lemma run_try: "run cb_step (map Try ts) c = run (\<lambda>t c. snd (cb_allow t c)) ts c"
  by (induction ts arbitrary: c) auto

text \<open>
  C2. At most one probe: after a breaker that is not closed has admitted a request, every
  later Allow is refused, at any instant, until a success or a failure is recorded.
\<close>

theorem circuit_one_probe:
  assumes "cb_ok c" and "circuit_state c \<noteq> circuit_state_closed" and "fst (cb_allow t c)"
  shows "\<not> fst (cb_allow t' (run cb_step (map Try ts) (snd (cb_allow t c))))"
  unfolding run_try using assms by (rule cb_breaker.one_probe)

theorem circuit_one_probe_witness:
  "let c = cb_record_failure 100 (new_circuit_breaker 1 30)
   in fst (cb_allow 130 c)
      \<and> \<not> fst (cb_allow 9999 (run cb_step (map Try [200, 300]) (snd (cb_allow 130 c))))"
proof -
  let ?c = "cb_record_failure 100 (new_circuit_breaker 1 30)"
  have c: "circuit_state ?c = circuit_state_open" "half_open_at ?c = 100" "cooldown ?c = 30"
    by (auto simp: cb_defs new_circuit_breaker_def Let_def wrap64_def)
  have ok: "cb_ok ?c"
    by (simp add: cb_record_failure_ok new_circuit_breaker_ok in_int64_iff)
  have admit: "fst (cb_allow 130 ?c)"
    by (simp add: cb_allow_def c time_sub_def min_int64_def max_int64_def)
  show ?thesis
    using circuit_one_probe [OF ok _ admit, of 9999 "[200, 300]"] admit c by (simp add: Let_def)
qed

end
