(* ===== verification/Backoff.thy ===== *)
theory Backoff
  imports Prelude
begin

text \<open>
  The reconnect delay of pkg/client/reconnect.go. \<open>math.Pow(2, attempt)\<close> is exact while it
  fits a float64 and infinite afterwards; its conversion to int64 is exact below 2^63, and above
  the Go specification leaves the value to the implementation: \<open>go_arch\<close> has the two that
  exist (amd64 yields the least int64, arm64 saturates). The multiplication by
  \<open>time.Second\<close> wraps. The random jitter is an argument.
\<close>

definition max_reconnect_jitter :: duration where
  "max_reconnect_jitter = 500 * millisecond"

datatype go_arch = Amd64 | Arm64

fun out_of_range_int64 :: "go_arch \<Rightarrow> int" where
  "out_of_range_int64 Amd64 = min_int64"
| "out_of_range_int64 Arm64 = max_int64"

definition pow2_int64 :: "go_arch \<Rightarrow> nat \<Rightarrow> int" where
  "pow2_int64 arch n = (if n < 63 then 2 ^ n else out_of_range_int64 arch)"

definition backoff_delay :: "go_arch \<Rightarrow> go_int \<Rightarrow> duration \<Rightarrow> duration \<Rightarrow> duration" where
  "backoff_delay arch attempt max_delay jitter =
     (let attempt = (if attempt < 0 then 0 else attempt);
          max_delay = (if max_delay \<le> 0 then 60 * second else max_delay);
          exponential = pow2_int64 arch (nat attempt);
          delay = wrap64 (exponential * second);
          delay = (if delay > max_delay then max_delay else delay)
      in wrap64 (delay + jitter))"

text \<open>What \<open>rng.Int63n(int64(maxReconnectJitter) + 1)\<close> can return.\<close>

definition jitter_ok :: "duration \<Rightarrow> bool" where
  "jitter_ok j \<longleftrightarrow> 0 \<le> j \<and> j \<le> max_reconnect_jitter"

lemma small_power: "n \<le> 33 \<Longrightarrow> (2::int) ^ n \<le> 8589934592"
  using power_increasing [of n 33 "2::int"] by simp

lemma exact_seconds:
  assumes "n \<le> 33"
  shows "wrap64 (pow2_int64 arch n * second) = 2 ^ n * second"
proof -
  have "0 \<le> (2::int) ^ n * second" by (simp add: unit_defs)
  moreover have "(2::int) ^ n * second \<le> max_int64"
    using small_power [OF assms] by (simp add: unit_defs max_int64_def)
  ultimately have "in_int64 (2 ^ n * second)"
    by (simp add: in_int64_def min_int64_def)
  then show ?thesis
    using assms by (simp add: pow2_int64_def wrap64_id)
qed

lemma power_times_second_wraps:
  assumes "55 \<le> n"
  shows "wrap64 (2 ^ n * second) = 0"
proof -
  obtain k where "n = 55 + k" using assms le_Suc_ex by blast
  then have "(2::int) ^ n * second = (2 ^ k * 1953125) * 2 ^ 64"
    by (simp add: unit_defs power_add)
  then obtain q :: int where q: "2 ^ n * second = q * 2 ^ 64" by blast
  show ?thesis
    unfolding q by (simp add: wrap64_def)
qed

lemma late_seconds:
  assumes "55 \<le> n"
  shows "wrap64 (pow2_int64 arch n * second) \<in> {0, - second}"
proof (cases "n < 63")
  case True
  then show ?thesis
    using power_times_second_wraps [OF assms] by (simp add: pow2_int64_def)
next
  case False
  then show ?thesis
    by (cases arch) (simp_all add: pow2_int64_def unit_defs min_int64_def max_int64_def wrap64_def)
qed

lemma wrap64_bounded:
  "- second \<le> d \<Longrightarrow> d \<le> m \<Longrightarrow> m \<le> max_int64 - max_reconnect_jitter \<Longrightarrow> jitter_ok j \<Longrightarrow>
     wrap64 (d + j) = d + j"
  by (intro wrap64_id) (auto simp: in_int64_iff jitter_ok_def max_int64_def unit_defs max_reconnect_jitter_def)

text \<open>
  C3. For the first 34 attempts the delay is the documented one: two to the attempt, in
  seconds, capped at the configured maximum (60 seconds when that is not positive), plus the
  jitter of at most half a second.
\<close>

theorem backoff_exponential_capped:
  assumes "attempt \<le> 33" and "max_delay \<le> max_int64 - max_reconnect_jitter" and "jitter_ok j"
  shows "backoff_delay arch attempt max_delay j
    = min (2 ^ nat (max 0 attempt) * second) (if max_delay \<le> 0 then 60 * second else max_delay) + j"
proof -
  let ?n = "nat (if attempt < 0 then 0 else attempt)"
  let ?m = "if max_delay \<le> 0 then 60 * second else max_delay"
  have n: "?n \<le> 33" and n_max: "?n = nat (max 0 attempt)" using assms(1) by auto
  have base: "wrap64 (pow2_int64 arch ?n * second) = 2 ^ ?n * second"
    using n by (rule exact_seconds)
  have m: "0 < ?m" "?m \<le> max_int64 - max_reconnect_jitter"
    using assms(2) by (auto simp: unit_defs max_int64_def max_reconnect_jitter_def)
  have pos: "0 < 2 ^ ?n * second" by (simp add: unit_defs)
  have "wrap64 (min (2 ^ ?n * second) ?m + j) = min (2 ^ ?n * second) ?m + j"
  proof (rule wrap64_bounded [OF _ _ m(2) assms(3)])
    have "- second \<le> 0" by (simp add: unit_defs)
    also have "0 \<le> min (2 ^ ?n * second) ?m" using pos m(1) by linarith
    finally show "- second \<le> min (2 ^ ?n * second) ?m" .
  qed simp
  then show ?thesis
    unfolding backoff_delay_def Let_def base n_max [symmetric] by (simp add: min_def split: if_splits)
qed

theorem backoff_exponential_capped_witness:
  "backoff_delay Amd64 4 (10 * second) 7 = 10 * second + 7 \<and> backoff_delay Arm64 2 (10 * second) 7 = 4 * second + 7"
  using backoff_exponential_capped [of 4 "10 * second" 7 Amd64]
    backoff_exponential_capped [of 2 "10 * second" 7 Arm64]
  by (simp add: jitter_ok_def unit_defs max_reconnect_jitter_def max_int64_def)

text \<open>
  From the 56th consecutive failure on the multiplication has overflowed to nothing: the
  exponential part is zero or minus one second on either architecture, so the delay is at most
  the jitter however long the server has been away, although the configured maximum is a
  minute or more.
\<close>

lemma backoff_collapses:
  assumes "55 \<le> attempt" and "max_delay \<le> max_int64 - max_reconnect_jitter" and "jitter_ok j"
  shows "backoff_delay arch attempt max_delay j \<le> max_reconnect_jitter"
proof -
  let ?m = "if max_delay \<le> 0 then 60 * second else max_delay"
  let ?d = "wrap64 (pow2_int64 arch (nat attempt) * second)"
  have d: "?d \<in> {0, - second}" using assms(1) by (intro late_seconds) simp
  have m: "0 < ?m" "?m \<le> max_int64 - max_reconnect_jitter"
    using assms(2) by (auto simp: unit_defs max_int64_def max_reconnect_jitter_def)
  have "?d \<le> ?m" using d m(1) by (auto simp: unit_defs)
  moreover have "- second \<le> ?d" using d by (auto simp: unit_defs)
  ultimately have "wrap64 (?d + j) = ?d + j" using wrap64_bounded [OF _ _ m(2) assms(3)] by blast
  with \<open>?d \<le> ?m\<close> assms(1) have "backoff_delay arch attempt max_delay j = ?d + j"
    by (simp add: backoff_delay_def Let_def)
  also have "\<dots> \<le> max_reconnect_jitter"
    using d assms(3) by (auto simp: jitter_ok_def unit_defs)
  finally show ?thesis .
qed

lemma backoff_collapses_witness:
  "backoff_delay Amd64 60 (60 * second) 250 \<le> max_reconnect_jitter
   \<and> backoff_delay Arm64 70 (60 * second) 250 \<le> max_reconnect_jitter"
  using backoff_collapses [of 60 "60 * second" 250 Amd64] backoff_collapses [of 70 "60 * second" 250 Arm64]
  by (simp add: jitter_ok_def unit_defs max_reconnect_jitter_def max_int64_def)

section \<open>Both architectures\<close>

instantiation go_arch :: enum
begin

definition enum_go_arch :: "go_arch list" where
  "enum_go_arch = [Amd64, Arm64]"

definition enum_all_go_arch :: "(go_arch \<Rightarrow> bool) \<Rightarrow> bool" where
  "enum_all_go_arch P \<longleftrightarrow> P Amd64 \<and> P Arm64"

definition enum_ex_go_arch :: "(go_arch \<Rightarrow> bool) \<Rightarrow> bool" where
  "enum_ex_go_arch P \<longleftrightarrow> P Amd64 \<or> P Arm64"

instance
proof
  have univ: "UNIV = {Amd64, Arm64}" by (auto intro: go_arch.exhaust)
  then show "(UNIV :: go_arch set) = set enum_class.enum" by (simp add: enum_go_arch_def)
  show "distinct (enum_class.enum :: go_arch list)" by (simp add: enum_go_arch_def)
  show "enum_class.enum_all P = Ball UNIV P" "enum_class.enum_ex P = Bex UNIV P" for P :: "go_arch \<Rightarrow> bool"
    by (simp_all add: univ enum_all_go_arch_def enum_ex_go_arch_def)
qed

end

text \<open>The delays around the overflow, with a maximum of a minute and no jitter, in seconds.\<close>

lemma delays_around_the_overflow:
  "\<forall>arch. map (\<lambda>n. backoff_delay arch n (60 * second) 0 div second) [0, 1, 5, 6, 33, 55, 56, 62] = [1, 2, 32, 60, 60, 0, 0, 0]"
  by code_simp

end
