(* ===== verification/Pool.thy ===== *)
theory Pool
  imports Prelude
begin

text \<open>
  The connection pool of pkg/client/pool.go. A \<open>*poolConn\<close> is shared between the pool's
  slice, the goroutine that owns the slot and the requests in flight on it, so the pool works on
  a store: \<open>heap\<close> gives the struct at each pointer, \<open>next_ref\<close> the next fresh pointer.
  A context's CancelFunc and a websocket connection are identifiers. Each method holds the
  pool's lock while it touches the fields, so each is one atomic step; the cancel functions and
  the Close calls it makes after unlocking are returned as a list of effects, in call order.
\<close>

section \<open>State\<close>

type_synonym ref = nat
type_synonym conn_id = nat
type_synonym cancel_id = nat

definition pool_join_stagger :: duration where
  "pool_join_stagger = 150 * millisecond"

definition pool_repair_max_lag :: duration where
  "pool_repair_max_lag = 4 * second"

definition max_pool_connections :: go_int where
  "max_pool_connections = 32"

record connection_pool =
  conns :: "ref option list"
  slot_cancels :: "cancel_id option list"
  session_id :: string
  subdomain :: string
  server :: string
  max_conns :: go_int
  control_index :: go_int
  ping_cancel :: "cancel_id option"

record pool_conn =
  pc_conn :: conn_id
  pc_index :: go_int
  pc_streams :: go_int
  pc_last_pong :: go_int
  pc_ping_cancel :: "cancel_id option"

record pool_snapshot =
  snap_active :: go_int
  snap_control_index :: go_int
  snap_max_conns :: go_int

record pool_world =
  cpool :: connection_pool
  heap :: "ref \<Rightarrow> pool_conn"
  next_ref :: ref

datatype pool_effect =
    CancelCall cancel_id
  | CloseConn conn_id
  | DrainAndClose "ref list" \<comment> \<open>the goroutine that waits for streams, then closes\<close>

abbreviation opt_cancel :: "cancel_id option \<Rightarrow> pool_effect list" where
  "opt_cancel c \<equiv> (case c of None \<Rightarrow> [] | Some x \<Rightarrow> [CancelCall x])"

definition unix_nano :: "instant \<Rightarrow> go_int" where
  "unix_nano t = wrap64 t"

section \<open>Methods\<close>

definition new_connection_pool :: "string \<Rightarrow> string \<Rightarrow> string \<Rightarrow> go_int \<Rightarrow> connection_pool" where
  "new_connection_pool srv sub sid maxc =
     (let maxc = (if maxc < 1 then 1 else maxc)
      in \<lparr>conns = replicate (nat maxc) None,
          slot_cancels = replicate (nat maxc) None,
          session_id = sid, subdomain = sub, server = srv,
          max_conns = maxc, control_index = 0, ping_cancel = None\<rparr>)"

definition active_count_locked :: "connection_pool \<Rightarrow> go_int" where
  "active_count_locked p = fold (\<lambda>c n. if c \<noteq> None then n + 1 else n) (conns p) 0"

definition pool_len :: "connection_pool \<Rightarrow> go_int" where
  "pool_len p = int (length (conns p))"

definition pool_add ::
  "instant \<Rightarrow> go_int \<Rightarrow> conn_id \<Rightarrow> pool_world \<Rightarrow> (ref option \<times> bool) \<times> pool_world" where
  "pool_add now index conn w =
     (let p = cpool w in
      if index < 0 \<or> index \<ge> pool_len p then ((None, False), w)
      else
        let active_before = active_count_locked p;
            control_missing = (control_index p < 0 \<or> control_index p \<ge> pool_len p
              \<or> conns p ! nat (control_index p) = None);
            r = next_ref w;
            conn_ref = \<lparr>pc_conn = conn, pc_index = index, pc_streams = 0,
                        pc_last_pong = unix_nano now, pc_ping_cancel = None\<rparr>;
            p = p\<lparr>conns := (conns p)[nat index := Some r]\<rparr>;
            p = (if control_missing \<and> active_before = 0 then p\<lparr>control_index := index\<rparr> else p)
        in ((Some r, index = control_index p),
            w\<lparr>cpool := p, heap := (heap w)(r := conn_ref), next_ref := Suc r\<rparr>))"

definition is_control_slot :: "go_int \<Rightarrow> connection_pool \<Rightarrow> bool" where
  "is_control_slot index p \<longleftrightarrow>
     index \<ge> 0 \<and> index < pool_len p \<and> index = control_index p \<and> conns p ! nat index \<noteq> None"

definition set_conn_ping_cancel :: "go_int \<Rightarrow> cancel_id \<Rightarrow> pool_world \<Rightarrow> pool_world" where
  "set_conn_ping_cancel index cancel w =
     (if index < 0 \<or> index \<ge> pool_len (cpool w) then w
      else case conns (cpool w) ! nat index of
        None \<Rightarrow> w
      | Some r \<Rightarrow> w\<lparr>heap := (heap w)(r := (heap w r)\<lparr>pc_ping_cancel := Some cancel\<rparr>)\<rparr>)"

definition set_slot_cancel :: "go_int \<Rightarrow> cancel_id \<Rightarrow> pool_world \<Rightarrow> pool_world" where
  "set_slot_cancel index cancel w =
     (if index < 0 \<or> index \<ge> int (length (slot_cancels (cpool w))) then w
      else w\<lparr>cpool := (cpool w)\<lparr>slot_cancels := (slot_cancels (cpool w))[nat index := Some cancel]\<rparr>\<rparr>)"

text \<open>The index of the first slot whose connection has no stream in flight, or -1.\<close>

fun find_idle :: "(ref \<Rightarrow> pool_conn) \<Rightarrow> ref option list \<Rightarrow> go_int \<Rightarrow> go_int" where
  "find_idle h [] i = -1"
| "find_idle h (None # cs) i = find_idle h cs (i + 1)"
| "find_idle h (Some r # cs) i = (if pc_streams (h r) \<noteq> 0 then find_idle h cs (i + 1) else i)"

text \<open>Takes the ping cancel out of the struct at a pointer; the call is among the effects.\<close>

definition take_ping_cancel :: "ref \<Rightarrow> pool_world \<Rightarrow> pool_effect list \<times> pool_world" where
  "take_ping_cancel r w =
     (case pc_ping_cancel (heap w r) of
        None \<Rightarrow> ([], w)
      | Some c \<Rightarrow> ([CancelCall c], w\<lparr>heap := (heap w)(r := (heap w r)\<lparr>pc_ping_cancel := None\<rparr>)\<rparr>))"

definition pool_remove ::
  "go_int \<Rightarrow> pool_world \<Rightarrow> (go_int \<times> ref option \<times> bool) \<times> pool_effect list \<times> pool_world" where
  "pool_remove index w =
     (if index < 0 \<or> index \<ge> pool_len (cpool w) then
        ((active_count_locked (cpool w), None, False), [], w)
      else case conns (cpool w) ! nat index of
        None \<Rightarrow> ((active_count_locked (cpool w), None, False), [], w)
      | Some removed_conn \<Rightarrow>
        let p = (cpool w)\<lparr>conns := (conns (cpool w))[nat index := None]\<rparr>;
            control_lost = (index = control_index p);
            (eff1, w) = take_ping_cancel removed_conn w;
            eff2 = (if control_lost then opt_cancel (ping_cancel p) else []);
            p = (if control_lost then p\<lparr>ping_cancel := None\<rparr> else p);
            remaining = active_count_locked p
        in if remaining = 0 then
             ((0, None, control_lost), eff1 @ eff2,
              w\<lparr>cpool := (if pool_len p > 0 then p\<lparr>control_index := 0\<rparr> else p)\<rparr>)
           else if \<not> control_lost then
             ((remaining, None, False), eff1 @ eff2, w\<lparr>cpool := p\<rparr>)
           else
             let next_index = find_idle (heap w) (conns p) 0 in
             if next_index < 0 then
               ((remaining, None, True), eff1 @ eff2, w\<lparr>cpool := p\<lparr>control_index := -1\<rparr>\<rparr>)
             else
               let p = p\<lparr>control_index := next_index\<rparr>;
                   promoted = conns p ! nat next_index;
                   (eff3, w) = (case promoted of None \<Rightarrow> ([], w) | Some r \<Rightarrow> take_ping_cancel r w)
               in ((remaining, promoted, True), eff1 @ eff2 @ eff3, w\<lparr>cpool := p\<rparr>))"

definition replace_ping_loop :: "cancel_id \<Rightarrow> pool_world \<Rightarrow> pool_effect list \<times> pool_world" where
  "replace_ping_loop cancel w =
     (opt_cancel (ping_cancel (cpool w)), w\<lparr>cpool := (cpool w)\<lparr>ping_cancel := Some cancel\<rparr>\<rparr>)"

definition pool_snapshot_of :: "connection_pool \<Rightarrow> pool_snapshot" where
  "pool_snapshot_of p =
     \<lparr>snap_active = active_count_locked p, snap_control_index = control_index p,
      snap_max_conns = max_conns p\<rparr>"

definition active_count :: "connection_pool \<Rightarrow> go_int" where
  "active_count p = active_count_locked p"

definition max_connections :: "connection_pool \<Rightarrow> go_int" where
  "max_connections p = max_conns p"

text \<open>The first occupied slot of a list and its pointer.\<close>

fun first_active :: "ref option list \<Rightarrow> go_int \<Rightarrow> (go_int \<times> ref) option" where
  "first_active [] i = None"
| "first_active (None # cs) i = first_active cs (i + 1)"
| "first_active (Some r # cs) i = Some (i, r)"

text \<open>
  One iteration of Resize's loop over the slots that go away: the connection is taken out with
  its ping cancel, and the slot's own cancel is taken out. The loop collects the removed
  connections, the ping cancels and the slot cancels, each in the order of the slots.
\<close>

definition strip_slot ::
  "nat \<Rightarrow> pool_world \<Rightarrow> (ref list \<times> pool_effect list \<times> pool_effect list) \<times> pool_world" where
  "strip_slot i w =
     (let (rc, pe, w) =
            (case conns (cpool w) ! i of
               None \<Rightarrow> ([], [], w)
             | Some r \<Rightarrow>
                 let (pe, w) = take_ping_cancel r w
                 in ([r], pe, w\<lparr>cpool := (cpool w)\<lparr>conns := (conns (cpool w))[i := None]\<rparr>\<rparr>));
          (se, w) =
            (case slot_cancels (cpool w) ! i of
               None \<Rightarrow> ([], w)
             | Some c \<Rightarrow>
                 ([CancelCall c],
                  w\<lparr>cpool := (cpool w)\<lparr>slot_cancels := (slot_cancels (cpool w))[i := None]\<rparr>\<rparr>))
      in ((rc, pe, se), w))"

fun strip_slots ::
  "nat list \<Rightarrow> pool_world \<Rightarrow> (ref list \<times> pool_effect list \<times> pool_effect list) \<times> pool_world" where
  "strip_slots [] w = (([], [], []), w)"
| "strip_slots (i # is) w =
     (let ((rc, pe, se), w) = strip_slot i w;
          ((rcs, pes, ses), w) = strip_slots is w
      in ((rc @ rcs, pe @ pes, se @ ses), w))"

definition clamp_max :: "go_int \<Rightarrow> go_int" where
  "clamp_max n =
     (let n = (if n < 1 then 1 else n)
      in if n > max_pool_connections then max_pool_connections else n)"

definition grow_pool :: "go_int \<Rightarrow> connection_pool \<Rightarrow> connection_pool" where
  "grow_pool new_max p =
     (let extra = nat (new_max - max_conns p)
      in p\<lparr>conns := conns p @ replicate extra None,
           slot_cancels := slot_cancels p @ replicate extra None,
           max_conns := new_max\<rparr>)"

text \<open>The control slot moves off the slots that go away, if it is one of them.\<close>

definition relocate_control ::
  "go_int \<Rightarrow> pool_world \<Rightarrow> (ref option \<times> pool_effect list \<times> pool_effect list) \<times> pool_world" where
  "relocate_control new_max w =
     (let p = cpool w in
      if control_index p \<ge> new_max then
        let found = first_active (take (nat new_max) (conns p)) 0;
            promoted = map_option snd found;
            p = p\<lparr>control_index := (case found of None \<Rightarrow> 0 | Some (i, r) \<Rightarrow> i)\<rparr>;
            w = w\<lparr>cpool := p\<lparr>ping_cancel := None\<rparr>\<rparr>;
            (pe, w) = (case promoted of None \<Rightarrow> ([], w) | Some r \<Rightarrow> take_ping_cancel r w)
        in ((promoted, opt_cancel (ping_cancel p), pe), w)
      else ((None, [], []), w))"

definition pool_resize ::
  "go_int \<Rightarrow> pool_world \<Rightarrow> (go_int \<times> go_int \<times> ref option) \<times> pool_effect list \<times> pool_world" where
  "pool_resize new_max w =
     (let new_max = clamp_max new_max;
          old_max = max_conns (cpool w)
      in if new_max = old_max then ((old_max, old_max, None), [], w)
         else if new_max > old_max then
           ((old_max, new_max, None), [], w\<lparr>cpool := grow_pool new_max (cpool w)\<rparr>)
         else
           let ((promoted, ce, pe), w) = relocate_control new_max w;
               ((removed, pes, ses), w) = strip_slots (rev [nat new_max..<nat old_max]) w;
               p = cpool w;
               p = p\<lparr>conns := take (nat new_max) (conns p),
                     slot_cancels := take (nat new_max) (slot_cancels p),
                     max_conns := new_max\<rparr>
           in ((old_max, new_max, promoted), ce @ pe @ pes @ ses @ [DrainAndClose removed],
               w\<lparr>cpool := p\<rparr>))"

text \<open>
  The goroutine Resize starts: for each removed connection it polls the stream counter up to
  50 times, 100 ms apart, and then closes the connection. \<open>streams t r\<close> is the counter's
  value after \<open>t\<close> polling intervals. Returns the connections closed and when.
\<close>

fun drain_wait :: "nat \<Rightarrow> (nat \<Rightarrow> go_int) \<Rightarrow> nat \<Rightarrow> nat" where
  "drain_wait 0 streams t = t"
| "drain_wait (Suc n) streams t = (if streams t = 0 then t else drain_wait n streams (Suc t))"

fun drain_and_close ::
  "(nat \<Rightarrow> ref \<Rightarrow> go_int) \<Rightarrow> (ref \<Rightarrow> pool_conn) \<Rightarrow> ref list \<Rightarrow> nat \<Rightarrow> (nat \<times> conn_id) list" where
  "drain_and_close streams h [] t = []"
| "drain_and_close streams h (r # rs) t =
     (let t = drain_wait 50 (\<lambda>t. streams t r) t
      in (t, pc_conn (h r)) # drain_and_close streams h rs t)"

fun take_ping_cancels :: "ref option list \<Rightarrow> pool_world \<Rightarrow> pool_effect list \<times> pool_world" where
  "take_ping_cancels [] w = ([], w)"
| "take_ping_cancels (None # cs) w = take_ping_cancels cs w"
| "take_ping_cancels (Some r # cs) w =
     (let (e, w) = take_ping_cancel r w; (es, w) = take_ping_cancels cs w in (e @ es, w))"

definition pool_close :: "pool_world \<Rightarrow> pool_effect list \<times> pool_world" where
  "pool_close w =
     (let p = cpool w;
          (pes, w) = take_ping_cancels (conns p) w;
          ses = concat (map opt_cancel (slot_cancels p));
          closes = concat (map (\<lambda>c. case c of None \<Rightarrow> [] | Some r \<Rightarrow> [CloseConn (pc_conn (heap w r))]) (conns p))
      in (opt_cancel (ping_cancel p) @ pes @ ses @ closes,
          w\<lparr>cpool := (cpool w)\<lparr>ping_cancel := None\<rparr>\<rparr>))"

text \<open>The two atomic counters of a connection, written by its request goroutines and read loop.\<close>

definition streams_add :: "ref \<Rightarrow> go_int \<Rightarrow> pool_world \<Rightarrow> pool_world" where
  "streams_add r d w =
     w\<lparr>heap := (heap w)(r := (heap w r)\<lparr>pc_streams := wrap64 (pc_streams (heap w r) + d)\<rparr>)\<rparr>"

definition last_pong_store :: "ref \<Rightarrow> instant \<Rightarrow> pool_world \<Rightarrow> pool_world" where
  "last_pong_store r now w =
     w\<lparr>heap := (heap w)(r := (heap w r)\<lparr>pc_last_pong := unix_nano now\<rparr>)\<rparr>"

section \<open>Facts shared by the proofs\<close>

lemma fold_count: "fold (\<lambda>c n. if c \<noteq> None then n + 1 else n) cs (n::int)
    = n + int (length (filter (\<lambda>c. c \<noteq> None) cs))"
  by (induction cs arbitrary: n) auto

lemma active_count_eq: "active_count_locked p = int (length (filter (\<lambda>c. c \<noteq> None) (conns p)))"
  unfolding active_count_locked_def fold_count by simp

lemma active_count_zero_iff: "active_count_locked p = 0 \<longleftrightarrow> (\<forall>c \<in> set (conns p). c = None)"
  by (auto simp: active_count_eq filter_empty_conv)

lemma active_count_nonneg: "0 \<le> active_count_locked p"
  by (simp add: active_count_eq)

lemma active_count_cong: "conns p = conns q \<Longrightarrow> active_count_locked p = active_count_locked q"
  by (simp add: active_count_eq)

lemma take_ping_cancel_sel [simp]:
  "cpool (snd (take_ping_cancel r w)) = cpool w"
  "next_ref (snd (take_ping_cancel r w)) = next_ref w"
  "pc_index (heap (snd (take_ping_cancel r w)) q) = pc_index (heap w q)"
  "pc_streams (heap (snd (take_ping_cancel r w)) q) = pc_streams (heap w q)"
  "pc_conn (heap (snd (take_ping_cancel r w)) q) = pc_conn (heap w q)"
  by (simp_all add: take_ping_cancel_def split: option.split)

lemma take_ping_cancels_frame:
  "cpool (snd (take_ping_cancels cs w)) = cpool w
   \<and> next_ref (snd (take_ping_cancels cs w)) = next_ref w
   \<and> pc_index (heap (snd (take_ping_cancels cs w)) q) = pc_index (heap w q)
   \<and> pc_conn (heap (snd (take_ping_cancels cs w)) q) = pc_conn (heap w q)"
proof (induction cs arbitrary: w)
  case Nil
  show ?case by simp
next
  case (Cons c cs)
  show ?case by (cases c) (simp_all add: case_prod_beta Let_def Cons.IH)
qed

lemmas take_ping_cancels_sel [simp] =
  take_ping_cancels_frame [THEN conjunct1]
  take_ping_cancels_frame [THEN conjunct2, THEN conjunct1]
  take_ping_cancels_frame [THEN conjunct2, THEN conjunct2, THEN conjunct1]
  take_ping_cancels_frame [THEN conjunct2, THEN conjunct2, THEN conjunct2]

abbreviation clear_slots :: "nat list \<Rightarrow> 'a option list \<Rightarrow> 'a option list" where
  "clear_slots js cs \<equiv> fold (\<lambda>i cs. cs[i := None]) js cs"

lemma clear_slots_length [simp]: "length (clear_slots js cs) = length cs"
  by (induction js arbitrary: cs) auto

lemma clear_slots_nth:
  "j < length cs \<Longrightarrow> clear_slots js cs ! j = (if j \<in> set js then None else cs ! j)"
  by (induction js arbitrary: cs) (auto simp: nth_list_update)

lemma clear_slots_take:
  assumes "\<forall>i \<in> set js. n \<le> i"
  shows "take n (clear_slots js cs) = take n cs"
  using assms by (induction js arbitrary: cs) auto

lemma clear_vacant: "cs ! i = None \<Longrightarrow> cs[i := None] = cs"
  by (metis list_update_id)

lemma strip_slot_cpool [simp]:
  "cpool (snd (strip_slot i w)) = (cpool w)\<lparr>conns := (conns (cpool w))[i := None],
     slot_cancels := (slot_cancels (cpool w))[i := None]\<rparr>"
  by (simp add: strip_slot_def Let_def case_prod_beta clear_vacant split: option.split)

lemma strip_slot_sel [simp]:
  "next_ref (snd (strip_slot i w)) = next_ref w"
  "pc_index (heap (snd (strip_slot i w)) q) = pc_index (heap w q)"
  "pc_streams (heap (snd (strip_slot i w)) q) = pc_streams (heap w q)"
  "pc_conn (heap (snd (strip_slot i w)) q) = pc_conn (heap w q)"
  "fst (fst (strip_slot i w)) = (case conns (cpool w) ! i of None \<Rightarrow> [] | Some r \<Rightarrow> [r])"
  by (simp_all add: strip_slot_def Let_def case_prod_beta split: option.split)

lemma strip_slots_cpool [simp]:
  "cpool (snd (strip_slots js w)) = (cpool w)\<lparr>conns := clear_slots js (conns (cpool w)),
     slot_cancels := clear_slots js (slot_cancels (cpool w))\<rparr>"
  by (induction js arbitrary: w) (simp_all add: Let_def case_prod_beta)

lemma strip_slots_next_ref [simp]: "next_ref (snd (strip_slots js w)) = next_ref w"
  by (induction js arbitrary: w) (simp_all add: Let_def case_prod_beta)

lemma strip_slots_index [simp]: "pc_index (heap (snd (strip_slots js w)) q) = pc_index (heap w q)"
  by (induction js arbitrary: w) (simp_all add: Let_def case_prod_beta)

lemma strip_slots_streams [simp]: "pc_streams (heap (snd (strip_slots js w)) q) = pc_streams (heap w q)"
  by (induction js arbitrary: w) (simp_all add: Let_def case_prod_beta)

lemma strip_slots_conn [simp]: "pc_conn (heap (snd (strip_slots js w)) q) = pc_conn (heap w q)"
  by (induction js arbitrary: w) (simp_all add: Let_def case_prod_beta)

text \<open>The connections the loop collects: those of the slots it visits, in that order.\<close>

lemma strip_slots_removed:
  assumes "distinct js" and "\<forall>i \<in> set js. i < length (conns (cpool w))"
  shows "fst (fst (strip_slots js w))
    = concat (map (\<lambda>i. case conns (cpool w) ! i of None \<Rightarrow> [] | Some r \<Rightarrow> [r]) js)"
  using assms
proof (induction js arbitrary: w)
  case Nil
  then show ?case by simp
next
  case (Cons j js)
  let ?sel = "\<lambda>w i. case conns (cpool w) ! i of None \<Rightarrow> [] | Some r \<Rightarrow> [r]"
  have "fst (fst (strip_slots js (snd (strip_slot j w)))) = concat (map (?sel (snd (strip_slot j w))) js)"
    using Cons.prems by (intro Cons.IH) auto
  also have "map (?sel (snd (strip_slot j w))) js = map (?sel w) js"
    using Cons.prems(1) by (intro map_cong) (simp_all add: nth_update_outside [of j "set js"])
  finally show ?case by (simp add: Let_def case_prod_beta)
qed

section \<open>The invariant\<close>

text \<open>The pool as a map from slot numbers to connections, and its control slot.\<close>

definition slots :: "pool_world \<Rightarrow> go_int \<Rightarrow> ref option" where
  "slots w i = (if 0 \<le> i \<and> i < pool_len (cpool w) then conns (cpool w) ! nat i else None)"

definition control_of :: "pool_world \<Rightarrow> go_int option" where
  "control_of w =
     (if is_control_slot (control_index (cpool w)) (cpool w) then Some (control_index (cpool w)) else None)"

text \<open>
  The slices have the pool's size, which is between 1 and 32; the connection in a slot knows
  its slot's number; and while any slot is occupied, either the control slot is one of them or
  the pool has no control slot (index -1).
\<close>

definition pool_ok :: "pool_world \<Rightarrow> bool" where
  "pool_ok w \<longleftrightarrow>
     1 \<le> max_conns (cpool w) \<and> max_conns (cpool w) \<le> max_pool_connections \<and>
     pool_len (cpool w) = max_conns (cpool w) \<and>
     length (slot_cancels (cpool w)) = length (conns (cpool w)) \<and>
     (\<forall>i < length (conns (cpool w)). case conns (cpool w) ! i of
        None \<Rightarrow> True | Some r \<Rightarrow> pc_index (heap w r) = int i \<and> r < next_ref w) \<and>
     -1 \<le> control_index (cpool w) \<and> control_index (cpool w) < max_conns (cpool w) \<and>
     (control_index (cpool w) \<noteq> -1 \<longrightarrow> conns (cpool w) ! nat (control_index (cpool w)) = None \<longrightarrow>
        active_count_locked (cpool w) = 0)"

definition idle_conn :: "(ref \<Rightarrow> pool_conn) \<Rightarrow> ref option \<Rightarrow> bool" where
  "idle_conn h c \<longleftrightarrow> (case c of None \<Rightarrow> False | Some r \<Rightarrow> pc_streams (h r) = 0)"

lemma idle_conn_simps [simp]:
  "\<not> idle_conn h None" "idle_conn h (Some r) \<longleftrightarrow> pc_streams (h r) = 0"
  by (simp_all add: idle_conn_def)

lemma find_idle_spec:
  "find_idle h cs i = (case find_index (idle_conn h) cs of None \<Rightarrow> -1 | Some k \<Rightarrow> i + int k)"
  by (induction h cs i rule: find_idle.induct) (auto split: option.split)

lemma first_active_spec:
  "first_active cs i = (case find_index (\<lambda>c. c \<noteq> None) cs of
     None \<Rightarrow> None | Some k \<Rightarrow> Some (i + int k, the (cs ! k)))"
  by (induction cs i rule: first_active.induct) (auto split: option.split)

lemma pool_okI:
  assumes "1 \<le> max_conns (cpool w)" "max_conns (cpool w) \<le> max_pool_connections"
    "pool_len (cpool w) = max_conns (cpool w)"
    "length (slot_cancels (cpool w)) = length (conns (cpool w))"
    "\<And>i r. i < length (conns (cpool w)) \<Longrightarrow> conns (cpool w) ! i = Some r \<Longrightarrow>
       pc_index (heap w r) = int i \<and> r < next_ref w"
    "-1 \<le> control_index (cpool w)" "control_index (cpool w) < max_conns (cpool w)"
    "control_index (cpool w) \<noteq> -1 \<Longrightarrow> conns (cpool w) ! nat (control_index (cpool w)) = None \<Longrightarrow>
       active_count_locked (cpool w) = 0"
  shows "pool_ok w"
  using assms by (auto simp: pool_ok_def split: option.split)

lemma pool_okD:
  assumes "pool_ok w"
  shows "1 \<le> max_conns (cpool w)" "max_conns (cpool w) \<le> max_pool_connections"
    "pool_len (cpool w) = max_conns (cpool w)"
    "length (slot_cancels (cpool w)) = length (conns (cpool w))"
    "\<And>i r. i < length (conns (cpool w)) \<Longrightarrow> conns (cpool w) ! i = Some r \<Longrightarrow>
       pc_index (heap w r) = int i \<and> r < next_ref w"
    "-1 \<le> control_index (cpool w)" "control_index (cpool w) < max_conns (cpool w)"
    "control_index (cpool w) \<noteq> -1 \<Longrightarrow> conns (cpool w) ! nat (control_index (cpool w)) = None \<Longrightarrow>
       active_count_locked (cpool w) = 0"
  using assms by (force simp: pool_ok_def split: option.splits)+

lemma new_pool_ok:
  "maxc \<le> max_pool_connections \<Longrightarrow>
     pool_ok \<lparr>cpool = new_connection_pool srv sub sid maxc, heap = h, next_ref = r\<rparr>"
  by (rule pool_okI)
    (auto simp: new_connection_pool_def Let_def pool_len_def active_count_zero_iff max_pool_connections_def)

text \<open>The slot that Add makes the control slot, when it makes one.\<close>

definition control_missing :: "connection_pool \<Rightarrow> bool" where
  "control_missing p \<longleftrightarrow> control_index p < 0 \<or> control_index p \<ge> pool_len p
     \<or> conns p ! nat (control_index p) = None"

definition control_after_add :: "go_int \<Rightarrow> connection_pool \<Rightarrow> go_int" where
  "control_after_add i p =
     (if control_missing p \<and> active_count_locked p = 0 then i else control_index p)"

lemma pool_add_out:
  "i < 0 \<or> i \<ge> pool_len (cpool w) \<Longrightarrow> pool_add now i c w = ((None, False), w)"
  by (simp add: pool_add_def)

lemma pool_add_in:
  assumes "0 \<le> i" and "i < pool_len (cpool w)"
  shows "pool_add now i c w =
    ((Some (next_ref w), i = control_after_add i (cpool w)),
     w\<lparr>cpool := (cpool w)\<lparr>conns := (conns (cpool w))[nat i := Some (next_ref w)],
         control_index := control_after_add i (cpool w)\<rparr>,
       heap := (heap w)(next_ref w := \<lparr>pc_conn = c, pc_index = i, pc_streams = 0,
         pc_last_pong = unix_nano now, pc_ping_cancel = None\<rparr>),
       next_ref := Suc (next_ref w)\<rparr>)"
  using assms by (simp add: pool_add_def Let_def control_after_add_def control_missing_def)

lemma pool_okD_all_free:
  assumes "pool_ok w" and "control_index (cpool w) \<noteq> -1"
    and "conns (cpool w) ! nat (control_index (cpool w)) = None"
  shows "\<forall>c \<in> set (conns (cpool w)). c = None"
  using pool_okD(8) [OF assms] by (simp add: active_count_zero_iff)

lemma control_after_add_cases:
  assumes "pool_ok w"
  shows "control_after_add i (cpool w) = i \<and> (\<forall>c \<in> set (conns (cpool w)). c = None)
    \<or> control_after_add i (cpool w) = control_index (cpool w)
      \<and> (control_index (cpool w) = -1 \<or> conns (cpool w) ! nat (control_index (cpool w)) \<noteq> None)"
  using pool_okD(3,6,7) [OF assms] pool_okD_all_free [OF assms]
  by (auto simp: control_after_add_def control_missing_def active_count_zero_iff)

lemma pool_add_ok:
  assumes "pool_ok w"
  shows "pool_ok (snd (pool_add now i c w))"
proof (cases "i < 0 \<or> i \<ge> pool_len (cpool w)")
  case True
  then show ?thesis using assms by (simp add: pool_add_out)
next
  case False
  then have i: "0 \<le> i" "i < pool_len (cpool w)" and ni: "nat i < length (conns (cpool w))"
    by (auto simp: pool_len_def)
  note ok = pool_okD [OF assms]
  show ?thesis unfolding pool_add_in [OF i] snd_conv
  proof (rule pool_okI, goal_cases)
    case 3
    show ?case using ok(3) by (simp add: pool_len_def)
  next
    case (5 j r)
    then show ?case using ok(5) [of j r] i ni by (cases "j = nat i") auto
  next
    case 6
    show ?case using control_after_add_cases [OF assms, of i] ok(6) i by auto
  next
    case 7
    show ?case using control_after_add_cases [OF assms, of i] ok(3,7) i by auto
  next
    case 8
    then show ?case
      using control_after_add_cases [OF assms, of i] ni i
      by (cases "nat (control_after_add i (cpool w)) = nat i") auto
  qed (use ok(1,2,4) in simp_all)
qed

lemma slots_Some:
  "slots w i = Some r \<longleftrightarrow> 0 \<le> i \<and> i < pool_len (cpool w) \<and> conns (cpool w) ! nat i = Some r"
  by (auto simp: slots_def)

lemma idle_conn_cong:
  "(\<And>q. pc_streams (h q) = pc_streams (h' q)) \<Longrightarrow> idle_conn h = idle_conn h'"
  by (rule ext) (auto simp: idle_conn_def split: option.split)

text \<open>
  The slot that Remove promotes when the control connection goes: the first one left whose
  connection has no stream in flight.
\<close>

definition promotion :: "(ref \<Rightarrow> pool_conn) \<Rightarrow> ref option list \<Rightarrow> nat option" where
  "promotion h cs = find_index (idle_conn h) cs"

definition control_after_remove :: "go_int \<Rightarrow> pool_world \<Rightarrow> go_int" where
  "control_after_remove i w =
     (let cs = (conns (cpool w))[nat i := None]
      in if active_count_locked ((cpool w)\<lparr>conns := cs\<rparr>) = 0 then 0
         else if i \<noteq> control_index (cpool w) then control_index (cpool w)
         else case promotion (heap w) cs of None \<Rightarrow> -1 | Some k \<Rightarrow> int k)"

lemma pool_remove_free:
  assumes "slots w i = None"
  shows "pool_remove i w = ((active_count_locked (cpool w), None, False), [], w)"
  using assms by (auto simp: pool_remove_def slots_def split: if_splits)

lemma find_idle_promotion:
  "find_idle h cs 0 = (case promotion h cs of None \<Rightarrow> -1 | Some k \<Rightarrow> int k)"
  by (simp add: find_idle_spec promotion_def split: option.split)

lemma promotion_take_ping_cancel [simp]:
  "promotion (heap (snd (take_ping_cancel r w))) cs = promotion (heap w) cs"
  unfolding promotion_def by (simp add: idle_conn_cong [of "heap (snd (take_ping_cancel r w))" "heap w"])

lemma opt_take_ping_cancel_sel [simp]:
  "cpool (snd (case x of None \<Rightarrow> ([], w) | Some r \<Rightarrow> take_ping_cancel r w)) = cpool w"
  "next_ref (snd (case x of None \<Rightarrow> ([], w) | Some r \<Rightarrow> take_ping_cancel r w)) = next_ref w"
  "pc_index (heap (snd (case x of None \<Rightarrow> ([], w) | Some r \<Rightarrow> take_ping_cancel r w)) q) = pc_index (heap w q)"
  "pc_streams (heap (snd (case x of None \<Rightarrow> ([], w) | Some r \<Rightarrow> take_ping_cancel r w)) q) = pc_streams (heap w q)"
  "pc_conn (heap (snd (case x of None \<Rightarrow> ([], w) | Some r \<Rightarrow> take_ping_cancel r w)) q) = pc_conn (heap w q)"
  by (simp_all split: option.split)

lemma active_count_upd [simp]:
  "active_count_locked (p\<lparr>ping_cancel := x\<rparr>) = active_count_locked p"
  "active_count_locked (p\<lparr>control_index := y\<rparr>) = active_count_locked p"
  "active_count_locked (p\<lparr>slot_cancels := z\<rparr>) = active_count_locked p"
  "active_count_locked (p\<lparr>max_conns := m\<rparr>) = active_count_locked p"
  by (simp_all add: active_count_eq)

lemma promotion_none_left:
  "active_count_locked (p\<lparr>conns := cs\<rparr>) = 0 \<Longrightarrow> promotion h cs = None"
  by (auto simp: promotion_def find_index_None_iff active_count_zero_iff idle_conn_def split: option.split)

lemma pool_remove_occupied:
  assumes "slots w i = Some r"
  defines "cs \<equiv> (conns (cpool w))[nat i := None]"
  shows "fst (pool_remove i w) =
      (active_count_locked ((cpool w)\<lparr>conns := cs\<rparr>),
       (if i = control_index (cpool w) then Option.bind (promotion (heap w) cs) (\<lambda>k. cs ! k) else None),
       i = control_index (cpool w))
    \<and> cpool (snd (snd (pool_remove i w))) = (cpool w)\<lparr>conns := cs,
        ping_cancel := (if i = control_index (cpool w) then None else ping_cancel (cpool w)),
        control_index := control_after_remove i w\<rparr>"
proof -
  have r: "\<not> (i < 0 \<or> pool_len (cpool w) \<le> i)" "conns (cpool w) ! nat i = Some r"
    and len: "0 < length (conns (cpool w))"
    using assms(1) by (auto simp: slots_Some pool_len_def)
  note unfold = pool_remove_def Let_def case_prod_beta find_idle_promotion
    control_after_remove_def cs_def
  consider (none_left) "active_count_locked ((cpool w)\<lparr>conns := cs\<rparr>) = 0"
    | (data) "active_count_locked ((cpool w)\<lparr>conns := cs\<rparr>) \<noteq> 0" "i \<noteq> control_index (cpool w)"
    | (busy) "active_count_locked ((cpool w)\<lparr>conns := cs\<rparr>) \<noteq> 0" "i = control_index (cpool w)"
        "promotion (heap w) cs = None"
    | (idle) k where "active_count_locked ((cpool w)\<lparr>conns := cs\<rparr>) \<noteq> 0" "i = control_index (cpool w)"
        "promotion (heap w) cs = Some k"
    by blast
  then show ?thesis
  proof cases
    case none_left
    then show ?thesis using r len promotion_none_left [OF none_left]
      by (cases "i = control_index (cpool w)") (simp_all add: unfold pool_len_def)
  qed (use r in \<open>simp_all add: unfold\<close>)
qed

lemmas pool_remove_result = pool_remove_occupied [THEN conjunct1]
lemmas pool_remove_cpool = pool_remove_occupied [THEN conjunct2]

lemma pool_remove_sel [simp]:
  "next_ref (snd (snd (pool_remove i w))) = next_ref w"
  "pc_index (heap (snd (snd (pool_remove i w))) q) = pc_index (heap w q)"
  "pc_conn (heap (snd (snd (pool_remove i w))) q) = pc_conn (heap w q)"
  "pc_streams (heap (snd (snd (pool_remove i w))) q) = pc_streams (heap w q)"
  by (auto simp: pool_remove_def Let_def case_prod_beta split: option.split)

lemma promotion_Some:
  assumes "promotion h cs = Some k"
  shows "k < length cs \<and> (\<exists>r. cs ! k = Some r \<and> pc_streams (h r) = 0)"
  using find_index_Some [OF assms [unfolded promotion_def]]
  by (auto simp: idle_conn_def split: option.splits)

lemma pool_remove_ok:
  assumes "pool_ok w"
  shows "pool_ok (snd (snd (pool_remove i w)))"
proof (cases "slots w i")
  case None
  then show ?thesis using assms by (simp add: pool_remove_free)
next
  case (Some r)
  note ok = pool_okD [OF assms]
  let ?cs = "(conns (cpool w))[nat i := None]"
  have i: "0 \<le> i" "nat i < length (conns (cpool w))" "conns (cpool w) ! nat i = Some r"
    using Some by (auto simp: slots_Some pool_len_def)
  have ctl: "control_after_remove i w = 0 \<and> active_count_locked ((cpool w)\<lparr>conns := ?cs\<rparr>) = 0
      \<or> control_after_remove i w = control_index (cpool w) \<and> i \<noteq> control_index (cpool w)
      \<or> control_after_remove i w = -1
      \<or> (\<exists>k. control_after_remove i w = int k \<and> k < length ?cs \<and> ?cs ! k \<noteq> None)"
    by (auto simp: control_after_remove_def Let_def dest: promotion_Some split: option.split)
  show ?thesis
  proof (rule pool_okI, unfold pool_remove_cpool [OF Some], goal_cases)
    case 3
    show ?case using ok(3) by (simp add: pool_len_def)
  next
    case (5 j r')
    then show ?case using ok(5) [of j r'] i by (cases "j = nat i") auto
  next
    case 6
    show ?case using ctl ok(6) by auto
  next
    case 7
    show ?case using ctl ok(1,3,7) by (auto simp: pool_len_def)
  next
    case 8
    have "conns (cpool w) ! nat (control_index (cpool w)) \<noteq> None" if "control_index (cpool w) \<noteq> -1"
      using pool_okD_all_free [OF assms that] i by (metis nth_mem option.distinct(1))
    then have "?cs ! nat (control_index (cpool w)) \<noteq> None"
      if "control_index (cpool w) \<noteq> -1" "i \<noteq> control_index (cpool w)"
      using that i(1) ok(6) by (simp add: nat_eq_iff)
    with 8 show ?case using ctl by (elim disjE exE conjE) auto
  qed (use ok(1,2,4) in simp_all)
qed

text \<open>Where the control slot is after a shrink to \<open>n\<close> slots.\<close>

definition control_after_shrink :: "go_int \<Rightarrow> connection_pool \<Rightarrow> go_int" where
  "control_after_shrink n p =
     (if control_index p < n then control_index p
      else case find_index (\<lambda>c. c \<noteq> None) (take (nat n) (conns p)) of None \<Rightarrow> 0 | Some k \<Rightarrow> int k)"

lemma relocate_control_cpool [simp]:
  "cpool (snd (relocate_control n w)) = (cpool w)\<lparr>control_index := control_after_shrink n (cpool w),
     ping_cancel := (if control_index (cpool w) < n then ping_cancel (cpool w) else None)\<rparr>"
  by (simp add: relocate_control_def control_after_shrink_def Let_def case_prod_beta
      first_active_spec split: option.split)

lemma relocate_control_sel [simp]:
  "next_ref (snd (relocate_control n w)) = next_ref w"
  "pc_index (heap (snd (relocate_control n w)) q) = pc_index (heap w q)"
  "pc_streams (heap (snd (relocate_control n w)) q) = pc_streams (heap w q)"
  "pc_conn (heap (snd (relocate_control n w)) q) = pc_conn (heap w q)"
  by (simp_all add: relocate_control_def Let_def case_prod_beta split: option.split)

lemma relocate_control_promoted:
  "fst (fst (relocate_control n w)) = (if control_index (cpool w) < n then None
     else map_option (\<lambda>k. the (conns (cpool w) ! k)) (find_index (\<lambda>c. c \<noteq> None) (take (nat n) (conns (cpool w)))))"
  using find_index_SomeD(1) [of "\<lambda>c. c \<noteq> None" "take (nat n) (conns (cpool w))"]
  by (fastforce simp: relocate_control_def Let_def case_prod_beta first_active_spec split: option.split)

lemma clamp_max_range: "1 \<le> clamp_max n \<and> clamp_max n \<le> max_pool_connections"
  by (simp add: clamp_max_def Let_def max_pool_connections_def)

lemma clamp_max_id: "1 \<le> n \<Longrightarrow> n \<le> max_pool_connections \<Longrightarrow> clamp_max n = n"
  by (simp add: clamp_max_def Let_def)

lemma pool_resize_grow:
  "clamp_max n > max_conns (cpool w) \<Longrightarrow> pool_resize n w =
     ((max_conns (cpool w), clamp_max n, None), [], w\<lparr>cpool := grow_pool (clamp_max n) (cpool w)\<rparr>)"
  by (simp add: pool_resize_def Let_def)

lemma pool_resize_same:
  "clamp_max n = max_conns (cpool w) \<Longrightarrow>
     pool_resize n w = ((max_conns (cpool w), max_conns (cpool w), None), [], w)"
  by (simp add: pool_resize_def Let_def)

lemma pool_resize_shrink_cpool:
  assumes "clamp_max n < max_conns (cpool w)"
  shows "cpool (snd (snd (pool_resize n w))) = (cpool w)\<lparr>
     conns := take (nat (clamp_max n)) (conns (cpool w)),
     slot_cancels := take (nat (clamp_max n)) (slot_cancels (cpool w)),
     max_conns := clamp_max n,
     control_index := control_after_shrink (clamp_max n) (cpool w),
     ping_cancel := (if control_index (cpool w) < clamp_max n then ping_cancel (cpool w) else None)\<rparr>"
  using assms by (simp add: pool_resize_def Let_def case_prod_beta clear_slots_take)

lemma pool_resize_sel [simp]:
  "next_ref (snd (snd (pool_resize n w))) = next_ref w"
  "pc_index (heap (snd (snd (pool_resize n w))) q) = pc_index (heap w q)"
  "pc_streams (heap (snd (snd (pool_resize n w))) q) = pc_streams (heap w q)"
  "pc_conn (heap (snd (snd (pool_resize n w))) q) = pc_conn (heap w q)"
  by (simp_all add: pool_resize_def Let_def case_prod_beta)

lemma pool_resize_shrink_result:
  assumes "clamp_max n < max_conns (cpool w)"
  shows "fst (pool_resize n w) = (max_conns (cpool w), clamp_max n, fst (fst (relocate_control (clamp_max n) w)))"
  using assms by (simp add: pool_resize_def Let_def case_prod_beta)

lemma pool_resize_ok:
  assumes "pool_ok w"
  shows "pool_ok (snd (snd (pool_resize n w)))"
proof -
  note ok = pool_okD [OF assms]
  let ?n = "clamp_max n"
  have n: "1 \<le> ?n" "?n \<le> max_pool_connections" using clamp_max_range by auto
  consider (same) "?n = max_conns (cpool w)" | (grow) "?n > max_conns (cpool w)"
    | (shrink) "?n < max_conns (cpool w)" by linarith
  then show ?thesis
  proof cases
    case same
    then show ?thesis using assms by (simp add: pool_resize_same)
  next
    case grow
    have len: "length (conns (cpool w)) + nat (?n - max_conns (cpool w)) = nat ?n"
      using grow ok(1,3) by (simp add: pool_len_def)
    show ?thesis unfolding pool_resize_grow [OF grow] snd_conv
    proof (rule pool_okI, goal_cases)
      case 3
      show ?case using len n by (simp add: grow_pool_def Let_def pool_len_def)
    next
      case 4
      show ?case using ok(4) by (simp add: grow_pool_def Let_def)
    next
      case (5 i r)
      then show ?case using ok(5) [of i r]
        by (cases "i < length (conns (cpool w))") (auto simp: grow_pool_def Let_def nth_append)
    next
      case 7
      show ?case using ok(7) grow by (simp add: grow_pool_def Let_def)
    next
      case 8
      have "nat (control_index (cpool w)) < length (conns (cpool w))"
        using ok(1,3,7) by (simp add: pool_len_def)
      with 8 have "\<forall>c \<in> set (conns (cpool w)). c = None"
        using pool_okD_all_free [OF assms] by (simp add: grow_pool_def Let_def nth_append)
      then show ?case by (auto simp: active_count_zero_iff grow_pool_def Let_def)
    qed (use n ok(6) in \<open>simp_all add: grow_pool_def Let_def\<close>)
  next
    case shrink
    have len: "nat ?n < length (conns (cpool w))"
      using shrink ok(1,3) n by (simp add: pool_len_def)
    have ctl: "control_after_shrink ?n (cpool w) = control_index (cpool w) \<and> control_index (cpool w) < ?n
       \<or> control_after_shrink ?n (cpool w) = 0 \<and> (\<forall>c \<in> set (take (nat ?n) (conns (cpool w))). c = None)
       \<or> (\<exists>k. control_after_shrink ?n (cpool w) = int k \<and> k < nat ?n \<and> conns (cpool w) ! k \<noteq> None)"
      using len by (auto simp: control_after_shrink_def find_index_None_iff split: option.split
          dest!: find_index_Some)
    show ?thesis
    proof (rule pool_okI, unfold pool_resize_shrink_cpool [OF shrink], goal_cases)
      case 3
      show ?case using len n by (simp add: pool_len_def)
    next
      case (5 i r)
      then show ?case using ok(5) [of i r] by auto
    next
      case 6
      show ?case using ctl ok(6) by auto
    next
      case 7
      show ?case using ctl n by auto
    next
      case 8
      have low: "\<forall>c \<in> set (take (nat ?n) (conns (cpool w))). c = None"
        if "control_index (cpool w) \<noteq> -1" "conns (cpool w) ! nat (control_index (cpool w)) = None"
        using pool_okD_all_free [OF assms that] by (auto dest: in_set_takeD)
      have "nat (control_index (cpool w)) < nat ?n" if "control_index (cpool w) < ?n"
        using that n by simp
      with 8 ctl low show ?case
        by (elim disjE exE conjE) (simp_all add: active_count_zero_iff)
    qed (use n ok(4) in simp_all)
  qed
qed

end
