(* ===== verification/PoolSpec.thy ===== *)
theory PoolSpec
  imports Pool
begin

text \<open>
  What the connection pool promises: the effect of Add, Remove and Resize on the map from
  slots to connections and on the control slot, on every branch; the invariant over every
  sequence of calls; the bound on the drain after a shrink; and the interface of a pool that
  the session relies on, with its interpretation on the model of pool.go.
\<close>

section \<open>The pool as a map\<close>

definition pool_size :: "pool_world \<Rightarrow> go_int" where
  "pool_size w = max_conns (cpool w)"

lemma slots_update:
  assumes "0 \<le> i" "i < pool_len (cpool w)"
    and "conns (cpool w') = (conns (cpool w))[nat i := x]"
  shows "slots w' = (slots w)(i := x)"
  using assms by (auto simp: slots_def pool_len_def fun_eq_iff nat_eq_iff)

lemma control_of_alt:
  "control_of w = (if slots w (control_index (cpool w)) \<noteq> None then Some (control_index (cpool w)) else None)"
  by (auto simp: control_of_def is_control_slot_def slots_def)

lemma control_of_Some:
  "control_of w = Some i \<longleftrightarrow> control_index (cpool w) = i \<and> slots w i \<noteq> None"
  by (auto simp: control_of_alt)

lemma is_control_slot_iff: "is_control_slot i (cpool w) \<longleftrightarrow> control_of w = Some i"
  by (auto simp: control_of_Some is_control_slot_def slots_def)

lemma slots_empty_iff:
  "slots w = (\<lambda>_. None) \<longleftrightarrow> (\<forall>c \<in> set (conns (cpool w)). c = None)"
proof
  assume empty: "slots w = (\<lambda>_. None)"
  have "conns (cpool w) ! j = None" if "j < length (conns (cpool w))" for j
    using fun_cong [OF empty, of "int j"] that by (simp add: slots_def pool_len_def)
  then show "\<forall>c \<in> set (conns (cpool w)). c = None" by (metis in_set_conv_nth)
qed (auto simp: slots_def pool_len_def fun_eq_iff nat_less_iff)

lemma active_count_zero_slots: "active_count_locked (cpool w) = 0 \<longleftrightarrow> slots w = (\<lambda>_. None)"
  by (simp add: active_count_zero_iff slots_empty_iff)

lemma card_slots: "active_count_locked (cpool w) = int (card (dom (slots w)))"
proof -
  have "dom (slots w) = int ` {k. k < length (conns (cpool w)) \<and> conns (cpool w) ! k \<noteq> None}"
  proof (rule set_eqI)
    fix j
    show "j \<in> dom (slots w) \<longleftrightarrow> j \<in> int ` {k. k < length (conns (cpool w)) \<and> conns (cpool w) ! k \<noteq> None}"
      by (cases j) (auto simp: slots_def pool_len_def dom_def image_iff)
  qed
  then have "card (dom (slots w)) = card {k. k < length (conns (cpool w)) \<and> conns (cpool w) ! k \<noteq> None}"
    by (simp add: card_image inj_on_def)
  then show ?thesis by (simp add: active_count_eq length_filter_conv_card)
qed

lemma finite_slots: "finite (dom (slots w))"
  by (rule finite_subset [of _ "{0..pool_len (cpool w)}"]) (auto simp: slots_def split: if_splits)

lemma no_control_without_connections:
  "pool_ok w \<Longrightarrow> control_index (cpool w) \<noteq> -1 \<Longrightarrow> control_of w = None \<Longrightarrow> slots w = (\<lambda>_. None)"
  using pool_okD(3,6,7) [of w] pool_okD_all_free [of w]
  by (auto simp: control_of_alt slots_empty_iff slots_def split: if_splits)

lemma control_of_bounds: "pool_ok w \<Longrightarrow> control_of w = Some i \<Longrightarrow> 0 \<le> i \<and> i < pool_size w"
  using pool_okD(3) by (auto simp: control_of_Some slots_def pool_size_def split: if_splits)

section \<open>Add\<close>

lemma pool_add_slots:
  "pool_ok w \<Longrightarrow> 0 \<le> i \<Longrightarrow> i < pool_size w \<Longrightarrow>
     slots (snd (pool_add now i c w)) = (slots w)(i := Some (next_ref w))"
  using pool_okD(3) [of w]
  by (intro slots_update) (simp_all add: pool_add_in pool_size_def)

lemma pool_add_control:
  assumes "pool_ok w" and "0 \<le> i" and "i < pool_size w"
  shows "control_of (snd (pool_add now i c w)) =
    (if slots w = (\<lambda>_. None) then Some i else control_of w)"
proof -
  have len: "i < pool_len (cpool w)" using assms pool_okD(3) by (simp add: pool_size_def)
  have sl: "slots (snd (pool_add now i c w)) = (slots w)(i := Some (next_ref w))"
    using assms by (rule pool_add_slots)
  have ci: "control_index (cpool (snd (pool_add now i c w))) = control_after_add i (cpool w)"
    using pool_add_in [OF assms(2) len] by simp
  show ?thesis
  proof (cases "slots w = (\<lambda>_. None)")
    case True
    have "conns (cpool w) ! nat (control_index (cpool w)) = None" if "0 \<le> control_index (cpool w)"
    proof -
      have "nat (control_index (cpool w)) < length (conns (cpool w))"
        using pool_okD(3,7) [OF assms(1)] that by (simp add: pool_len_def)
      then show ?thesis using True slots_empty_iff [of w] nth_mem by blast
    qed
    with True have "control_missing (cpool w)" "active_count_locked (cpool w) = 0"
      by (auto simp: control_missing_def active_count_zero_slots)
    then show ?thesis using sl ci True by (simp add: control_of_alt control_after_add_def)
  next
    case False
    then have "control_after_add i (cpool w) = control_index (cpool w)"
      by (simp add: control_after_add_def active_count_zero_slots)
    with ci have ctl: "control_index (cpool (snd (pool_add now i c w))) = control_index (cpool w)"
      by simp
    show ?thesis
    proof (cases "control_of w")
      case None
      then have "control_index (cpool w) = -1"
        using no_control_without_connections [OF assms(1)] False by blast
      with ctl sl assms(2) None False show ?thesis
        by (simp add: control_of_alt slots_def)
    next
      case (Some j)
      then have "control_index (cpool w) = j" "slots w j \<noteq> None"
        by (simp_all add: control_of_Some)
      with ctl sl have "control_of (snd (pool_add now i c w)) = Some j"
        by (simp add: control_of_Some)
      with Some False show ?thesis by simp
    qed
  qed
qed

lemma pool_add_facts:
  assumes "pool_ok w"
  shows "if 0 \<le> i \<and> i < pool_size w then
      (\<exists>r w'. pool_add now i c w = ((Some r, control_of w' = Some i), w')
        \<and> slots w' = (slots w)(i \<mapsto> r) \<and> (\<forall>j. slots w j \<noteq> Some r)
        \<and> pc_conn (heap w' r) = c \<and> pc_index (heap w' r) = i
        \<and> pc_streams (heap w' r) = 0 \<and> pc_ping_cancel (heap w' r) = None
        \<and> control_of w' = (if slots w = Map.empty then Some i else control_of w))
    else pool_add now i c w = ((None, False), w)"
proof (cases "0 \<le> i \<and> i < pool_size w")
  case True
  then have i: "0 \<le> i" "i < pool_len (cpool w)" "i < pool_size w"
    using pool_okD(3) [OF assms] by (auto simp: pool_size_def)
  have fresh: "slots w j \<noteq> Some (next_ref w)" for j
    using pool_okD(5) [OF assms, of "nat j" "next_ref w"]
    by (auto simp: slots_def pool_len_def nat_less_iff)
  have sl: "slots (snd (pool_add now i c w)) = (slots w)(i := Some (next_ref w))"
    using assms i by (intro pool_add_slots)
  have flag: "fst (pool_add now i c w) = (Some (next_ref w), control_of (snd (pool_add now i c w)) = Some i)"
    using pool_add_in [OF i(1,2), of now c] sl by (auto simp: control_of_Some)
  show ?thesis
    using True pool_add_in [OF i(1,2), of now c] sl flag fresh pool_add_control [OF assms i(1,3), of now c]
    by (auto intro!: exI [of _ "next_ref w"] exI [of _ "snd (pool_add now i c w)"] simp: prod_eq_iff)
next
  case False
  then show ?thesis using pool_okD(3) [OF assms] by (auto simp: pool_size_def intro!: pool_add_out)
qed

text \<open>
  C4. Add into a slot of the pool puts a fresh connection with no streams and no ping cancel
  there and leaves the other slots alone; the first connection of an empty pool becomes the
  control connection, otherwise the control slot stays; the flag it returns says whether the
  slot is the control slot. Outside the pool nothing changes and no connection is returned.
\<close>

theorem pool_add_spec:
  assumes "pool_ok w"
  shows "if 0 \<le> i \<and> i < pool_size w then
      (\<exists>r w'. pool_add now i c w = ((Some r, control_of w' = Some i), w')
        \<and> slots w' = (slots w)(i \<mapsto> r) \<and> (\<forall>j. slots w j \<noteq> Some r)
        \<and> pc_conn (heap w' r) = c \<and> pc_index (heap w' r) = i
        \<and> pc_streams (heap w' r) = 0 \<and> pc_ping_cancel (heap w' r) = None
        \<and> control_of w' = (if slots w = Map.empty then Some i else control_of w))
    else pool_add now i c w = ((None, False), w)"
  using assms by (rule pool_add_facts)

definition empty_pool :: "go_int \<Rightarrow> pool_world" where
  "empty_pool n = \<lparr>cpool = new_connection_pool ''server'' ''sub'' ''sess'' n,
     heap = (\<lambda>_. \<lparr>pc_conn = 0, pc_index = 0, pc_streams = 0, pc_last_pong = 0, pc_ping_cancel = None\<rparr>),
     next_ref = 0\<rparr>"

lemma empty_pool_ok: "n \<le> max_pool_connections \<Longrightarrow> pool_ok (empty_pool n)"
  by (simp add: empty_pool_def new_pool_ok)

lemma empty_pool_size [simp]: "pool_size (empty_pool n) = max 1 n"
  by (simp add: empty_pool_def pool_size_def new_connection_pool_def Let_def)

lemma empty_pool_slots [simp]: "slots (empty_pool n) = (\<lambda>_. None)"
  by (simp add: slots_empty_iff empty_pool_def new_connection_pool_def Let_def)

theorem pool_add_spec_witness:
  "pool_ok (empty_pool 4)
   \<and> (\<exists>r w'. pool_add 9 2 7 (empty_pool 4) = ((Some r, control_of w' = Some 2), w')
        \<and> control_of w' = Some 2)
   \<and> pool_add 9 4 7 (empty_pool 4) = ((None, False), empty_pool 4)"
proof -
  have ok: "pool_ok (empty_pool 4)" by (rule empty_pool_ok) (simp add: max_pool_connections_def)
  show ?thesis
    using ok pool_add_spec [OF ok, of 2 9 7] pool_add_spec [OF ok, of 4 9 7] by auto
qed

section \<open>Remove\<close>

lemma pool_remove_slots:
  assumes "slots w i = Some r"
  shows "slots (snd (snd (pool_remove i w))) = (slots w)(i := None)"
  using assms by (intro slots_update) (auto simp: slots_Some pool_remove_cpool [OF assms])

lemma removed_conns:
  assumes "slots w i = Some r"
  defines "cs \<equiv> (conns (cpool w))[nat i := None]"
  shows "active_count_locked ((cpool w)\<lparr>conns := cs\<rparr>)
    = active_count_locked (cpool (snd (snd (pool_remove i w))))"
  by (simp add: pool_remove_cpool [OF assms(1)] cs_def)

lemma nth_removed:
  assumes "slots w i = Some r" and "k < length (conns (cpool w))"
  shows "(conns (cpool w))[nat i := None] ! k = ((slots w)(i := None)) (int k)"
proof (cases "k = nat i")
  case True
  with assms show ?thesis by (auto simp: slots_Some)
next
  case False
  with assms show ?thesis by (auto simp: slots_Some slots_def pool_len_def)
qed

text \<open>The slot that takes over: the first occupied one that is idle, if there is one.\<close>

lemma promotion_after_remove:
  assumes "slots w i = Some r"
  defines "cs \<equiv> (conns (cpool w))[nat i := None]" and "S \<equiv> (slots w)(i := None)"
  shows "case promotion (heap w) cs of
      None \<Rightarrow> \<forall>j q. S j = Some q \<longrightarrow> pc_streams (heap w q) \<noteq> 0
    | Some k \<Rightarrow> \<exists>q. cs ! k = Some q \<and> S (int k) = Some q \<and> pc_streams (heap w q) = 0
        \<and> (\<forall>j q'. S j = Some q' \<longrightarrow> j < int k \<longrightarrow> pc_streams (heap w q') \<noteq> 0)"
proof -
  have at: "cs ! k = S (int k)" if "k < length (conns (cpool w))" for k
    unfolding cs_def S_def using assms(1) that by (rule nth_removed)
  have inside: "0 \<le> j \<and> nat j < length (conns (cpool w))" if "S j = Some q" for j q
    using that by (auto simp: S_def slots_def pool_len_def split: if_splits)
  have len: "length cs = length (conns (cpool w))" by (simp add: cs_def)
  show ?thesis
  proof (cases "promotion (heap w) cs")
    case None
    have "pc_streams (heap w q) \<noteq> 0" if "S j = Some q" for j q
    proof -
      have "cs ! nat j = Some q" "nat j < length cs"
        using at [of "nat j"] inside [OF that] that len by auto
      then show ?thesis
        using None by (force simp: promotion_def find_index_None_iff dest: nth_mem)
    qed
    with None show ?thesis by simp
  next
    case (Some k)
    note found = find_index_SomeD [OF Some [unfolded promotion_def]]
    obtain q where q: "cs ! k = Some q" "pc_streams (heap w q) = 0"
      using found(2) by (auto simp: idle_conn_def split: option.splits)
    have "pc_streams (heap w q') \<noteq> 0" if "S j = Some q'" "j < int k" for j q'
    proof -
      have "cs ! nat j = Some q'" "nat j < k"
        using at [of "nat j"] inside [OF that(1)] that by auto
      then show ?thesis using found(3) by force
    qed
    with Some q at found(1) len show ?thesis by auto
  qed
qed

lemma pool_remove_facts:
  assumes "pool_ok w" and "slots w i = Some r"
  shows "let ((remaining, promoted, lost), eff, w') = pool_remove i w in
      slots w' = (slots w)(i := None) \<and> pool_size w' = pool_size w
      \<and> remaining = int (card (dom (slots w')))
      \<and> (lost \<longleftrightarrow> control_of w = Some i)
      \<and> (\<not> lost \<longrightarrow> promoted = None \<and> control_of w' = control_of w)
      \<and> (lost \<longrightarrow> (case promoted of
            None \<Rightarrow> control_of w' = None \<and> (\<forall>j q. slots w' j = Some q \<longrightarrow> pc_streams (heap w' q) \<noteq> 0)
          | Some q \<Rightarrow> \<exists>k. control_of w' = Some k \<and> slots w' k = Some q \<and> pc_streams (heap w' q) = 0
              \<and> (\<forall>j q'. slots w' j = Some q' \<longrightarrow> j < k \<longrightarrow> pc_streams (heap w' q') \<noteq> 0)))"
proof -
  let ?w' = "snd (snd (pool_remove i w))"
  let ?cs = "(conns (cpool w))[nat i := None]"
  have sl: "slots ?w' = (slots w)(i := None)" using assms(2) by (rule pool_remove_slots)
  have count: "active_count_locked ((cpool w)\<lparr>conns := ?cs\<rparr>) = int (card (dom (slots ?w')))"
    unfolding removed_conns [OF assms(2)] by (rule card_slots)
  have res: "fst (pool_remove i w) = (int (card (dom (slots ?w'))),
      (if i = control_index (cpool w) then Option.bind (promotion (heap w) ?cs) (\<lambda>k. ?cs ! k) else None),
      i = control_index (cpool w))"
    unfolding pool_remove_result [OF assms(2)] count by simp
  have lost: "i = control_index (cpool w) \<longleftrightarrow> control_of w = Some i"
    using assms(2) by (auto simp: control_of_Some)
  have ctl: "control_index (cpool ?w') =
      (if slots ?w' = (\<lambda>_. None) then 0 else if i \<noteq> control_index (cpool w) then control_index (cpool w)
       else case promotion (heap w) ?cs of None \<Rightarrow> -1 | Some k \<Rightarrow> int k)"
    unfolding active_count_zero_slots [symmetric] removed_conns [OF assms(2), symmetric]
    by (simp add: pool_remove_cpool [OF assms(2)] control_after_remove_def Let_def)
  have size: "pool_size ?w' = pool_size w" by (simp add: pool_size_def pool_remove_cpool [OF assms(2)])
  have data: "control_of ?w' = control_of w" if "i \<noteq> control_index (cpool w)"
    using that sl ctl by (auto simp: control_of_alt fun_eq_iff split: if_splits)
  note next_up = promotion_after_remove [OF assms(2)]
  have ctl_lost: "control_of ?w' = map_option int (promotion (heap w) ?cs)" if "i = control_index (cpool w)"
  proof (cases "promotion (heap w) ?cs")
    case None
    show ?thesis
    proof (cases "slots ?w' = (\<lambda>_. None)")
      case True
      then show ?thesis by (simp add: control_of_alt None)
    next
      case False
      with ctl None that have "control_index (cpool ?w') = -1" by simp
      then show ?thesis by (simp add: control_of_alt slots_def None)
    qed
  next
    case (Some k)
    then have "slots ?w' (int k) \<noteq> None" using next_up sl by auto
    then have "slots ?w' \<noteq> (\<lambda>_. None)" by auto
    with ctl Some that have "control_index (cpool ?w') = int k" by simp
    with Some \<open>slots ?w' (int k) \<noteq> None\<close> show ?thesis by (simp add: control_of_Some)
  qed
  obtain remaining promoted was_lost eff w' where rem: "pool_remove i w = ((remaining, promoted, was_lost), eff, w')"
    by (metis prod.exhaust)
  have streams: "pc_streams (heap w' q) = pc_streams (heap w q)" for q
    using pool_remove_sel(4) [of i w q] by (simp add: rem)
  note facts = sl size data ctl_lost res
  have w': "snd (snd (pool_remove i w)) = w'" by (simp add: rem)
  show ?thesis
  proof (cases "i = control_index (cpool w)")
    case True
    then have ci: "control_index (cpool w) = i" by simp
    show ?thesis
    proof (cases "promotion (heap w) ?cs")
      case None
      with facts [unfolded w'] lost next_up ci show ?thesis by (simp add: rem streams)
    next
      case (Some k)
      with next_up obtain q where "?cs ! k = Some q" "((slots w)(i := None)) (int k) = Some q"
        "pc_streams (heap w q) = 0"
        "\<forall>j q'. ((slots w)(i := None)) j = Some q' \<longrightarrow> j < int k \<longrightarrow> pc_streams (heap w q') \<noteq> 0"
        by auto
      with facts [unfolded w'] lost ci Some show ?thesis by (simp add: rem streams)
    qed
  next
    case False
    with facts [unfolded w'] lost show ?thesis by (simp add: rem)
  qed
qed

text \<open>
  C5. Remove of a slot that is empty or not one of the pool's changes nothing, cancels nothing and
  reports the connections there are. Remove of an occupied slot empties exactly that slot and
  reports how many connections remain and whether the control connection went. If it did and
  an idle connection is left, the one in the lowest slot becomes the control connection and is
  returned; if all that remain are busy, there is no control connection and none is returned.
  Removing a data connection moves nothing.
\<close>

theorem pool_remove_spec:
  assumes "pool_ok w"
  shows "let ((remaining, promoted, lost), eff, w') = pool_remove i w in
      remaining = int (card (dom (slots w'))) \<and>
      (case slots w i of
         None \<Rightarrow> w' = w \<and> eff = [] \<and> promoted = None \<and> \<not> lost
       | Some r \<Rightarrow>
           slots w' = (slots w)(i := None) \<and> pool_size w' = pool_size w
           \<and> (lost \<longleftrightarrow> control_of w = Some i)
           \<and> (\<not> lost \<longrightarrow> promoted = None \<and> control_of w' = control_of w)
           \<and> (lost \<longrightarrow> (case promoted of
                 None \<Rightarrow> control_of w' = None \<and> (\<forall>j q. slots w' j = Some q \<longrightarrow> pc_streams (heap w' q) \<noteq> 0)
               | Some q \<Rightarrow> \<exists>k. control_of w' = Some k \<and> slots w' k = Some q \<and> pc_streams (heap w' q) = 0
                   \<and> (\<forall>j q'. slots w' j = Some q' \<longrightarrow> j < k \<longrightarrow> pc_streams (heap w' q') \<noteq> 0))))"
proof (cases "slots w i")
  case None
  then show ?thesis by (simp add: pool_remove_free card_slots)
next
  case (Some r)
  then show ?thesis using pool_remove_facts [OF assms Some] by (simp add: Let_def case_prod_beta)
qed

text \<open>
  A pool of four slots for the witnesses: the control connection in slot 0, a busy connection
  in slot 1, an idle one in slot 2, slot 3 free.
\<close>

definition sample_conn :: "conn_id \<Rightarrow> go_int \<Rightarrow> go_int \<Rightarrow> pool_conn" where
  "sample_conn c i s = \<lparr>pc_conn = c, pc_index = i, pc_streams = s, pc_last_pong = 0, pc_ping_cancel = Some (nat i)\<rparr>"

definition sample_pool :: pool_world where
  "sample_pool = \<lparr>cpool = \<lparr>conns = [Some 0, Some 1, Some 2, None], slot_cancels = [Some 20, Some 21, Some 22, Some 23],
     session_id = ''sess'', subdomain = ''sub'', server = ''server'',
     max_conns = 4, control_index = 0, ping_cancel = Some 30\<rparr>,
     heap = (\<lambda>r. if r = 0 then sample_conn 10 0 0 else if r = 1 then sample_conn 11 1 1 else sample_conn 12 2 0),
     next_ref = 3\<rparr>"

lemma sample_pool_ok: "pool_ok sample_pool"
  by (rule pool_okI)
    (auto simp: sample_pool_def sample_conn_def pool_len_def max_pool_connections_def less_Suc_eq)

lemma sample_slots:
  "slots sample_pool i = (if i = 0 then Some 0 else if i = 1 then Some 1 else if i = 2 then Some 2 else None)"
proof (cases "0 \<le> i \<and> i < 4")
  case True
  then have "i \<in> {0, 1, 2, 3}" by auto
  then show ?thesis by (auto simp: sample_pool_def slots_def pool_len_def)
qed (auto simp: sample_pool_def slots_def pool_len_def)

theorem pool_remove_spec_witness:
  "slots (snd (snd (pool_remove 0 sample_pool))) = (slots sample_pool)(0 := None)
   \<and> control_of (snd (snd (pool_remove 0 sample_pool))) = Some 2"
proof -
  have r: "slots sample_pool 0 = Some 0" by (simp add: sample_slots)
  have "control_of (snd (snd (pool_remove 0 sample_pool))) = Some 2"
    by (simp add: control_of_def is_control_slot_def pool_remove_cpool [OF r] pool_len_def)
      (simp add: sample_pool_def sample_conn_def control_after_remove_def promotion_def active_count_eq)
  then show ?thesis
    using pool_remove_spec [OF sample_pool_ok, of 0] by (auto simp: Let_def case_prod_beta r)
qed

section \<open>Resize\<close>

lemma pool_resize_slots:
  assumes "pool_ok w"
  shows "slots (snd (snd (pool_resize n w))) j = (if j < clamp_max n then slots w j else None)
    \<and> pool_size (snd (snd (pool_resize n w))) = clamp_max n"
proof -
  note len = pool_okD(3) [OF assms]
  consider (same) "clamp_max n = max_conns (cpool w)" | (grow) "clamp_max n > max_conns (cpool w)"
    | (shrink) "clamp_max n < max_conns (cpool w)" by linarith
  then show ?thesis
  proof cases
    case same
    then show ?thesis using len by (auto simp: pool_resize_same slots_def pool_size_def)
  next
    case grow
    then show ?thesis using len
      by (auto simp: pool_resize_grow slots_def pool_size_def grow_pool_def Let_def pool_len_def nth_append)
  next
    case shrink
    then show ?thesis using len clamp_max_range [of n]
      by (auto simp: pool_resize_shrink_cpool slots_def pool_size_def pool_len_def)
  qed
qed

lemma pool_resize_control:
  assumes "pool_ok w"
  shows "control_of (snd (snd (pool_resize n w))) =
    (case control_of w of None \<Rightarrow> None
     | Some c \<Rightarrow> if c < clamp_max n then Some c
         else map_option int (find_index (\<lambda>c. c \<noteq> None) (take (nat (clamp_max n)) (conns (cpool w)))))"
proof -
  note ok = pool_okD [OF assms] and sl = pool_resize_slots [OF assms, THEN conjunct1, of n]
  let ?w' = "snd (snd (pool_resize n w))"
  show ?thesis
  proof (cases "control_of w")
    case None
    then have "control_index (cpool w) = -1 \<or> slots w = (\<lambda>_. None)"
      using no_control_without_connections [OF assms] by blast
    moreover have "control_index (cpool ?w') = -1" if "control_index (cpool w) = -1"
      using that clamp_max_range [of n] ok(6)
      by (cases "clamp_max n" "max_conns (cpool w)" rule: linorder_cases)
        (auto simp: pool_resize_same pool_resize_grow grow_pool_def Let_def pool_resize_shrink_cpool
          control_after_shrink_def)
    ultimately have "slots ?w' (control_index (cpool ?w')) = None"
      using sl by (elim disjE) (simp_all add: slots_def)
    then show ?thesis using None by (simp add: control_of_alt)
  next
    case (Some c)
    then have c: "control_index (cpool w) = c" "slots w c \<noteq> None" "0 \<le> c" "c < max_conns (cpool w)"
      using ok(3) by (auto simp: control_of_Some slots_def split: if_splits)
    show ?thesis
    proof (cases "c < clamp_max n")
      case True
      then have "control_index (cpool ?w') = c"
        using c(1) by (cases "clamp_max n" "max_conns (cpool w)" rule: linorder_cases)
          (auto simp: pool_resize_same pool_resize_grow grow_pool_def Let_def pool_resize_shrink_cpool
            control_after_shrink_def)
      then have "control_of ?w' = Some c" using sl c(2) True by (simp add: control_of_Some)
      then show ?thesis using Some True by simp
    next
      case False
      then have shrink: "clamp_max n < max_conns (cpool w)" using c(4) by linarith
      have ci: "control_index (cpool ?w') = control_after_shrink (clamp_max n) (cpool w)"
        using pool_resize_shrink_cpool [OF shrink] by simp
      show ?thesis
      proof (cases "find_index (\<lambda>c. c \<noteq> None) (take (nat (clamp_max n)) (conns (cpool w)))")
        case None
        then have "slots w j = None" if "j < clamp_max n" for j
          using that nth_mem [of "nat j" "take (nat (clamp_max n)) (conns (cpool w))"]
          by (auto simp: find_index_None_iff slots_def pool_len_def)
        then show ?thesis using sl None Some False by (simp add: control_of_alt)
      next
        case found: (Some k)
        note k = find_index_SomeD(1,2) [OF found]
        have "slots w (int k) \<noteq> None" "int k < clamp_max n"
          using k by (auto simp: slots_def pool_len_def)
        then have "control_of ?w' = Some (int k)"
          using sl found ci c(1) False by (simp add: control_of_Some control_after_shrink_def)
        then show ?thesis using Some False found by simp
      qed
    qed
  qed
qed

text \<open>What the loop over the slots that go away collects, when no connection is in two slots.\<close>

definition slot_ping_cancel :: "pool_world \<Rightarrow> nat \<Rightarrow> pool_effect list" where
  "slot_ping_cancel w i =
     (case conns (cpool w) ! i of None \<Rightarrow> [] | Some r \<Rightarrow> opt_cancel (pc_ping_cancel (heap w r)))"

lemma strip_slot_effects [simp]:
  "fst (snd (fst (strip_slot i w))) = slot_ping_cancel w i"
  "snd (snd (fst (strip_slot i w))) = opt_cancel (slot_cancels (cpool w) ! i)"
  by (simp_all add: strip_slot_def slot_ping_cancel_def take_ping_cancel_def Let_def case_prod_beta
      split: option.split)

lemma strip_slots_slot_cancels:
  assumes "distinct js"
  shows "snd (snd (fst (strip_slots js w))) = concat (map (\<lambda>i. opt_cancel (slot_cancels (cpool w) ! i)) js)"
  using assms
proof (induction js arbitrary: w)
  case (Cons j js)
  have "concat (map (\<lambda>i. opt_cancel ((slot_cancels (cpool w))[j := None] ! i)) js)
      = concat (map (\<lambda>i. opt_cancel (slot_cancels (cpool w) ! i)) js)"
    using Cons.prems by (intro arg_cong [of _ _ concat] map_cong) (simp_all add: nth_update_outside [of j "set js"])
  moreover have "snd (snd (fst (strip_slots js (snd (strip_slot j w)))))
      = concat (map (\<lambda>i. opt_cancel ((slot_cancels (cpool w))[j := None] ! i)) js)"
    using Cons.prems by (simp add: Cons.IH)
  ultimately show ?case by (simp add: Let_def case_prod_beta)
qed simp

lemma strip_slot_heap_other:
  assumes "\<And>q. conns (cpool w) ! j = Some q \<Longrightarrow> q \<noteq> r"
  shows "heap (snd (strip_slot j w)) r = heap w r"
  using assms by (auto simp: strip_slot_def take_ping_cancel_def Let_def case_prod_beta split: option.split)

lemma strip_slots_ping_cancels:
  assumes "distinct js"
    and "\<And>i j r. i \<in> set js \<Longrightarrow> j \<in> set js \<Longrightarrow> conns (cpool w) ! i = Some r \<Longrightarrow>
          conns (cpool w) ! j = Some r \<Longrightarrow> i = j"
  shows "fst (snd (fst (strip_slots js w))) = concat (map (slot_ping_cancel w) js)"
  using assms
proof (induction js arbitrary: w)
  case Nil
  then show ?case by simp
next
  case (Cons j js)
  let ?w1 = "snd (strip_slot j w)"
  have other: "conns (cpool ?w1) ! i = conns (cpool w) ! i" if "i \<in> set js" for i
    using Cons.prems(1) that by (simp add: nth_update_outside [of j "set js"])
  have same: "slot_ping_cancel ?w1 i = slot_ping_cancel w i" if "i \<in> set js" for i
  proof (cases "conns (cpool w) ! i")
    case None
    then show ?thesis by (simp only: slot_ping_cancel_def other [OF that]) simp
  next
    case (Some r)
    have "heap ?w1 r = heap w r"
      using Cons.prems(1) Cons.prems(2) [of j i r] that Some by (intro strip_slot_heap_other) auto
    with Some show ?thesis by (simp only: slot_ping_cancel_def other [OF that]) simp
  qed
  have "concat (map (slot_ping_cancel ?w1) js) = concat (map (slot_ping_cancel w) js)"
    by (intro arg_cong [of _ _ concat] map_cong refl same)
  moreover have "fst (snd (fst (strip_slots js ?w1))) = concat (map (slot_ping_cancel ?w1) js)"
  proof (rule Cons.IH)
    show "distinct js" using Cons.prems(1) by simp
    show "i = k" if "i \<in> set js" "k \<in> set js" "conns (cpool ?w1) ! i = Some r"
      "conns (cpool ?w1) ! k = Some r" for i k r
    proof (rule Cons.prems(2) [of i k r])
      show "i \<in> set (j # js)" "k \<in> set (j # js)" using that(1,2) by simp_all
      show "conns (cpool w) ! i = Some r" "conns (cpool w) ! k = Some r"
        using that(3,4) unfolding other [OF that(1)] other [OF that(2)] by simp_all
    qed
  qed
  ultimately show ?case by (simp add: Let_def case_prod_beta)
qed

lemma slots_inj: "pool_ok w \<Longrightarrow> slots w i = Some r \<Longrightarrow> slots w j = Some r \<Longrightarrow> i = j"
  using pool_okD(5) [of w "nat i" r] pool_okD(5) [of w "nat j" r]
  by (auto simp: slots_Some pool_len_def nat_less_iff)

text \<open>The slots from \<open>n\<close> up, highest first, and the connections in them.\<close>

definition slots_above :: "go_int \<Rightarrow> pool_world \<Rightarrow> nat list" where
  "slots_above n w = rev [nat n..<nat (pool_size w)]"

definition conns_in :: "nat list \<Rightarrow> pool_world \<Rightarrow> ref list" where
  "conns_in js w = concat (map (\<lambda>i. case conns (cpool w) ! i of None \<Rightarrow> [] | Some r \<Rightarrow> [r]) js)"

lemma relocate_control_conns [simp]: "conns (cpool (snd (relocate_control n w))) = conns (cpool w)"
  by simp

lemma relocate_ping_cancel_above:
  assumes "pool_ok w" and "j \<in> set (slots_above n w)" and "0 \<le> n"
  shows "slot_ping_cancel (snd (relocate_control n w)) j = slot_ping_cancel w j"
proof (cases "conns (cpool w) ! j")
  case None
  then show ?thesis by (simp add: slot_ping_cancel_def)
next
  case (Some r)
  have j: "n \<le> int j" "int j < pool_len (cpool w)"
    using assms pool_okD(1,3) [OF assms(1)] by (auto simp: slots_above_def pool_size_def)
  have "heap (snd (relocate_control n w)) r = heap w r"
  proof (cases "find_index (\<lambda>c. c \<noteq> None) (take (nat n) (conns (cpool w)))")
    case None
    then show ?thesis by (simp add: relocate_control_def first_active_spec Let_def case_prod_beta)
  next
    case found: (Some k)
    note k = find_index_SomeD(1,2) [OF found]
    have "the (conns (cpool w) ! k) \<noteq> r"
      using slots_inj [OF assms(1), of "int k" r "int j"] k j Some
      by (auto simp: slots_def pool_len_def)
    then show ?thesis using found k(1)
      by (auto simp: relocate_control_def first_active_spec take_ping_cancel_def Let_def case_prod_beta
          split: option.split)
  qed
  then show ?thesis by (simp add: slot_ping_cancel_def Some)
qed

lemma pool_resize_old_new:
  "fst (fst (pool_resize n w)) = pool_size w" "fst (snd (fst (pool_resize n w))) = clamp_max n"
  by (simp_all add: pool_resize_def Let_def case_prod_beta pool_size_def)

lemma pool_resize_promoted:
  "snd (snd (fst (pool_resize n w))) =
     (if clamp_max n < pool_size w then fst (fst (relocate_control (clamp_max n) w)) else None)"
  by (simp add: pool_resize_def Let_def case_prod_beta pool_size_def)

lemma first_occupied_slot:
  assumes "find_index (\<lambda>c. c \<noteq> None) (take m (conns (cpool w))) = Some k"
  shows "slots w (int k) = Some (the (conns (cpool w) ! k)) \<and> k < m \<and> (\<forall>j < int k. slots w j = None)"
proof -
  note k = find_index_SomeD [OF assms]
  have "slots w j = None" if "j < int k" for j
    using k(1) k(3) [of "nat j"] that by (auto simp: slots_def pool_len_def)
  with k show ?thesis by (auto simp: slots_def pool_len_def)
qed

lemma no_occupied_slot:
  assumes "find_index (\<lambda>c. c \<noteq> None) (take (nat n) (conns (cpool w))) = None" and "j < n"
  shows "slots w j = None"
  using assms nth_mem [of "nat j" "take (nat n) (conns (cpool w))"]
  by (auto simp: find_index_None_iff slots_def pool_len_def)

lemma pool_resize_facts:
  assumes "pool_ok w"
  shows "let ((old_max, new_max, promoted), eff, w') = pool_resize n w in
      old_max = pool_size w \<and> new_max = max 1 (min 32 n) \<and> pool_size w' = new_max
      \<and> (\<forall>j. slots w' j = (if j < new_max then slots w j else None))
      \<and> (\<forall>c. control_of w = Some c \<longrightarrow> c < new_max \<longrightarrow> control_of w' = Some c \<and> promoted = None)
      \<and> (\<forall>c. control_of w = Some c \<longrightarrow> new_max \<le> c \<longrightarrow>
           (case promoted of None \<Rightarrow> slots w' = Map.empty
            | Some q \<Rightarrow> \<exists>k. control_of w' = Some k \<and> slots w' k = Some q \<and> (\<forall>j < k. slots w' j = None)))"
proof -
  let ?n = "clamp_max n" and ?w' = "snd (snd (pool_resize n w))"
  have n: "?n = max 1 (min 32 n)" by (simp add: clamp_max_def Let_def max_pool_connections_def)
  note sl = pool_resize_slots [OF assms, of n, THEN conjunct1]
    and size = pool_resize_slots [OF assms, of n, THEN conjunct2]
    and ctl = pool_resize_control [OF assms, of n]
  have below: "control_of ?w' = Some c \<and> snd (snd (fst (pool_resize n w))) = None"
    if "control_of w = Some c" "c < ?n" for c
    using ctl that by (simp add: pool_resize_promoted relocate_control_promoted control_of_Some)
  have above: "case snd (snd (fst (pool_resize n w))) of None \<Rightarrow> slots ?w' = Map.empty
      | Some q \<Rightarrow> \<exists>k. control_of ?w' = Some k \<and> slots ?w' k = Some q \<and> (\<forall>j < k. slots ?w' j = None)"
    if c: "control_of w = Some c" "?n \<le> c" for c
  proof -
    have shrink: "?n < pool_size w" using control_of_bounds [OF assms c(1)] c(2) by simp
    have ci: "\<not> control_index (cpool w) < ?n" using c by (simp add: control_of_Some)
    show ?thesis
    proof (cases "find_index (\<lambda>c. c \<noteq> None) (take (nat ?n) (conns (cpool w)))")
      case None
      then have "slots ?w' = Map.empty" using sl no_occupied_slot [OF None] by (auto simp: fun_eq_iff)
      then show ?thesis
        using shrink ci None by (simp add: pool_resize_promoted relocate_control_promoted)
    next
      case (Some k)
      then show ?thesis
        using shrink ci c ctl sl first_occupied_slot [OF Some]
        by (auto simp: pool_resize_promoted relocate_control_promoted)
    qed
  qed
  show ?thesis
    using sl size below above pool_resize_old_new [of n w] n by (simp add: Let_def case_prod_beta)
qed

text \<open>
  C6. Resize clamps the new size to 1..32, keeps exactly the connections of the slots below it,
  never moves the control slot while it is below it, and otherwise hands control to the lowest
  occupied slot that stays, returning its connection; only when no connection stays is there
  nothing to promote.
\<close>

theorem pool_resize_spec:
  assumes "pool_ok w"
  shows "let ((old_max, new_max, promoted), eff, w') = pool_resize n w in
      old_max = pool_size w \<and> new_max = max 1 (min 32 n) \<and> pool_size w' = new_max
      \<and> (\<forall>j. slots w' j = (if j < new_max then slots w j else None))
      \<and> (\<forall>c. control_of w = Some c \<longrightarrow> c < new_max \<longrightarrow> control_of w' = Some c \<and> promoted = None)
      \<and> (\<forall>c. control_of w = Some c \<longrightarrow> new_max \<le> c \<longrightarrow>
           (case promoted of None \<Rightarrow> slots w' = Map.empty
            | Some q \<Rightarrow> \<exists>k. control_of w' = Some k \<and> slots w' k = Some q \<and> (\<forall>j < k. slots w' j = None)))"
  using assms by (rule pool_resize_facts)

theorem pool_resize_spec_witness:
  "slots (snd (snd (pool_resize 2 sample_pool))) = (slots sample_pool)(2 := None)
   \<and> control_of (snd (snd (pool_resize 2 sample_pool))) = Some 0"
proof -
  have "control_of sample_pool = Some 0"
    by (simp add: control_of_Some sample_slots) (simp add: sample_pool_def)
  then show ?thesis
    using pool_resize_spec [OF sample_pool_ok, of 2]
    by (auto simp: Let_def case_prod_beta fun_eq_iff sample_slots)
qed

text \<open>
  A shrink cancels and closes exactly what goes away: the control ping loop and the data
  ping loop of the promoted connection when control moves, then the data ping loops and the
  slot contexts of the slots above the new size, highest first, and it hands exactly the
  connections of those slots to the draining goroutine. A resize that does not shrink has no
  such effect.
\<close>

lemma pool_resize_effects:
  assumes "pool_ok w"
  shows "fst (snd (pool_resize n w)) =
    (if pool_size w \<le> clamp_max n then []
     else (if clamp_max n \<le> control_index (cpool w)
             then opt_cancel (ping_cancel (cpool w))
               @ (case snd (snd (fst (pool_resize n w))) of None \<Rightarrow> []
                  | Some q \<Rightarrow> opt_cancel (pc_ping_cancel (heap w q)))
             else [])
       @ concat (map (slot_ping_cancel w) (slots_above (clamp_max n) w))
       @ concat (map (\<lambda>i. opt_cancel (slot_cancels (cpool w) ! i)) (slots_above (clamp_max n) w))
       @ [DrainAndClose (conns_in (slots_above (clamp_max n) w) w)])"
proof (cases "pool_size w \<le> clamp_max n")
  case True
  then show ?thesis by (auto simp: pool_resize_def Let_def pool_size_def)
next
  case False
  let ?n = "clamp_max n"
  let ?js = "slots_above ?n w" and ?w1 = "snd (relocate_control ?n w)"
  have n: "0 \<le> ?n" using clamp_max_range [of n] by simp
  have js: "distinct ?js" "\<forall>i \<in> set ?js. i < length (conns (cpool w))"
    using pool_okD(3) [OF assms] by (auto simp: slots_above_def pool_size_def pool_len_def)
  have inj: "i = j" if "i \<in> set ?js" "j \<in> set ?js" "conns (cpool w) ! i = Some r"
    "conns (cpool w) ! j = Some r" for i j r
    using slots_inj [OF assms, of "int i" r "int j"] js(2) that by (simp add: slots_def pool_len_def)
  have removed: "fst (fst (strip_slots ?js ?w1)) = conns_in ?js w"
    using strip_slots_removed [of ?js ?w1] js by (simp add: conns_in_def)
  have pings: "fst (snd (fst (strip_slots ?js ?w1))) = concat (map (slot_ping_cancel w) ?js)"
  proof -
    have "fst (snd (fst (strip_slots ?js ?w1))) = concat (map (slot_ping_cancel ?w1) ?js)"
      using js(1) inj by (intro strip_slots_ping_cancels) (auto simp: relocate_control_conns)
    also have "\<dots> = concat (map (slot_ping_cancel w) ?js)"
      by (intro arg_cong [of _ _ concat] map_cong refl relocate_ping_cancel_above [OF assms _ n])
    finally show ?thesis .
  qed
  have contexts: "snd (snd (fst (strip_slots ?js ?w1)))
      = concat (map (\<lambda>i. opt_cancel (slot_cancels (cpool w) ! i)) ?js)"
    using strip_slots_slot_cancels [OF js(1), of ?w1] by simp
  have moved: "fst (snd (fst (relocate_control ?n w))) @ snd (snd (fst (relocate_control ?n w))) =
      (if ?n \<le> control_index (cpool w)
       then opt_cancel (ping_cancel (cpool w)) @ (case fst (fst (relocate_control ?n w)) of None \<Rightarrow> []
            | Some q \<Rightarrow> opt_cancel (pc_ping_cancel (heap w q))) else [])"
    by (simp add: relocate_control_def take_ping_cancel_def Let_def case_prod_beta split: option.split)
  have loop: "rev [nat ?n..<nat (max_conns (cpool w))] = ?js"
    by (simp add: slots_above_def pool_size_def)
  from False have "?n < max_conns (cpool w)" by (simp add: pool_size_def)
  then have "fst (snd (pool_resize n w)) = fst (snd (fst (relocate_control ?n w)))
      @ snd (snd (fst (relocate_control ?n w))) @ fst (snd (fst (strip_slots ?js ?w1)))
      @ snd (snd (fst (strip_slots ?js ?w1))) @ [DrainAndClose (fst (fst (strip_slots ?js ?w1)))]"
    by (simp add: pool_resize_def Let_def case_prod_beta loop)
  with False moved removed pings contexts show ?thesis
    by (simp add: pool_resize_promoted flip: append_assoc)
qed

lemma pool_resize_effects_witness:
  "fst (snd (pool_resize 2 sample_pool)) =
     [CancelCall 2, CancelCall 23, CancelCall 22, DrainAndClose [2]]"
proof -
  have "slots_above 2 sample_pool = [3, 2]"
    by (simp add: slots_above_def pool_size_def sample_pool_def upt_rec)
  then show ?thesis
    unfolding pool_resize_effects [OF sample_pool_ok, of 2]
    by (simp add: clamp_max_def max_pool_connections_def)
      (simp add: pool_size_def sample_pool_def sample_conn_def slot_ping_cancel_def conns_in_def)
qed

section \<open>Every sequence of calls\<close>

datatype pool_event =
    PAdd instant go_int conn_id
  | PRemove go_int
  | PResize go_int
  | PSetPing go_int cancel_id
  | PSetSlot go_int cancel_id
  | PReplacePing cancel_id
  | PStreams ref go_int
  | PPong ref instant
  | PClose

fun pool_step :: "pool_event \<Rightarrow> pool_world \<Rightarrow> pool_world" where
  "pool_step (PAdd now i c) w = snd (pool_add now i c w)"
| "pool_step (PRemove i) w = snd (snd (pool_remove i w))"
| "pool_step (PResize n) w = snd (snd (pool_resize n w))"
| "pool_step (PSetPing i x) w = set_conn_ping_cancel i x w"
| "pool_step (PSetSlot i x) w = set_slot_cancel i x w"
| "pool_step (PReplacePing x) w = snd (replace_ping_loop x w)"
| "pool_step (PStreams r d) w = streams_add r d w"
| "pool_step (PPong r now) w = last_pong_store r now w"
| "pool_step PClose w = snd (pool_close w)"

text \<open>A step that leaves the slots and the control slot, and the connections' numbers, alone.\<close>

definition same_pool :: "pool_world \<Rightarrow> pool_world \<Rightarrow> bool" where
  "same_pool w w' \<longleftrightarrow> conns (cpool w') = conns (cpool w) \<and> max_conns (cpool w') = max_conns (cpool w)
     \<and> length (slot_cancels (cpool w')) = length (slot_cancels (cpool w))
     \<and> control_index (cpool w') = control_index (cpool w) \<and> next_ref w' = next_ref w
     \<and> (\<forall>q. pc_index (heap w' q) = pc_index (heap w q))"

lemma same_pool_ok: "same_pool w w' \<Longrightarrow> pool_ok w \<Longrightarrow> pool_ok w'"
  by (simp add: same_pool_def pool_ok_def pool_len_def active_count_eq cong: option.case_cong)

lemma same_pool_slots: "same_pool w w' \<Longrightarrow> slots w' = slots w"
  by (auto simp: same_pool_def slots_def pool_len_def fun_eq_iff)

lemma small_steps_same_pool:
  "same_pool w (set_conn_ping_cancel i x w)" "same_pool w (set_slot_cancel i x w)"
  "same_pool w (snd (replace_ping_loop x w))" "same_pool w (streams_add r d w)"
  "same_pool w (last_pong_store r now w)" "same_pool w (snd (pool_close w))"
  by (auto simp: same_pool_def set_conn_ping_cancel_def set_slot_cancel_def replace_ping_loop_def
      streams_add_def last_pong_store_def pool_close_def case_prod_beta Let_def split: option.split)

lemma pool_step_ok: "pool_ok w \<Longrightarrow> pool_ok (pool_step e w)"
  by (cases e) (auto intro: pool_add_ok pool_remove_ok pool_resize_ok same_pool_ok small_steps_same_pool)

text \<open>
  Remove reporting a lost control connection with connections left but none promoted is what
  ends a session; until then the pool has a control slot.
\<close>

definition control_abandoned :: "go_int \<Rightarrow> pool_world \<Rightarrow> bool" where
  "control_abandoned i w \<longleftrightarrow>
     (case fst (pool_remove i w) of (remaining, promoted, lost) \<Rightarrow> lost \<and> promoted = None \<and> 0 < remaining)"

fun survives :: "pool_event \<Rightarrow> pool_world \<Rightarrow> bool" where
  "survives (PRemove i) w \<longleftrightarrow> \<not> control_abandoned i w"
| "survives e w \<longleftrightarrow> True"

definition controlled :: "pool_world \<Rightarrow> bool" where
  "controlled w \<longleftrightarrow> pool_ok w \<and> (slots w \<noteq> Map.empty \<longrightarrow> control_of w \<noteq> None)"

lemma controlled_same_pool: "same_pool w w' \<Longrightarrow> controlled w \<Longrightarrow> controlled w'"
  using same_pool_ok same_pool_slots
  by (fastforce simp: controlled_def control_of_alt same_pool_def)

lemma controlled_add: "controlled w \<Longrightarrow> controlled (snd (pool_add now i c w))"
proof (cases "0 \<le> i \<and> i < pool_size w")
  case True
  assume w: "controlled w"
  then have "pool_ok w" by (simp add: controlled_def)
  with True w show ?thesis
    using pool_add_ok [of w now i c] pool_add_control [of w i now c] by (auto simp: controlled_def)
next
  case False
  assume w: "controlled w"
  then have "pool_ok w" by (simp add: controlled_def)
  then have "pool_add now i c w = ((None, False), w)"
    using pool_add_facts [of w i now c] False by (simp add: if_not_P)
  with w show ?thesis by simp
qed

lemma controlled_remove:
  assumes "controlled w" and "\<not> control_abandoned i w"
  shows "controlled (snd (snd (pool_remove i w)))"
proof (cases "slots w i")
  case None
  with assms(1) show ?thesis by (simp add: pool_remove_free)
next
  case (Some r)
  have ok: "pool_ok w" using assms(1) by (simp add: controlled_def)
  obtain rem promoted lost eff w' where R: "pool_remove i w = ((rem, promoted, lost), eff, w')"
    by (metis prod.exhaust)
  note spec = pool_remove_facts [OF ok Some, unfolded R, simplified]
  have "rem = int (card (dom (slots w')))" using spec by blast
  then have "0 < rem \<longleftrightarrow> slots w' \<noteq> Map.empty"
    by (simp add: card_gt_0_iff finite_slots)
  moreover have "lost \<Longrightarrow> promoted \<noteq> None \<or> \<not> 0 < rem"
    using assms(2) by (auto simp: control_abandoned_def R)
  ultimately have "slots w' \<noteq> Map.empty \<Longrightarrow> control_of w' \<noteq> None"
    using spec assms(1) Some by (cases lost) (auto simp: controlled_def split: option.splits)
  then show ?thesis
    using pool_remove_ok [OF ok, of i] R by (simp add: controlled_def)
qed

lemma controlled_resize:
  assumes "controlled w"
  shows "controlled (snd (snd (pool_resize n w)))"
proof -
  have ok: "pool_ok w" using assms by (simp add: controlled_def)
  obtain old new promoted eff w' where R: "pool_resize n w = ((old, new, promoted), eff, w')"
    by (metis prod.exhaust)
  note spec = pool_resize_facts [OF ok, of n, unfolded R, simplified]
  have "control_of w' \<noteq> None" if some_left: "slots w' \<noteq> Map.empty"
  proof -
    obtain j where "slots w' j \<noteq> None" using some_left by (auto simp: fun_eq_iff)
    then have "slots w j \<noteq> None" using spec by (auto split: if_splits)
    then have "slots w \<noteq> Map.empty" by auto
    then obtain c where c: "control_of w = Some c" using assms by (auto simp: controlled_def)
    show ?thesis
    proof (cases "c < new")
      case True
      then show ?thesis using spec c by auto
    next
      case False
      then show ?thesis using spec c some_left by (auto split: option.splits)
    qed
  qed
  then show ?thesis using pool_resize_ok [OF ok, of n] R by (simp add: controlled_def)
qed

lemma pool_step_controlled:
  "controlled w \<Longrightarrow> survives e w \<Longrightarrow> controlled (pool_step e w)"
  by (cases e) (auto intro: controlled_add controlled_remove controlled_resize
      controlled_same_pool small_steps_same_pool)

interpretation pool_calls: machine pool_step "\<lambda>_ _. True" pool_ok
  by unfold_locales (rule pool_step_ok)

interpretation live_pool: machine pool_step survives controlled
  by unfold_locales (rule pool_step_controlled)

text \<open>
  Whether the pool has been left without a control connection by a Remove and has had some
  connection ever since: such a pool is what makes maintainPoolSlot end the session.
\<close>

fun abandons :: "pool_event \<Rightarrow> pool_world \<Rightarrow> bool" where
  "abandons (PRemove i) w \<longleftrightarrow> control_abandoned i w"
| "abandons e w \<longleftrightarrow> False"

fun left_alone :: "pool_event list \<Rightarrow> pool_world \<Rightarrow> bool \<Rightarrow> bool" where
  "left_alone [] w b = b"
| "left_alone (e # es) w b =
     left_alone es (pool_step e w) (abandons e w \<or> b \<and> 0 < active_count (cpool (pool_step e w)))"

definition control_matches :: "bool \<Rightarrow> pool_world \<Rightarrow> bool" where
  "control_matches b w \<longleftrightarrow> pool_ok w \<and> (b \<longleftrightarrow> slots w \<noteq> Map.empty \<and> control_of w = None)"

lemma active_slots: "0 < active_count (cpool w) \<longleftrightarrow> slots w \<noteq> Map.empty"
  using active_count_zero_slots [of w] active_count_nonneg [of "cpool w"] by (auto simp: active_count_def)

lemma survives_abandons: "survives e w \<longleftrightarrow> \<not> abandons e w"
  by (cases e) auto

lemma abandoned_remove:
  assumes ok: "pool_ok w" and gone: "control_abandoned i w"
  shows "slots (snd (snd (pool_remove i w))) \<noteq> Map.empty \<and> control_of (snd (snd (pool_remove i w))) = None"
proof -
  obtain rem promoted lost eff w' where R: "pool_remove i w = ((rem, promoted, lost), eff, w')"
    by (metis prod.exhaust)
  have g: "lost" "promoted = None" "0 < rem" using gone by (simp_all add: control_abandoned_def R)
  show ?thesis
  proof (cases "slots w i")
    case None
    then show ?thesis using R g(1) by (simp add: pool_remove_free)
  next
    case (Some r)
    have spec: "rem = int (card (dom (slots w')))" "lost \<longrightarrow> (case promoted of None \<Rightarrow> control_of w' = None | Some q \<Rightarrow> True)"
      using pool_remove_facts [OF ok Some, unfolded R] by (auto split: option.splits)
    then have "slots w' \<noteq> Map.empty" using g(3) by auto
    then show ?thesis using spec(2) g by (simp add: R)
  qed
qed

lemma same_control: "same_pool w w' \<Longrightarrow> control_of w' = control_of w"
  using same_pool_slots [of w w'] by (simp add: control_of_alt same_pool_def)

text \<open>Only a pool that was empty gets a control connection back.\<close>

lemma uncontrolled_step:
  assumes ok: "pool_ok w" and some: "slots w \<noteq> Map.empty" and none: "control_of w = None"
  shows "control_of (pool_step e w) = None"
proof (cases e)
  case (PAdd now i c)
  then show ?thesis
    using pool_add_facts [OF ok, of i now c] some none by (auto split: if_splits)
next
  case (PRemove i)
  show ?thesis
  proof (cases "slots w i")
    case None
    then show ?thesis using none by (simp add: PRemove pool_remove_free)
  next
    case (Some r)
    obtain rem promoted lost eff w' where R: "pool_remove i w = ((rem, promoted, lost), eff, w')"
      by (metis prod.exhaust)
    have "\<not> lost" "\<not> lost \<longrightarrow> control_of w' = control_of w"
      using pool_remove_facts [OF ok Some, unfolded R] none by auto
    then show ?thesis using none by (simp add: PRemove R)
  qed
next
  case (PResize n)
  then show ?thesis using pool_resize_control [OF ok, of n] none by simp
qed (use none same_control small_steps_same_pool in \<open>simp; metis\<close>)+

lemma control_matches_step:
  assumes m: "control_matches b w"
  shows "control_matches (abandons e w \<or> b \<and> 0 < active_count (cpool (pool_step e w))) (pool_step e w)"
proof -
  have ok: "pool_ok w" and ok': "pool_ok (pool_step e w)"
    using m pool_step_ok by (simp_all add: control_matches_def)
  show ?thesis
  proof (cases "abandons e w")
    case True
    then obtain i where "e = PRemove i" "control_abandoned i w" by (cases e) auto
    then show ?thesis using abandoned_remove [OF ok] ok' by (simp add: control_matches_def True)
  next
    case False
    show ?thesis
    proof (cases b)
      case True
      then have "control_of (pool_step e w) = None"
        using m uncontrolled_step [OF ok] by (simp add: control_matches_def)
      then show ?thesis using ok' False True by (simp add: control_matches_def active_slots)
    next
      case b: False
      then have "controlled w" using m by (auto simp: control_matches_def controlled_def)
      then have "controlled (pool_step e w)"
        using pool_step_controlled False by (simp add: survives_abandons)
      then show ?thesis using False b by (auto simp: control_matches_def controlled_def)
    qed
  qed
qed

lemma control_matches_run: "control_matches b w \<Longrightarrow> control_matches (left_alone es w b) (run pool_step es w)"
  by (induction es arbitrary: b w) (simp_all add: control_matches_step del: disj_not1)

text \<open>
  C7. From a new pool, through every sequence of calls and counter updates: the pool keeps its
  invariant and never has two control slots; and a pool with active connections is without a
  control slot in exactly one case, when some Remove reported the control connection lost with
  none promoted and connections left, and the pool has not been empty since. In every other
  case exactly one slot is the control slot, and it is occupied.
\<close>

theorem pool_has_control_connection:
  assumes "maxc \<le> max_pool_connections"
    and "w0 = \<lparr>cpool = new_connection_pool srv sub sid maxc, heap = h, next_ref = r\<rparr>"
  shows "let p = cpool (run pool_step es w0) in
    pool_ok (run pool_step es w0)
    \<and> (\<forall>i j. is_control_slot i p \<longrightarrow> is_control_slot j p \<longrightarrow> i = j)
    \<and> (left_alone es w0 False \<longleftrightarrow> 0 < active_count p \<and> (\<nexists>i. is_control_slot i p))"
proof -
  have "slots w0 = Map.empty"
    using assms(2) by (simp add: slots_empty_iff new_connection_pool_def Let_def)
  then have "control_matches False w0" using assms new_pool_ok by (simp add: control_matches_def)
  then have "control_matches (left_alone es w0 False) (run pool_step es w0)" by (rule control_matches_run)
  then show ?thesis
    by (auto simp: control_matches_def active_slots is_control_slot_iff Let_def)
qed

text \<open>
  The first connection of two becomes the control connection and is lost while the other one is
  busy; when that one is lost, too, the next connection becomes the control connection.
\<close>

definition abandoning_calls :: "pool_event list" where
  "abandoning_calls = [PAdd 5 0 7, PAdd 6 1 8, PStreams 1 1, PRemove 0]"

definition recovering_calls :: "pool_event list" where
  "recovering_calls = abandoning_calls @ [PRemove 1, PAdd 7 1 9]"

lemma sample_calls_left_alone:
  "left_alone abandoning_calls (empty_pool 2) False" "\<not> left_alone recovering_calls (empty_pool 2) False"
  "0 < active_count (cpool (run pool_step recovering_calls (empty_pool 2)))"
  by code_simp+

theorem pool_has_control_connection_witness:
  "(\<nexists>i. is_control_slot i (cpool (run pool_step abandoning_calls (empty_pool 2))))
   \<and> (\<exists>i. is_control_slot i (cpool (run pool_step recovering_calls (empty_pool 2))))"
proof -
  have max: "2 \<le> max_pool_connections" by (simp add: max_pool_connections_def)
  note spec = pool_has_control_connection [OF max empty_pool_def]
  show ?thesis
    using spec [of abandoning_calls] spec [of recovering_calls] sample_calls_left_alone by (simp add: Let_def)
qed

section \<open>Draining\<close>

lemma drain_wait_spec:
  "t \<le> drain_wait n streams t \<and> drain_wait n streams t \<le> t + n
   \<and> (drain_wait n streams t < t + n \<longrightarrow> streams (drain_wait n streams t) = 0)
   \<and> (\<forall>u. t \<le> u \<and> u < drain_wait n streams t \<longrightarrow> streams u \<noteq> 0)"
proof (induction n streams t rule: drain_wait.induct)
  case (1 streams t)
  then show ?case by simp
next
  case (2 n streams t)
  show ?case
  proof (cases "streams t = 0")
    case True
    then show ?thesis by simp
  next
    case False
    note ih = "2.IH" [OF False]
    have "streams u \<noteq> 0" if "t \<le> u" "u < drain_wait n streams (Suc t)" for u
      using ih that False by (cases "u = t") auto
    with ih False show ?thesis by auto
  qed
qed

lemma drain_and_close_conns:
  "map snd (drain_and_close streams h rs t) = map (\<lambda>r. pc_conn (h r)) rs"
  by (induction rs arbitrary: t) (simp_all add: Let_def)

lemma drain_and_close_length [simp]: "length (drain_and_close streams h rs t) = length rs"
  by (induction rs arbitrary: t) (simp_all add: Let_def)

lemma drain_and_close_time:
  assumes "k < length rs"
  shows "t \<le> fst (drain_and_close streams h rs t ! k)
    \<and> fst (drain_and_close streams h rs t ! k) \<le> t + 50 * Suc k"
  using assms
proof (induction rs arbitrary: k t)
  case Nil
  then show ?case by simp
next
  case (Cons r rs)
  let ?u = "drain_wait 50 (\<lambda>t. streams t r) t"
  have u: "t \<le> ?u" "?u \<le> t + 50" using drain_wait_spec [of t 50 "\<lambda>t. streams t r"] by auto
  show ?case
  proof (cases k)
    case 0
    with u show ?thesis by (simp add: Let_def)
  next
    case (Suc j)
    then show ?thesis using Cons.IH [of j ?u] Cons.prems u by (simp add: Let_def)
  qed
qed

text \<open>
  The goroutine that drains removed connections closes every one of them, once, in order,
  whatever the stream counters do: the \<open>k\<close>-th of them no later than fifty polls of a tenth of
  a second for each connection up to it; and the first one no earlier than its streams end or
  its fifty polls are over.
\<close>

lemma drain_closes_every_connection:
  "map snd (drain_and_close streams h rs t) = map (\<lambda>r. pc_conn (h r)) rs
   \<and> (\<forall>k < length rs. fst (drain_and_close streams h rs t ! k) \<le> t + 50 * Suc k)
   \<and> (rs \<noteq> [] \<longrightarrow> (let u = fst (drain_and_close streams h rs t ! 0)
        in u = t + 50 \<or> streams u (hd rs) = 0))"
proof -
  have "let u = fst (drain_and_close streams h rs t ! 0) in u = t + 50 \<or> streams u (hd rs) = 0"
    if "rs \<noteq> []"
    using that drain_wait_spec [of t 50 "\<lambda>t. streams t (hd rs)"] by (cases rs) (auto simp: Let_def)
  then show ?thesis
    using drain_and_close_conns drain_and_close_time by blast
qed

lemma drain_closes_every_connection_witness:
  "map snd (drain_and_close (\<lambda>t r. if r = 1 \<and> t < 3 then 1 else 0) (heap sample_pool) [2, 1] 0) = [12, 11]
   \<and> fst (drain_and_close (\<lambda>t r. if r = 1 \<and> t < 3 then 1 else 0) (heap sample_pool) [2, 1] 0 ! 0) \<le> 50"
  using drain_closes_every_connection
      [of "\<lambda>t r. if r = 1 \<and> t < 3 then 1 else 0" "heap sample_pool" "[2, 1]" 0]
  by (auto simp: sample_pool_def sample_conn_def)

section \<open>Close\<close>

definition refs_of :: "ref option list \<Rightarrow> ref list" where
  "refs_of cs = concat (map (\<lambda>c. case c of None \<Rightarrow> [] | Some r \<Rightarrow> [r]) cs)"

lemma refs_of_simps [simp]:
  "refs_of [] = []" "refs_of (None # cs) = refs_of cs" "refs_of (Some r # cs) = r # refs_of cs"
  by (simp_all add: refs_of_def)

lemma set_refs_of: "r \<in> set (refs_of cs) \<longleftrightarrow> Some r \<in> set cs"
  by (auto simp: refs_of_def split: option.splits)

lemma take_ping_cancel_other: "q \<noteq> r \<Longrightarrow> heap (snd (take_ping_cancel r w)) q = heap w q"
  by (simp add: take_ping_cancel_def split: option.split)

lemma take_ping_cancel_result [simp]:
  "fst (take_ping_cancel r w) = opt_cancel (pc_ping_cancel (heap w r))"
  "pc_ping_cancel (heap (snd (take_ping_cancel r w)) r) = None"
  by (simp_all add: take_ping_cancel_def split: option.split)

lemma take_ping_cancels_effects:
  assumes "distinct (refs_of cs)"
  shows "fst (take_ping_cancels cs w) = concat (map (\<lambda>r. opt_cancel (pc_ping_cancel (heap w r))) (refs_of cs))"
  using assms
proof (induction cs arbitrary: w)
  case (Cons c cs)
  show ?case
  proof (cases c)
    case (Some r)
    have same: "heap (snd (take_ping_cancel r w)) q = heap w q" if "q \<in> set (refs_of cs)" for q
      using Cons.prems Some that by (intro take_ping_cancel_other) auto
    have "concat (map (\<lambda>q. opt_cancel (pc_ping_cancel (heap (snd (take_ping_cancel r w)) q))) (refs_of cs))
        = concat (map (\<lambda>q. opt_cancel (pc_ping_cancel (heap w q))) (refs_of cs))"
      by (intro arg_cong [of _ _ concat] map_cong refl) (simp add: same)
    with Cons Some show ?thesis by (simp add: Let_def case_prod_beta)
  qed (use Cons in simp)
qed simp

lemma take_ping_cancels_cleared:
  "r \<in> set (refs_of cs) \<Longrightarrow> pc_ping_cancel (heap (snd (take_ping_cancels cs w)) r) = None"
proof (induction cs arbitrary: w)
  case (Cons c cs)
  have keep: "pc_ping_cancel (heap v r) = None \<Longrightarrow>
      pc_ping_cancel (heap (snd (take_ping_cancels cs v)) r) = None" for v
  proof (induction cs arbitrary: v)
    case (Cons c cs)
    then show ?case
      by (cases c) (simp_all add: Let_def case_prod_beta take_ping_cancel_def split: option.split)
  qed simp
  show ?case
    using Cons keep by (cases c) (auto simp: Let_def case_prod_beta)
qed simp

lemma pool_refs_distinct: "pool_ok w \<Longrightarrow> distinct (refs_of (conns (cpool w)))"
proof -
  assume ok: "pool_ok w"
  have *: "distinct (refs_of cs)"
    if "\<And>i r. i < length cs \<Longrightarrow> cs ! i = Some r \<Longrightarrow> pc_index (heap w r) = k + int i" for cs k
    using that
  proof (induction cs arbitrary: k)
    case (Cons c cs)
    have tail: "pc_index (heap w r) = (k + 1) + int i" if "i < length cs" "cs ! i = Some r" for i r
      using Cons.prems [of "Suc i" r] that by simp
    have "r \<notin> set (refs_of cs)" if "c = Some r" for r
    proof
      assume "r \<in> set (refs_of cs)"
      then have "Some r \<in> set cs" by (simp add: set_refs_of)
      then obtain i where "i < length cs" "cs ! i = Some r" by (auto simp: in_set_conv_nth)
      then have "pc_index (heap w r) = (k + 1) + int i" by (rule tail)
      moreover have "pc_index (heap w r) = k" using Cons.prems [of 0 r] that by simp
      ultimately show False by simp
    qed
    with Cons.IH [of "k + 1"] tail show ?case by (cases c) auto
  qed simp
  show ?thesis using pool_okD(5) [OF ok] by (intro * [of _ 0]) auto
qed

text \<open>
  C8. Closing the pool stops the control ping loop, every data ping loop and every slot
  context, and closes the connection of every occupied slot, in slot order; afterwards no ping
  loop is left to cancel.
\<close>

theorem pool_close_releases_all:
  assumes "pool_ok w"
  shows "let rs = refs_of (conns (cpool w)); (eff, w') = pool_close w in
     eff = opt_cancel (ping_cancel (cpool w))
        @ concat (map (\<lambda>r. opt_cancel (pc_ping_cancel (heap w r))) rs)
        @ concat (map opt_cancel (slot_cancels (cpool w)))
        @ map (\<lambda>r. CloseConn (pc_conn (heap w r))) rs
     \<and> ping_cancel (cpool w') = None \<and> (\<forall>r \<in> set rs. pc_ping_cancel (heap w' r) = None)"
proof -
  have closes: "concat (map (\<lambda>c. case c of None \<Rightarrow> [] | Some r \<Rightarrow> [CloseConn (pc_conn (heap w r))]) cs)
      = map (\<lambda>r. CloseConn (pc_conn (heap w r))) (refs_of cs)" for cs
    by (induction cs) (auto split: option.split)
  show ?thesis
    using take_ping_cancels_effects [OF pool_refs_distinct [OF assms]] take_ping_cancels_cleared
    by (simp add: pool_close_def Let_def case_prod_beta closes)
qed

theorem pool_close_releases_all_witness:
  "fst (pool_close sample_pool) = [CancelCall 30, CancelCall 0, CancelCall 1, CancelCall 2,
     CancelCall 20, CancelCall 21, CancelCall 22, CancelCall 23, CloseConn 10, CloseConn 11, CloseConn 12]"
  using pool_close_releases_all [OF sample_pool_ok]
  by (simp add: Let_def case_prod_beta) (simp add: sample_pool_def sample_conn_def)

end
