(* ===== verification/GoStrings.thy ===== *)
theory GoStrings
  imports Prelude
begin

text \<open>
  The functions of Go's packages strings, strconv and net/textproto that the client calls, on
  byte strings: \<open>char list\<close>s whose characters are the bytes 0 to 255. Unicode is
  modelled where a non-ASCII rune can change an answer of the program: the white space that
  TrimSpace removes, and the runes whose lower case or case folding is an ASCII letter.
\<close>

section \<open>Bytes\<close>

abbreviation code :: "char \<Rightarrow> nat" where
  "code c \<equiv> of_char c"

definition is_lower :: "char \<Rightarrow> bool" where
  "is_lower c \<longleftrightarrow> 97 \<le> code c \<and> code c \<le> 122"

definition is_upper :: "char \<Rightarrow> bool" where
  "is_upper c \<longleftrightarrow> 65 \<le> code c \<and> code c \<le> 90"

definition is_digit :: "char \<Rightarrow> bool" where
  "is_digit c \<longleftrightarrow> 48 \<le> code c \<and> code c \<le> 57"

definition is_alnum :: "char \<Rightarrow> bool" where
  "is_alnum c \<longleftrightarrow> is_lower c \<or> is_upper c \<or> is_digit c"

definition lower_byte :: "char \<Rightarrow> char" where
  "lower_byte c = (if is_upper c then char_of (code c + 32) else c)"

definition upper_byte :: "char \<Rightarrow> char" where
  "upper_byte c = (if is_lower c then char_of (code c - 32) else c)"

lemmas byte_class_defs = is_lower_def is_upper_def is_digit_def is_alnum_def

section \<open>Trimming\<close>

text \<open>The UTF-8 encodings of the runes for which unicode.IsSpace holds.\<close>

definition space_runes :: "string list" where
  "space_runes = map (map char_of)
     [[9], [10], [11], [12], [13], [32 :: nat], [194, 133], [194, 160], [225, 154, 128],
      [226, 128, 128], [226, 128, 129], [226, 128, 130], [226, 128, 131], [226, 128, 132],
      [226, 128, 133], [226, 128, 134], [226, 128, 135], [226, 128, 136], [226, 128, 137],
      [226, 128, 138], [226, 128, 168], [226, 128, 169], [226, 128, 175], [226, 129, 159],
      [227, 128, 128]]"

definition prefix_of_some :: "string list \<Rightarrow> string \<Rightarrow> string option" where
  "prefix_of_some ps s = find (\<lambda>p. p \<noteq> [] \<and> prefix p s) ps"

lemma prefix_of_some_SomeD:
  "prefix_of_some ps s = Some p \<Longrightarrow> p \<in> set ps \<and> p \<noteq> [] \<and> prefix p s"
  by (auto simp: prefix_of_some_def find_Some_iff)

function strip_left :: "string list \<Rightarrow> string \<Rightarrow> string" where
  "strip_left ps s = (case prefix_of_some ps s of None \<Rightarrow> s | Some p \<Rightarrow> strip_left ps (drop (size p) s))"
  by pat_completeness auto
termination
  by (relation "measure (size \<circ> snd)")
    (auto dest!: prefix_of_some_SomeD simp: prefix_def)

declare strip_left.simps [simp del]

definition strip_right :: "string list \<Rightarrow> string \<Rightarrow> string" where
  "strip_right ps s = rev (strip_left (map rev ps) (rev s))"

definition trim_space :: "string \<Rightarrow> string" where
  "trim_space s = strip_right space_runes (strip_left space_runes s)"

text \<open>\<open>strings.Trim(s, "[]")\<close>.\<close>

definition trim_brackets :: "string \<Rightarrow> string" where
  "trim_brackets s = strip_right [''['', '']''] (strip_left [''['', '']''] s)"

lemma strip_left_done: "prefix_of_some ps (strip_left ps s) = None"
proof (induction ps s rule: strip_left.induct)
  case (1 ps s)
  then show ?case by (cases "prefix_of_some ps s") (simp_all add: strip_left.simps [of ps s])
qed

lemma strip_left_fix: "prefix_of_some ps s = None \<Longrightarrow> strip_left ps s = s"
  by (simp add: strip_left.simps)

lemma strip_left_suffix: "suffix (strip_left ps s) s"
proof (induction ps s rule: strip_left.induct)
  case (1 ps s)
  show ?case
  proof (cases "prefix_of_some ps s")
    case (Some p)
    then have "suffix (strip_left ps (drop (size p) s)) (drop (size p) s)" by (rule 1)
    then show ?thesis
      using Some by (simp add: strip_left.simps [of ps s] suffix_order.trans [OF _ suffix_drop])
  qed (simp add: strip_left_fix)
qed

lemma strip_right_prefix: "prefix (strip_right ps s) s"
  using strip_left_suffix [of "map rev ps" "rev s"]
  by (simp add: strip_right_def suffix_to_prefix)

lemma trim_space_done_right: "prefix_of_some (map rev space_runes) (rev (trim_space s)) = None"
  by (simp add: trim_space_def strip_right_def strip_left_done)

lemma prefix_of_some_prefix: "prefix_of_some ps s = None \<Longrightarrow> prefix s' s \<Longrightarrow> prefix_of_some ps s' = None"
  by (auto simp: prefix_of_some_def find_None_iff intro: prefix_order.trans)

lemma trim_space_done_left: "prefix_of_some space_runes (trim_space s) = None"
  by (rule prefix_of_some_prefix [OF strip_left_done [of space_runes s]])
    (simp add: trim_space_def strip_right_prefix)

lemma trim_space_idem [simp]: "trim_space (trim_space s) = trim_space s"
proof -
  let ?t = "trim_space s"
  have "strip_left space_runes ?t = ?t"
    by (rule strip_left_fix) (rule trim_space_done_left)
  moreover have "strip_right space_runes ?t = ?t"
    using trim_space_done_right [of s] by (simp add: strip_right_def strip_left_fix)
  ultimately show ?thesis by (simp add: trim_space_def [of ?t])
qed

lemma prefix_of_some_Nil [simp]: "prefix_of_some ps [] = None"
  by (auto simp: prefix_of_some_def find_None_iff)

lemma trim_space_Nil [simp]: "trim_space [] = []"
  by (simp add: trim_space_def strip_right_def strip_left_fix prefix_of_some_Nil)

text \<open>A text whose first and last bytes are visible ASCII is not trimmed.\<close>

definition visible :: "char \<Rightarrow> bool" where
  "visible c \<longleftrightarrow> 32 < code c \<and> code c < 128"

lemma space_rune_ends:
  "\<forall>p \<in> set space_runes. p \<noteq> [] \<and> \<not> visible (hd p) \<and> \<not> visible (last p)"
  by (simp add: space_runes_def visible_def)

lemma trim_space_visible:
  assumes "s = [] \<or> visible (hd s) \<and> visible (last s)"
  shows "trim_space s = s"
proof (cases "s = []")
  case False
  then have ends: "visible (hd s)" "visible (last s)" using assms by auto
  have "\<not> prefix p s" if "p \<in> set space_runes" for p
    using space_rune_ends that ends(1) by (auto simp: prefix_def)
  then have l: "strip_left space_runes s = s"
    by (intro strip_left_fix) (auto simp: prefix_of_some_def find_None_iff)
  have "\<not> prefix (rev p) (rev s)" if "p \<in> set space_runes" for p
  proof
    assume "prefix (rev p) (rev s)"
    then obtain t where "s = t @ p" by (auto simp: suffix_to_prefix [symmetric] suffix_def)
    then show False using space_rune_ends that ends(2) by auto
  qed
  then have "strip_left (map rev space_runes) (rev s) = rev s"
    by (intro strip_left_fix) (auto simp: prefix_of_some_def find_None_iff)
  then show ?thesis by (simp add: trim_space_def strip_right_def l)
qed simp

section \<open>Searching and cutting\<close>

fun contains :: "string \<Rightarrow> string \<Rightarrow> bool" where
  "contains s sub = (prefix sub s \<or> (case s of [] \<Rightarrow> False | c # t \<Rightarrow> contains t sub))"

declare contains.simps [simp del]

text \<open>\<open>strings.Cut\<close> at a single byte: what is before it, what is after, whether it was found.\<close>

fun cut :: "char \<Rightarrow> string \<Rightarrow> string \<times> string \<times> bool" where
  "cut c [] = ([], [], False)"
| "cut c (x # s) =
     (if x = c then ([], s, True)
      else (case cut c s of (before, after, found) \<Rightarrow> (x # before, after, found)))"

lemma cut_append: "cut c s = (before, after, found) \<Longrightarrow>
    s = before @ (if found then c # after else []) \<and> c \<notin> set before \<and> (\<not> found \<longrightarrow> after = [])"
  by (induction s arbitrary: before after found) (auto split: if_splits prod.splits)

lemma cut_size [termination_simp]: "cut c s = (before, after, True) \<Longrightarrow> size after < size s"
  by (frule cut_append) auto

definition index_byte :: "char \<Rightarrow> string \<Rightarrow> nat option" where
  "index_byte c s = find_index (\<lambda>x. x = c) s"

definition last_index_byte :: "char \<Rightarrow> string \<Rightarrow> nat option" where
  "last_index_byte c s = map_option (\<lambda>i. size s - 1 - i) (find_index (\<lambda>x. x = c) (rev s))"

lemma last_index_byte_None: "last_index_byte c s = None \<longleftrightarrow> c \<notin> set s"
  by (auto simp: last_index_byte_def find_index_None_iff)

lemma last_index_byte_Some:
  assumes "last_index_byte c s = Some i"
  shows "i < size s \<and> s ! i = c \<and> (\<forall>j. i < j \<and> j < size s \<longrightarrow> s ! j \<noteq> c)"
proof -
  obtain k where k: "find_index (\<lambda>x. x = c) (rev s) = Some k" and i: "i = size s - 1 - k"
    using assms by (auto simp: last_index_byte_def)
  note k' = find_index_Some [OF k]
  then have "s ! i = c" and lt: "i < size s" by (auto simp: i rev_nth)
  moreover have "s ! j \<noteq> c" if "i < j" "j < size s" for j
  proof -
    have "size s - Suc j < k" using that i k' by auto
    then have "rev s ! (size s - Suc j) \<noteq> c" using k' by blast
    then show ?thesis using that by (simp add: rev_nth)
  qed
  ultimately show ?thesis by blast
qed

fun split_byte :: "char \<Rightarrow> string \<Rightarrow> string list" where
  "split_byte c [] = [[]]"
| "split_byte c (x # s) =
     (if x = c then [] # split_byte c s
      else (case split_byte c s of [] \<Rightarrow> [[x]] | f # fs \<Rightarrow> (x # f) # fs))"

section \<open>Case\<close>

text \<open>
  \<open>strings.ToLower\<close> as far as ASCII results go: besides the ASCII capitals, U+0130 has
  the lower case i and U+212A the lower case k; every other rune stays outside ASCII.
\<close>

fun to_lower :: "string \<Rightarrow> string" where
  "to_lower [] = []"
| "to_lower (c # s) =
     (if code c = 196 \<and> s \<noteq> [] \<and> code (hd s) = 176 then CHR ''i'' # to_lower (tl s)
      else if code c = 226 \<and> 2 \<le> size s \<and> code (s ! 0) = 132 \<and> code (s ! 1) = 170
        then CHR ''k'' # to_lower (drop 2 s)
      else lower_byte c # to_lower s)"

text \<open>\<open>strings.EqualFold\<close> against an ASCII string: U+017F folds to s, U+212A to k.\<close>

fun fold_case :: "string \<Rightarrow> string" where
  "fold_case [] = []"
| "fold_case (c # s) =
     (if code c = 197 \<and> s \<noteq> [] \<and> code (hd s) = 191 then CHR ''s'' # fold_case (tl s)
      else if code c = 226 \<and> 2 \<le> size s \<and> code (s ! 0) = 132 \<and> code (s ! 1) = 170
        then CHR ''k'' # fold_case (drop 2 s)
      else lower_byte c # fold_case s)"

definition equal_fold_ascii :: "string \<Rightarrow> string \<Rightarrow> bool" where
  "equal_fold_ascii s ascii \<longleftrightarrow> fold_case s = map lower_byte ascii"

text \<open>\<open>http.CanonicalHeaderKey\<close>: a key with a byte that no header name may hold stays as it is.\<close>

definition token_byte :: "char \<Rightarrow> bool" where
  "token_byte c \<longleftrightarrow> is_alnum c \<or> c \<in> set ''!#$%&*+-.^_`|~'' \<or> code c = 39"

fun canonical_bytes :: "bool \<Rightarrow> string \<Rightarrow> string" where
  "canonical_bytes up [] = []"
| "canonical_bytes up (c # s) =
     (if up then upper_byte c else lower_byte c) # canonical_bytes (c = CHR ''-'') s"

definition canonical_header_key :: "string \<Rightarrow> string" where
  "canonical_header_key s = (if \<forall>c \<in> set s. token_byte c then canonical_bytes True s else s)"

section \<open>Numbers and booleans\<close>

definition digit_value :: "char \<Rightarrow> int" where
  "digit_value c = int (code c) - 48"

definition decimal :: "string \<Rightarrow> int" where
  "decimal s = fold (\<lambda>c n. n * 10 + digit_value c) s 0"

text \<open>\<open>strconv.Atoi\<close> on a 64-bit platform: a syntax or range error is \<open>None\<close>.\<close>

definition atoi :: "string \<Rightarrow> int option" where
  "atoi s =
     (let neg = (s \<noteq> [] \<and> hd s = CHR ''-'');
          ds = (if s \<noteq> [] \<and> (hd s = CHR ''-'' \<or> hd s = CHR ''+'') then tl s else s);
          v = (if neg then - decimal ds else decimal ds)
      in if ds \<noteq> [] \<and> (\<forall>c \<in> set ds. is_digit c) \<and> in_int64 v then Some v else None)"

definition parse_bool :: "string \<Rightarrow> bool option" where
  "parse_bool s =
     (if s \<in> set [''1'', ''t'', ''T'', ''true'', ''TRUE'', ''True''] then Some True
      else if s \<in> set [''0'', ''f'', ''F'', ''false'', ''FALSE'', ''False''] then Some False
      else None)"

lemma atoi_in_int64: "atoi s = Some v \<Longrightarrow> in_int64 v"
  by (auto simp: atoi_def Let_def split: if_splits)

text \<open>Decimal rendering (\<open>strconv.Itoa\<close>) of natural numbers.\<close>

fun itoa_nat :: "nat \<Rightarrow> string" where
  "itoa_nat n = (if n < 10 then [char_of (48 + n)] else itoa_nat (n div 10) @ [char_of (48 + n mod 10)])"

declare itoa_nat.simps [simp del]

definition itoa :: "int \<Rightarrow> string" where
  "itoa n = (if n < 0 then CHR ''-'' # itoa_nat (nat (- n)) else itoa_nat (nat n))"

end
