(* ===== verification/GoNet.thy ===== *)
theory GoNet
  imports GoStrings
begin

text \<open>
  The functions of Go's packages net and net/netip that the client calls: IP literals
  (netip.ParseAddr, net.ParseIP, IP.IsLoopback) and host-port pairs (net.SplitHostPort,
  net.JoinHostPort).
\<close>

section \<open>IP literals\<close>

datatype ip_addr = IPv4 "nat list" | IPv6 "nat list" string

definition hex_value :: "char \<Rightarrow> nat option" where
  "hex_value c =
     (if is_digit c then Some (code c - 48)
      else if 97 \<le> code c \<and> code c \<le> 102 then Some (code c - 87)
      else if 65 \<le> code c \<and> code c \<le> 70 then Some (code c - 55)
      else None)"

definition ipv4_octet :: "string \<Rightarrow> nat option" where
  "ipv4_octet s =
     (if s \<noteq> [] \<and> (\<forall>c \<in> set s. is_digit c) \<and> (size s = 1 \<or> hd s \<noteq> CHR ''0'') \<and> decimal s \<le> 255
      then Some (nat (decimal s)) else None)"

definition parse_ipv4_fields :: "string \<Rightarrow> nat list option" where
  "parse_ipv4_fields s =
     (let octets = List.map ipv4_octet (split_byte CHR ''.'' s)
      in if size octets = 4 \<and> None \<notin> set octets then Some (List.map the octets) else None)"

text \<open>
  The loop of parseIPv6 over the hexadecimal groups: the bytes so far, the position of the
  ellipsis, and the rest of the text. \<open>Inl\<close> is a syntax error.
\<close>

definition hex_run :: "string \<Rightarrow> string" where
  "hex_run s = takeWhile (\<lambda>c. hex_value c \<noteq> None) s"

definition hex_number :: "string \<Rightarrow> nat" where
  "hex_number s = fold (\<lambda>c n. 16 * n + the (hex_value c)) s 0"

fun ipv6_groups :: "nat \<Rightarrow> nat list \<Rightarrow> nat option \<Rightarrow> string \<Rightarrow> (nat list \<times> nat option \<times> string) option" where
  "ipv6_groups 0 ip ellipsis s = Some (ip, ellipsis, s)"
| "ipv6_groups (Suc n) ip ellipsis s =
     (if 16 \<le> size ip then Some (ip, ellipsis, s)
      else
        let digits = hex_run s; rest = drop (size digits) s
        in if digits = [] \<or> 4 < size digits then None
           else if rest \<noteq> [] \<and> hd rest = CHR ''.'' then
             (if ellipsis = None \<and> size ip \<noteq> 12 then None
              else if 16 < size ip + 4 then None
              else map_option (\<lambda>v4. (ip @ v4, ellipsis, [])) (parse_ipv4_fields s))
           else
             let ip' = ip @ [hex_number digits div 256, hex_number digits mod 256]
             in if rest = [] then Some (ip', ellipsis, [])
                else if hd rest \<noteq> CHR '':'' \<or> size rest = 1 then None
                else if rest ! 1 = CHR '':'' then
                  (if ellipsis \<noteq> None then None
                   else if size rest = 2 then Some (ip', Some (size ip'), [])
                   else ipv6_groups n ip' (Some (size ip')) (drop 2 rest))
                else ipv6_groups n ip' ellipsis (drop 1 rest))"

text \<open>Two bytes a round: eight rounds are enough for the sixteen bytes of an address.\<close>

lemma ipv6_groups_fuel: "16 \<le> size ip + 2 * n \<Longrightarrow> ipv6_groups (n + k) ip ellipsis s = ipv6_groups n ip ellipsis s"
proof (induction n arbitrary: ip ellipsis s)
  case 0
  then show ?case by (cases k) simp_all
next
  case (Suc n)
  then show ?case by (simp add: Let_def)
qed

definition expand_ellipsis :: "nat list \<Rightarrow> nat option \<Rightarrow> nat list option" where
  "expand_ellipsis ip ellipsis =
     (case ellipsis of
        None \<Rightarrow> if size ip < 16 then None else Some ip
      | Some e \<Rightarrow>
          if size ip < 16 then Some (take e ip @ replicate (16 - size ip) 0 @ drop e ip) else None)"

definition parse_ipv6 :: "string \<Rightarrow> ip_addr option" where
  "parse_ipv6 text =
     (case cut CHR ''%'' text of (s, zone, zoned) \<Rightarrow>
        if zoned \<and> zone = [] then None
        else if s = ''::'' then Some (IPv6 (replicate 16 0) zone)
        else
          let start = (if prefix ''::'' s then (Some 0, drop 2 s) else (None, s))
          in case ipv6_groups 8 [] (fst start) (snd start) of
               None \<Rightarrow> None
             | Some (ip, ellipsis, rest) \<Rightarrow>
                 if rest \<noteq> [] then None
                 else map_option (\<lambda>bytes. IPv6 bytes zone) (expand_ellipsis ip ellipsis))"

definition parse_addr :: "string \<Rightarrow> ip_addr option" where
  "parse_addr s =
     (case find (\<lambda>c. c \<in> set ''.:%'') s of
        None \<Rightarrow> None
      | Some c \<Rightarrow>
          if c = CHR ''.'' then map_option IPv4 (parse_ipv4_fields s)
          else if c = CHR '':'' then parse_ipv6 s
          else None)"

text \<open>\<open>net.ParseIP\<close>: the 16-byte form, no zone; and \<open>IP.IsLoopback\<close>.\<close>

definition v4_in_v6 :: "nat list" where
  "v4_in_v6 = replicate 10 0 @ [255, 255]"

definition parse_ip :: "string \<Rightarrow> nat list option" where
  "parse_ip s =
     (case parse_addr s of
        None \<Rightarrow> None
      | Some (IPv4 b) \<Rightarrow> Some (v4_in_v6 @ b)
      | Some (IPv6 b zone) \<Rightarrow> if zone = [] then Some b else None)"

definition ip_is_loopback :: "nat list \<Rightarrow> bool" where
  "ip_is_loopback ip =
     (if take 12 ip = v4_in_v6 then ip ! 12 = 127 else ip = replicate 15 0 @ [1])"

section \<open>Host and port\<close>

text \<open>
  \<open>net.SplitHostPort\<close>. The error texts are irrelevant to the client, which only tests
  for an error.
\<close>

definition split_host_port :: "string \<Rightarrow> (string \<times> string) option" where
  "split_host_port hp =
     (case last_index_byte CHR '':'' hp of
        None \<Rightarrow> None
      | Some i \<Rightarrow>
          if hd hp = CHR ''['' then
            (case index_byte CHR '']'' hp of
               None \<Rightarrow> None
             | Some e \<Rightarrow>
                 if Suc e = size hp \<or> Suc e \<noteq> i then None
                 else if CHR ''['' \<in> set (tl hp) \<or> CHR '']'' \<in> set (drop (Suc e) hp) then None
                 else Some (drop 1 (take e hp), drop (Suc i) hp))
          else
            if CHR '':'' \<in> set (take i hp) then None
            else if CHR ''['' \<in> set hp \<or> CHR '']'' \<in> set hp then None
            else Some (take i hp, drop (Suc i) hp))"

definition join_host_port :: "string \<Rightarrow> string \<Rightarrow> string" where
  "join_host_port host port =
     (if CHR '':'' \<in> set host then ''['' @ host @ '']:'' @ port else host @ '':'' @ port)"

lemma last_index_byte_unique:
  assumes "i < size s" and "s ! i = c" and "\<And>j. i < j \<Longrightarrow> j < size s \<Longrightarrow> s ! j \<noteq> c"
  shows "last_index_byte c s = Some i"
proof (cases "last_index_byte c s")
  case None
  then show ?thesis using assms(1,2) by (auto simp: last_index_byte_None)
next
  case (Some k)
  with last_index_byte_Some [OF this] assms show ?thesis
    by (metis linorder_neqE_nat)
qed

lemma last_index_byte_snoc: "c \<notin> set t \<Longrightarrow> last_index_byte c (s @ c # t) = Some (size s)"
  by (rule last_index_byte_unique) (auto simp: nth_append nth_Cons' split: if_splits)

lemma index_byte_first: "c \<notin> set s \<Longrightarrow> index_byte c (s @ c # t) = Some (size s)"
  unfolding index_byte_def by (induction s) auto

text \<open>Splitting undoes joining.\<close>

lemma split_join_host_port:
  assumes "set host \<inter> {CHR ''['', CHR '']''} = {}"
    and "set port \<inter> {CHR ''['', CHR '']'', CHR '':''} = {}"
  shows "split_host_port (join_host_port host port) = Some (host, port)"
proof (cases "CHR '':'' \<in> set host")
  case True
  let ?hp = "CHR ''['' # host @ CHR '']'' # CHR '':'' # port"
  have "last_index_byte CHR '':'' (''['' @ (host @ '']'') @ CHR '':'' # port) = Some (size host + 2)"
    using last_index_byte_snoc [of "CHR '':''" port "''['' @ (host @ '']'')"] assms(2) by simp
  moreover have "index_byte CHR '']'' ((''['' @ host) @ CHR '']'' # CHR '':'' # port) = Some (Suc (size host))"
    using index_byte_first [of "CHR '']''" "''['' @ host"] assms(1) by auto
  ultimately show ?thesis
    using True assms by (auto simp: split_host_port_def join_host_port_def)
next
  case False
  have "last_index_byte CHR '':'' (host @ CHR '':'' # port) = Some (size host)"
    using last_index_byte_snoc [of "CHR '':''" port host] assms(2) by auto
  moreover have "hd (host @ CHR '':'' # port) \<noteq> CHR ''[''"
    using assms(1) by (cases host) auto
  ultimately show ?thesis
    using False assms by (auto simp: split_host_port_def join_host_port_def)
qed

end
