(* ===== verification/GoUrl.thy ===== *)
theory GoUrl
  imports GoNet
begin

text \<open>
  Go's package net/url, as far as the client uses it: Parse, ResolveReference and String of
  the proxy's target resolution, and Values.Encode of the redirects. The library version is
  the one of the Dockerfile (Go 1.25.8). A parse error is \<open>None\<close>: the client never
  looks at which error it was.
\<close>

section \<open>Escaping\<close>

datatype encoding = EncodePath | EncodeHost | EncodeZone | EncodeUserPassword
  | EncodeQueryComponent | EncodeFragment

definition should_escape :: "encoding \<Rightarrow> char \<Rightarrow> bool" where
  "should_escape mode c =
     (if is_alnum c then False
      else if mode \<in> {EncodeHost, EncodeZone} \<and> (c \<in> set ''!$&()*+,;=:[]<>'' \<or> code c = 39 \<or> code c = 34)
        then False
      else if c \<in> set ''-_.~'' then False
      else if c \<in> set ''$&+,/:;=?@'' \<and> mode = EncodePath then c = CHR ''?''
      else if c \<in> set ''$&+,/:;=?@'' \<and> mode = EncodeUserPassword then c \<in> set ''@/?:''
      else if c \<in> set ''$&+,/:;=?@'' \<and> mode = EncodeFragment then False
      else if mode = EncodeFragment \<and> c \<in> set ''!()*'' then False
      else True)"

definition upper_hex :: "nat \<Rightarrow> char" where
  "upper_hex n = (if n < 10 then char_of (48 + n) else char_of (55 + n))"

definition escape_byte :: "encoding \<Rightarrow> char \<Rightarrow> string" where
  "escape_byte mode c =
     (if \<not> should_escape mode c then [c]
      else if c = CHR '' '' \<and> mode = EncodeQueryComponent then ''+''
      else [CHR ''%'', upper_hex (code c div 16), upper_hex (code c mod 16)])"

definition escape :: "encoding \<Rightarrow> string \<Rightarrow> string" where
  "escape mode s = concat (List.map (escape_byte mode) s)"

definition hex_byte :: "char \<Rightarrow> char \<Rightarrow> nat option" where
  "hex_byte a b =
     (case (hex_value a, hex_value b) of (Some x, Some y) \<Rightarrow> Some (16 * x + y) | _ \<Rightarrow> None)"

fun unescape :: "encoding \<Rightarrow> string \<Rightarrow> string option" where
  "unescape mode [] = Some []"
| "unescape mode (c # s) =
     (if c = CHR ''%'' then
        (case s of
           a # b # t \<Rightarrow>
             (case hex_byte a b of
                None \<Rightarrow> None
              | Some v \<Rightarrow>
                  if mode = EncodeHost \<and> v < 128 \<and> v \<noteq> 37 then None
                  else if mode = EncodeZone \<and> v \<noteq> 37 \<and> v \<noteq> 32 \<and> should_escape EncodeHost (char_of v)
                    then None
                  else map_option (\<lambda>r. char_of v # r) (unescape mode t))
         | _ \<Rightarrow> None)
      else if mode \<in> {EncodeHost, EncodeZone} \<and> code c < 128 \<and> should_escape mode c then None
      else map_option (\<lambda>r. (if c = CHR ''+'' \<and> mode = EncodeQueryComponent then CHR '' '' else c) # r)
             (unescape mode s))"

definition valid_encoded :: "encoding \<Rightarrow> string \<Rightarrow> bool" where
  "valid_encoded mode s \<longleftrightarrow>
     (\<forall>c \<in> set s. c \<in> set ''!$&()*+,;=:@[]%'' \<or> code c = 39 \<or> \<not> should_escape mode c)"

section \<open>The parsed URL\<close>

datatype userinfo = User string | UserPassword string string

record url =
  url_scheme :: string
  url_opaque :: string
  url_user :: "userinfo option"
  url_host :: string
  url_path :: string
  url_raw_path :: string
  omit_host :: bool
  force_query :: bool
  raw_query :: string
  fragment :: string
  raw_fragment :: string

definition empty_url :: url where
  "empty_url = \<lparr>url_scheme = [], url_opaque = [], url_user = None, url_host = [], url_path = [],
     url_raw_path = [], omit_host = False, force_query = False, raw_query = [], fragment = [],
     raw_fragment = []\<rparr>"

definition set_path :: "string \<Rightarrow> url \<Rightarrow> url option" where
  "set_path p u =
     map_option (\<lambda>path. u\<lparr>url_path := path,
                         url_raw_path := (if p = escape EncodePath path then [] else p)\<rparr>)
       (unescape EncodePath p)"

definition set_fragment :: "string \<Rightarrow> url \<Rightarrow> url option" where
  "set_fragment f u =
     map_option (\<lambda>frag. u\<lparr>fragment := frag,
                         raw_fragment := (if f = escape EncodeFragment frag then [] else f)\<rparr>)
       (unescape EncodeFragment f)"

definition escaped_path :: "url \<Rightarrow> string" where
  "escaped_path u =
     (if url_raw_path u \<noteq> [] \<and> valid_encoded EncodePath (url_raw_path u)
         \<and> unescape EncodePath (url_raw_path u) = Some (url_path u) then url_raw_path u
      else if url_path u = ''*'' then ''*''
      else escape EncodePath (url_path u))"

definition escaped_fragment :: "url \<Rightarrow> string" where
  "escaped_fragment u =
     (if raw_fragment u \<noteq> [] \<and> valid_encoded EncodeFragment (raw_fragment u)
         \<and> unescape EncodeFragment (raw_fragment u) = Some (fragment u) then raw_fragment u
      else escape EncodeFragment (fragment u))"

section \<open>Parsing\<close>

text \<open>
  getScheme: \<open>None\<close> for a missing scheme before a colon; otherwise the scheme (possibly
  empty) and the rest.
\<close>

definition get_scheme :: "string \<Rightarrow> (string \<times> string) option" where
  "get_scheme s =
     (let i = size (takeWhile (\<lambda>c. is_alnum c \<or> c \<in> set ''+-.'') s)
      in if s \<noteq> [] \<and> (is_digit (hd s) \<or> hd s \<in> set ''+-.'') then Some ([], s)
         else if i < size s \<and> s ! i = CHR '':'' then
           (if i = 0 then None else Some (take i s, drop (Suc i) s))
         else Some ([], s))"

definition valid_optional_port :: "string \<Rightarrow> bool" where
  "valid_optional_port s \<longleftrightarrow> s = [] \<or> hd s = CHR '':'' \<and> (\<forall>c \<in> set (tl s). is_digit c)"

definition valid_userinfo :: "string \<Rightarrow> bool" where
  "valid_userinfo s \<longleftrightarrow> (\<forall>c \<in> set s. is_alnum c \<or> c \<in> set ''-._:~!$&()*+,;=%@'' \<or> code c = 39)"

text \<open>The position of the first \<open>%25\<close>.\<close>

fun cut_zone :: "string \<Rightarrow> (string \<times> string) option" where
  "cut_zone [] = None"
| "cut_zone (c # s) =
     (if prefix ''%25'' (c # s) then Some ([], c # s)
      else map_option (\<lambda>(a, b). (c # a, b)) (cut_zone s))"

definition parse_bracketed_host :: "string \<Rightarrow> string option" where
  "parse_bracketed_host host =
     (case last_index_byte CHR '']'' host of
        None \<Rightarrow> None
      | Some e \<Rightarrow>
          if \<not> valid_optional_port (drop (Suc e) host) then None
          else
            let name = drop 1 (take e host);
                unescaped =
                  (case cut_zone name of
                     None \<Rightarrow> unescape EncodeHost name
                   | Some (h, z) \<Rightarrow>
                       (case (unescape EncodeHost h, unescape EncodeZone z) of
                          (Some h', Some z') \<Rightarrow> Some (h' @ z') | _ \<Rightarrow> None))
            in (case (unescaped, unescape EncodeHost (drop (Suc e) host)) of
                  (Some n, Some port) \<Rightarrow>
                    (case parse_addr n of
                       Some (IPv6 _ _) \<Rightarrow> Some (''['' @ n @ '']'' @ port)
                     | _ \<Rightarrow> None)
                | _ \<Rightarrow> None))"

definition parse_host :: "string \<Rightarrow> string option" where
  "parse_host host =
     (case last_index_byte CHR ''['' host of
        Some i \<Rightarrow> if i > 0 then None else parse_bracketed_host host
      | None \<Rightarrow>
          (case last_index_byte CHR '':'' host of
             Some i \<Rightarrow> if valid_optional_port (drop i host) then unescape EncodeHost host else None
           | None \<Rightarrow> unescape EncodeHost host))"

definition parse_userinfo :: "string \<Rightarrow> userinfo option" where
  "parse_userinfo s =
     (if \<not> valid_userinfo s then None
      else (case cut CHR '':'' s of (name, pass, found) \<Rightarrow>
              if \<not> found then map_option User (unescape EncodeUserPassword s)
              else (case (unescape EncodeUserPassword name, unescape EncodeUserPassword pass) of
                      (Some n, Some p) \<Rightarrow> Some (UserPassword n p) | _ \<Rightarrow> None)))"

definition parse_authority :: "string \<Rightarrow> (userinfo option \<times> string) option" where
  "parse_authority a =
     (case last_index_byte CHR ''@'' a of
        None \<Rightarrow> map_option (\<lambda>h. (None, h)) (parse_host a)
      | Some i \<Rightarrow>
          (case (parse_host (drop (Suc i) a), parse_userinfo (take i a)) of
             (Some h, Some ui) \<Rightarrow> Some (Some ui, h) | _ \<Rightarrow> None))"

text \<open>What is left after scheme and query: the authority, if there is one, and the path.\<close>

definition parse_rest :: "string \<Rightarrow> url \<Rightarrow> url option" where
  "parse_rest rest u =
     (if prefix ''//'' rest \<and> (url_scheme u \<noteq> [] \<or> \<not> prefix ''///'' rest) then
        let authority = takeWhile (\<lambda>c. c \<noteq> CHR ''/'') (drop 2 rest)
        in (case parse_authority authority of
              None \<Rightarrow> None
            | Some (ui, h) \<Rightarrow>
                set_path (drop (2 + size authority) rest) (u\<lparr>url_user := ui, url_host := h\<rparr>))
      else if url_scheme u \<noteq> [] \<and> prefix ''/'' rest then set_path rest (u\<lparr>omit_host := True\<rparr>)
      else set_path rest u)"

definition take_query :: "string \<Rightarrow> url \<Rightarrow> string \<times> url" where
  "take_query rest u =
     (if rest \<noteq> [] \<and> last rest = CHR ''?'' \<and> CHR ''?'' \<notin> set (butlast rest)
      then (butlast rest, u\<lparr>force_query := True\<rparr>)
      else (case cut CHR ''?'' rest of (before, query, _) \<Rightarrow> (before, u\<lparr>raw_query := query\<rparr>)))"

definition parse_no_fragment :: "string \<Rightarrow> url option" where
  "parse_no_fragment s =
     (if \<exists>c \<in> set s. code c < 32 \<or> code c = 127 then None
      else if s = ''*'' then Some (empty_url\<lparr>url_path := ''*''\<rparr>)
      else
        (case get_scheme s of
           None \<Rightarrow> None
         | Some (scheme, rest0) \<Rightarrow>
             (case take_query rest0 (empty_url\<lparr>url_scheme := to_lower scheme\<rparr>) of (rest, u) \<Rightarrow>
                if \<not> prefix ''/'' rest \<and> url_scheme u \<noteq> [] then Some (u\<lparr>url_opaque := rest\<rparr>)
                else if \<not> prefix ''/'' rest \<and> CHR '':'' \<in> set (fst (cut CHR ''/'' rest)) then None
                else parse_rest rest u)))"

definition url_parse :: "string \<Rightarrow> url option" where
  "url_parse raw =
     (case cut CHR ''#'' raw of (s, frag, _) \<Rightarrow>
        (case parse_no_fragment s of
           None \<Rightarrow> None
         | Some u \<Rightarrow> if frag = [] then Some u else set_fragment frag u))"

section \<open>Resolving a reference\<close>

text \<open>
  resolvePath: the loop over the path elements. The builder's text after its first byte, which
  is always a slash, is \<open>str\<close>.
\<close>

definition resolve_elem :: "string \<Rightarrow> bool \<times> string \<Rightarrow> bool \<times> string" where
  "resolve_elem elem = (\<lambda>(first, str).
     if elem = ''.'' then (False, str)
     else if elem = ''..'' then
       (case last_index_byte CHR ''/'' str of None \<Rightarrow> (True, []) | Some i \<Rightarrow> (first, take i str))
     else (False, if first then str @ elem else str @ ''/'' @ elem))"

definition resolve_path :: "string \<Rightarrow> string \<Rightarrow> string" where
  "resolve_path base ref =
     (let full = (if ref = [] then base
                  else if hd ref \<noteq> CHR ''/'' then
                    (case last_index_byte CHR ''/'' base of None \<Rightarrow> [] | Some i \<Rightarrow> take (Suc i) base) @ ref
                  else ref);
          elems = split_byte CHR ''/'' full;
          str = snd (fold resolve_elem elems (True, [])) @
                (if last elems = ''.'' \<or> last elems = ''..'' then ''/'' else [])
      in if full = [] then []
         else if prefix ''/'' str then str else CHR ''/'' # str)"

definition set_path_ignoring_error :: "string \<Rightarrow> url \<Rightarrow> url" where
  "set_path_ignoring_error p u = (case set_path p u of None \<Rightarrow> u | Some u' \<Rightarrow> u')"

definition resolve_reference :: "url \<Rightarrow> url \<Rightarrow> url" where
  "resolve_reference u ref =
     (let url0 = (if url_scheme ref = [] then ref\<lparr>url_scheme := url_scheme u\<rparr> else ref)
      in if url_scheme ref \<noteq> [] \<or> url_host ref \<noteq> [] \<or> url_user ref \<noteq> None then
           set_path_ignoring_error (resolve_path (escaped_path ref) []) url0
         else if url_opaque ref \<noteq> [] then
           url0\<lparr>url_user := None, url_host := [], url_path := []\<rparr>
         else
           let url1 = (if url_path ref = [] \<and> \<not> force_query ref \<and> raw_query ref = [] then
                         (if fragment ref = [] then
                            url0\<lparr>raw_query := raw_query u, fragment := fragment u,
                                 raw_fragment := raw_fragment u\<rparr>
                          else url0\<lparr>raw_query := raw_query u\<rparr>)
                       else url0)
           in if url_path ref = [] \<and> url_opaque u \<noteq> [] then
                url1\<lparr>url_opaque := url_opaque u, url_user := None, url_host := [], url_path := []\<rparr>
              else set_path_ignoring_error (resolve_path (escaped_path u) (escaped_path ref))
                     (url1\<lparr>url_host := url_host u, url_user := url_user u\<rparr>))"

section \<open>Printing\<close>

definition userinfo_string :: "userinfo \<Rightarrow> string" where
  "userinfo_string ui =
     (case ui of
        User n \<Rightarrow> escape EncodeUserPassword n
      | UserPassword n p \<Rightarrow> escape EncodeUserPassword n @ '':'' @ escape EncodeUserPassword p)"

definition authority_string :: "url \<Rightarrow> string" where
  "authority_string u =
     (if url_scheme u \<noteq> [] \<or> url_host u \<noteq> [] \<or> url_user u \<noteq> None then
        (if omit_host u \<and> url_host u = [] \<and> url_user u = None then []
         else (if url_host u \<noteq> [] \<or> url_path u \<noteq> [] \<or> url_user u \<noteq> None then ''//'' else []) @
              (case url_user u of None \<Rightarrow> [] | Some ui \<Rightarrow> userinfo_string ui @ ''@'') @
              escape EncodeHost (url_host u))
      else [])"

definition url_string :: "url \<Rightarrow> string" where
  "url_string u =
     (let scheme = (if url_scheme u \<noteq> [] then url_scheme u @ '':'' else []);
          path = escaped_path u;
          authority = authority_string u;
          slash = (if path \<noteq> [] \<and> hd path \<noteq> CHR ''/'' \<and> url_host u \<noteq> [] then ''/'' else []);
          dot = (if scheme @ authority @ slash = [] \<and> CHR '':'' \<in> set (fst (cut CHR ''/'' path))
                 then ''./'' else [])
      in scheme @
         (if url_opaque u \<noteq> [] then url_opaque u else authority @ slash @ dot @ path) @
         (if force_query u \<or> raw_query u \<noteq> [] then ''?'' @ raw_query u else []) @
         (if fragment u \<noteq> [] then ''#'' @ escaped_fragment u else []))"

text \<open>\<open>Values.Encode\<close>: the pairs sorted by key, which is how the callers list them.\<close>

definition query_escape :: "string \<Rightarrow> string" where
  "query_escape s = escape EncodeQueryComponent s"

fun values_encode :: "(string \<times> string) list \<Rightarrow> string" where
  "values_encode [] = []"
| "values_encode [(k, v)] = query_escape k @ ''='' @ query_escape v"
| "values_encode ((k, v) # kvs) = query_escape k @ ''='' @ query_escape v @ ''&'' @ values_encode kvs"

section \<open>Facts about paths\<close>

lemma should_escape_slash [simp]: "\<not> should_escape EncodePath CHR ''/''"
  by (simp add: should_escape_def byte_class_defs)

lemma escape_Cons: "escape mode (c # s) = escape_byte mode c @ escape mode s"
  by (simp add: escape_def)

lemma escape_slash: "escape EncodePath (CHR ''/'' # s) = CHR ''/'' # escape EncodePath s"
  by (simp add: escape_def escape_byte_def)

lemma unescape_slash:
  "unescape EncodePath (CHR ''/'' # s) = map_option ((#) CHR ''/'') (unescape EncodePath s)"
  by (simp add: comp_def)

lemma prefix_slashE: "prefix ''/'' s \<Longrightarrow> \<exists>t. s = CHR ''/'' # t"
  by (auto simp: prefix_def)

text \<open>A path that starts with a slash keeps it through escaping and unescaping.\<close>

lemma set_path_slash:
  assumes "set_path p u = Some u'" and "prefix ''/'' p"
  shows "prefix ''/'' (url_path u')"
  using assms by (auto simp: set_path_def dest!: prefix_slashE)

lemma escaped_path_raw:
  "escaped_path u = url_raw_path u \<and> unescape EncodePath (url_raw_path u) = Some (url_path u)
   \<or> escaped_path u = ''*'' \<and> url_path u = ''*''
   \<or> escaped_path u = escape EncodePath (url_path u)"
  by (simp add: escaped_path_def)

lemma resolve_path_slash:
  "ref \<noteq> [] \<Longrightarrow> prefix ''/'' (resolve_path base ref)"
  by (auto simp: resolve_path_def Let_def)

end
