(* ===== verification/Target.thy ===== *)
theory Target
  imports GoUrl
begin

text \<open>
  resolveTargetURL of pkg/client/client.go, which turns the path of a tunnelled request into
  the URL the local Plex server is asked for, and where its guard keeps the request.
\<close>

datatype target_error = BaseParseError | PathParseError | PathBlocked

definition resolve_target_url :: "string \<Rightarrow> string \<Rightarrow> target_error + string" where
  "resolve_target_url base_target path =
     (case url_parse base_target of
        None \<Rightarrow> Inl BaseParseError
      | Some base \<Rightarrow>
          (case url_parse (if path = [] then ''/'' else path) of
             None \<Rightarrow> Inl PathParseError
           | Some rel \<Rightarrow>
               if url_scheme rel \<noteq> [] \<or> url_host rel \<noteq> [] \<or> \<not> prefix ''/'' (url_path rel)
               then Inl PathBlocked
               else Inr (url_string (resolve_reference base rel))))"

lemma escape_byte_nonempty: "escape_byte m c \<noteq> []"
  by (simp add: escape_byte_def)

lemma escape_nonempty: "s \<noteq> [] \<Longrightarrow> escape m s \<noteq> []"
  by (cases s) (simp_all add: escape_Cons escape_byte_nonempty)

lemma escaped_path_nonempty: "url_path u \<noteq> [] \<Longrightarrow> escaped_path u \<noteq> []"
  by (auto simp: escaped_path_def escape_nonempty)

lemma set_path_ignoring_error_sel [simp]:
  "url_scheme (set_path_ignoring_error p u) = url_scheme u"
  "url_host (set_path_ignoring_error p u) = url_host u"
  "url_user (set_path_ignoring_error p u) = url_user u"
  "url_opaque (set_path_ignoring_error p u) = url_opaque u"
  "raw_query (set_path_ignoring_error p u) = raw_query u"
  "force_query (set_path_ignoring_error p u) = force_query u"
  by (auto simp: set_path_ignoring_error_def set_path_def split: option.splits)

lemma set_path_ignoring_error_nonempty:
  assumes "prefix ''/'' p" and "url_path u \<noteq> []"
  shows "url_path (set_path_ignoring_error p u) \<noteq> []"
  using assms set_path_slash [of p u]
  by (auto simp: set_path_ignoring_error_def split: option.splits)

text \<open>The reference of a resolution that the guard lets through has no opaque part.\<close>

lemma opaque_scheme:
  assumes "url_parse s = Some u" and "url_scheme u = []"
  shows "url_opaque u = []"
proof -
  have empty: "url_opaque empty_url = []" by (simp add: empty_url_def)
  have "url_opaque v = []" if "parse_rest r w = Some v" "url_opaque w = []" for r w v
    using that by (auto simp: parse_rest_def set_path_def Let_def split: if_splits option.splits prod.splits)
  then have "url_opaque v = []" if "parse_no_fragment r = Some v" "url_scheme v = []" for r v
    using that empty
    by (auto simp: parse_no_fragment_def take_query_def Let_def split: if_splits option.splits prod.splits)
  then show ?thesis
    using assms by (auto simp: url_parse_def set_fragment_def split: prod.splits option.splits if_splits)
qed

definition userinfo_part :: "userinfo option \<Rightarrow> string" where
  "userinfo_part ui = (case ui of None \<Rightarrow> [] | Some u \<Rightarrow> userinfo_string u @ ''@'')"

definition path_slash :: "url \<Rightarrow> string" where
  "path_slash u = (if escaped_path u \<noteq> [] \<and> hd (escaped_path u) \<noteq> CHR ''/'' then ''/'' else [])"

text \<open>A URL with a scheme, a host and a path is printed with a slash after its host.\<close>

lemma url_string_host:
  assumes "url_scheme u \<noteq> []" and "url_host u \<noteq> []" and "url_opaque u = []" and "url_path u \<noteq> []"
  shows "\<exists>rest. url_string u = url_scheme u @ ''://'' @ userinfo_part (url_user u)
    @ escape EncodeHost (url_host u) @ ''/'' @ rest"
proof -
  obtain c p where p: "escaped_path u = c # p"
    using escaped_path_nonempty [OF assms(4)] by (cases "escaped_path u") auto
  show ?thesis
    using assms p by (cases "c = CHR ''/''") (auto simp: url_string_def authority_string_def userinfo_part_def Let_def)
qed

lemma url_string_user:
  assumes "url_scheme u \<noteq> []" and "url_user u = Some ui" and "url_host u = []" and "url_opaque u = []"
  shows "\<exists>rest. url_string u = url_scheme u @ ''://'' @ userinfo_string ui @ ''@'' @ rest
    \<and> rest = escaped_path u @ (if force_query u \<or> raw_query u \<noteq> [] then ''?'' @ raw_query u else [])
        @ (if fragment u \<noteq> [] then ''#'' @ escaped_fragment u else [])"
  using assms by (simp add: url_string_def authority_string_def escape_def Let_def)

lemma resolve_relative:
  fixes base rel :: url
  assumes rel: "url_scheme rel = []" "url_host rel = []" "url_opaque rel = []" "prefix ''/'' (url_path rel)"
    and noui: "url_user rel = None"
  defines "r \<equiv> resolve_reference base rel"
  shows "url_scheme r = url_scheme base" "url_host r = url_host base" "url_user r = url_user base"
    "url_opaque r = []" "raw_query r = raw_query rel" "url_path r \<noteq> []"
proof -
  have ne: "url_path rel \<noteq> []" using rel(4) by auto
  have slash: "prefix ''/'' (resolve_path b (escaped_path rel))" for b
    using escaped_path_nonempty [OF ne] by (rule resolve_path_slash)
  have r: "r = set_path_ignoring_error (resolve_path (escaped_path base) (escaped_path rel))
      (rel\<lparr>url_scheme := url_scheme base, url_host := url_host base, url_user := url_user base\<rparr>)"
    using rel(1-3) ne noui by (simp add: r_def resolve_reference_def Let_def)
  show "url_scheme r = url_scheme base" "url_host r = url_host base" "url_user r = url_user base"
    "url_opaque r = []" "raw_query r = raw_query rel"
    using rel(3) by (simp_all add: r)
  show "url_path r \<noteq> []"
    unfolding r by (rule set_path_ignoring_error_nonempty [OF slash]) (simp add: ne)
qed

lemma resolve_with_user:
  fixes base rel :: url
  assumes rel: "url_scheme rel = []" "url_host rel = []" "url_opaque rel = []"
    and ui: "url_user rel = Some u"
  defines "r \<equiv> resolve_reference base rel"
  shows "url_scheme r = url_scheme base" "url_host r = []" "url_user r = Some u" "url_opaque r = []"
  using rel ui by (simp_all add: r_def resolve_reference_def Let_def)

text \<open>
  C16. Whatever path the tunnel server sends, the resolved URL has the scheme of the configured
  target; its authority is the configured one, closed by a slash, so that the request cannot
  be sent to another host; or the path carried user information of its own
  (\<open>//user@/path\<close>), and then the URL has no host at all.
\<close>

theorem target_stays_on_base:
  assumes "url_parse base_target = Some base"
    and "url_scheme base \<noteq> []" and "url_host base \<noteq> []"
    and "resolve_target_url base_target path = Inr target"
  shows "(\<exists>rest. target = url_scheme base @ ''://'' @ userinfo_part (url_user base)
            @ escape EncodeHost (url_host base) @ ''/'' @ rest)
    \<or> (\<exists>rel ui rest. url_parse path = Some rel \<and> url_user rel = Some ui \<and> url_host rel = []
            \<and> target = url_scheme base @ ''://'' @ userinfo_string ui @ ''@'' @ rest)"
proof -
  let ?path = "if path = [] then ''/'' else path"
  obtain rel where rel: "url_parse ?path = Some rel"
    and g: "url_scheme rel = []" "url_host rel = []" "prefix ''/'' (url_path rel)"
    and target: "target = url_string (resolve_reference base rel)"
    using assms(1,4) by (auto simp: resolve_target_url_def split: option.splits if_splits)
  have opaque: "url_opaque rel = []" using opaque_scheme [OF rel g(1)] .
  show ?thesis
  proof (cases "url_user rel")
    case None
    note r = resolve_relative [OF g(1,2) opaque g(3) None, of base]
    show ?thesis
      unfolding target using url_string_host [of "resolve_reference base rel"] r assms(2,3) by auto
  next
    case (Some ui)
    note r = resolve_with_user [OF g(1,2) opaque Some, of base]
    have "path \<noteq> []"
    proof
      assume "path = []"
      then have "url_parse ''/'' = Some rel" using rel by simp
      moreover have "map_option url_user (url_parse ''/'') = Some None" by code_simp
      ultimately show False using Some by simp
    qed
    then show ?thesis
      unfolding target using url_string_user [of "resolve_reference base rel" ui] r assms(2) rel Some g by auto
  qed
qed

theorem target_stays_on_base_witness:
  "\<exists>rest. ''http://127.0.0.1:32400/library/parts?x=1'' = ''http'' @ ''://'' @ []
     @ escape EncodeHost ''127.0.0.1:32400'' @ ''/'' @ rest"
proof -
  let ?base = "the (url_parse ''http://127.0.0.1:32400'')"
  have base: "url_parse ''http://127.0.0.1:32400'' = Some ?base"
    and "url_scheme ?base = ''http''" "url_host ?base = ''127.0.0.1:32400''" "url_user ?base = None"
    by code_simp+
  moreover have "resolve_target_url ''http://127.0.0.1:32400'' ''/library/./parts?x=1''
      = Inr ''http://127.0.0.1:32400/library/parts?x=1''"
    by code_simp
  moreover have "map_option url_user (url_parse ''/library/./parts?x=1'') = Some None"
    by code_simp
  ultimately show ?thesis
    using target_stays_on_base [OF base, of "''/library/./parts?x=1''"
        "''http://127.0.0.1:32400/library/parts?x=1''"]
    by (auto simp: userinfo_part_def)
qed

lemma user_path_parsed:
  "url_parse ''//user@/path'' = Some (empty_url\<lparr>url_user := Some (User ''user''), url_path := ''/path''\<rparr>)"
  by code_simp

text \<open>
  The guard does not look at the user information of the parsed path: with
  \<open>//user@/path\<close> a request is let through whatever the configured target is, to a URL
  whose host is empty.
\<close>

lemma target_userinfo_passes_guard:
  assumes "url_parse base_target = Some base" and "url_scheme base \<noteq> []"
  shows "resolve_target_url base_target ''//user@/path'' = Inr (url_scheme base @ ''://user@/path'')"
proof -
  let ?rel = "empty_url\<lparr>url_user := Some (User ''user''), url_path := ''/path''\<rparr>"
  have esc: "escaped_path ?rel = ''/path''" and res: "resolve_path ''/path'' [] = ''/path''"
    and name: "userinfo_string (User ''user'') = ''user''"
    and unesc: "unescape EncodePath ''/path'' = Some ''/path''" and esc': "escape EncodePath ''/path'' = ''/path''"
    by code_simp+
  have r: "resolve_reference base ?rel = ?rel\<lparr>url_scheme := url_scheme base\<rparr>"
    unfolding resolve_reference_def esc res
    by (simp add: set_path_ignoring_error_def set_path_def unesc esc' empty_url_def)
  have p: "escaped_path (?rel\<lparr>url_scheme := url_scheme base\<rparr>) = ''/path''"
    by (simp add: escaped_path_def empty_url_def esc')
  show ?thesis
    using assms user_path_parsed
    by (simp add: resolve_target_url_def r)
      (simp add: url_string_def authority_string_def p name, simp add: empty_url_def escape_def)
qed

lemma target_userinfo_passes_guard_witness:
  "resolve_target_url ''https://plex.local:32400'' ''//user@/path'' = Inr ''https://user@/path''"
proof -
  let ?base = "the (url_parse ''https://plex.local:32400'')"
  have "url_parse ''https://plex.local:32400'' = Some ?base" and "url_scheme ?base = ''https''"
    by code_simp+
  then show ?thesis
    using target_userinfo_passes_guard [of "''https://plex.local:32400''" ?base] by simp
qed

end
