(* ===== verification/Tunnel.thy ===== *)
theory Tunnel
  imports GoStrings
begin

text \<open>
  The part of the tunnel protocol that the client uses. The protocol package
  (plex-tunnel-proto) is not in the repository: its message types are the names the client
  switches on, a message is a record of the fields the client reads or sets, and its constants
  and functions (the protocol version, the leased-pool capability bit, Message.Validate and
  CloneHeaders) are the fields of the record \<open>protocol\<close>, an argument of what uses them.
\<close>

datatype msg_kind = MsgRegister | MsgRegisterAck | MsgHTTPRequest | MsgHTTPResponse | MsgPing | MsgPong
  | MsgError | MsgMaxConnectionsUpdate | MsgWSOpen | MsgWSFrame | MsgWSClose | MsgKeyExchange
  | MsgOther nat

type_synonym headers = "(string \<times> string list) list"

record message =
  m_kind :: msg_kind
  m_token :: string
  m_subdomain :: string
  m_session_id :: string
  m_protocol_version :: nat
  m_max_connections :: go_int
  m_capabilities :: nat
  m_id :: string
  m_method :: string
  m_path :: string
  m_headers :: headers
  m_body :: string
  m_status :: go_int
  m_end_stream :: bool
  m_error :: string

text \<open>A message literal: the fields that are not set are zero.\<close>

definition new_message :: "msg_kind \<Rightarrow> message" where
  "new_message k =
     \<lparr>m_kind = k, m_token = [], m_subdomain = [], m_session_id = [], m_protocol_version = 0,
      m_max_connections = 0, m_capabilities = 0, m_id = [], m_method = [], m_path = [],
      m_headers = [], m_body = [], m_status = 0, m_end_stream = False, m_error = []\<rparr>"

lemma new_message_sel [simp]:
  "m_kind (new_message k) = k" "m_token (new_message k) = []" "m_subdomain (new_message k) = []"
  "m_session_id (new_message k) = []" "m_protocol_version (new_message k) = 0"
  "m_max_connections (new_message k) = 0" "m_capabilities (new_message k) = 0"
  "m_id (new_message k) = []" "m_method (new_message k) = []" "m_path (new_message k) = []"
  "m_headers (new_message k) = []" "m_body (new_message k) = []" "m_status (new_message k) = 0"
  "\<not> m_end_stream (new_message k)" "m_error (new_message k) = []"
  by (simp_all add: new_message_def)

record protocol =
  protocol_version :: nat
  cap_leased_pool :: nat
  validate_message :: "message \<Rightarrow> string option"
  clone_headers :: "headers \<Rightarrow> headers"

text \<open>\<open>capabilities & CapLeasedPool\<close>.\<close>

definition acks_leased_pool :: "protocol \<Rightarrow> message \<Rightarrow> bool" where
  "acks_leased_pool pr m \<longleftrightarrow> and (m_capabilities m) (cap_leased_pool pr) \<noteq> 0"

text \<open>The errors that end a session or one of its connections.\<close>

datatype client_error =
    PlaintextRefused
  | ConnectServer string
  | HandshakeFailed string
  | ProtocolVersionUnsupported
  | RegistrationRejected string
  | UnexpectedMessage msg_kind
  | ProtocolVersionMismatch nat
  | LeasedPoolMissing
  | InvalidRegisterAck string
  | ConnectSession string
  | SendJoin string
  | ReceiveJoin string
  | SessionIdMismatch string
  | MaxConnectionsMismatch go_int
  | SubdomainMismatch string
  | ReadLoopFailed string
  | SendPongFailed string
  | SendPingFailed string
  | PongTimeout
  | ControlPongTimeout go_int
  | ContextDone
  | AllConnectionsLost "client_error option"
  | ControlLost

end
