(* ===== verification/Config.thy ===== *)
theory Config
  imports GoUrl
begin

text \<open>
  The configuration of pkg/client/config.go: the record, the subdomain pattern and LoadConfig
  with its environment as a function from variable names to values (an unset variable is
  empty, as os.Getenv has it). \<open>time.ParseDuration\<close> is the argument \<open>pd\<close>: nothing
  is assumed of it.
\<close>

record config =
  cfg_token :: string
  cfg_server_url :: string
  cfg_plex_target :: string
  cfg_subdomain :: string
  cfg_log_level :: string
  cfg_debug_bandwidth_log :: bool
  cfg_max_connections :: go_int
  cfg_ping_interval :: duration
  cfg_pong_timeout :: duration
  cfg_max_reconnect_delay :: duration
  cfg_response_chunk_size :: go_int
  cfg_response_header_timeout :: duration

datatype config_error = TokenRequired | ServerUrlRequired | ServerUrlInvalid | SubdomainInvalid
  | DebugInvalid | PingIntervalInvalid | PongTimeoutInvalid | ReconnectDelayInvalid
  | MaxConnectionsInvalid | MaxConnectionsRange | ChunkSizeInvalid | ChunkSizeRange
  | HeaderTimeoutInvalid

type_synonym environment = "string \<Rightarrow> string"
type_synonym duration_parser = "string \<Rightarrow> duration option"

section \<open>Reading the environment\<close>

definition subdomain_edge :: "char \<Rightarrow> bool" where
  "subdomain_edge c \<longleftrightarrow> is_lower c \<or> is_digit c"

text \<open>The pattern \<open>[a-z0-9]([a-z0-9-]*[a-z0-9])?\<close>, anchored at both ends.\<close>

definition subdomain_pattern :: "string \<Rightarrow> bool" where
  "subdomain_pattern s =
     (case s of
        [] \<Rightarrow> False
      | c # t \<Rightarrow> subdomain_edge c \<and>
          (t = [] \<or> (\<forall>x \<in> set (butlast t). subdomain_edge x \<or> x = CHR ''-'') \<and> subdomain_edge (last t)))"

definition is_valid_subdomain :: "string \<Rightarrow> bool" where
  "is_valid_subdomain s \<longleftrightarrow> size s \<le> 63 \<and> subdomain_pattern s"

definition getenv_default :: "environment \<Rightarrow> string \<Rightarrow> string \<Rightarrow> string" where
  "getenv_default env key fallback =
     (let value = trim_space (env key) in if value \<noteq> [] then value else fallback)"

definition ws_url :: "string \<Rightarrow> bool" where
  "ws_url s \<longleftrightarrow>
     (case url_parse s of None \<Rightarrow> False | Some u \<Rightarrow> url_scheme u = ''ws'' \<or> url_scheme u = ''wss'')"

text \<open>
  A setting that may be absent: an empty variable leaves the configuration as it is, any other
  value is parsed, and a parse error ends the loading.
\<close>

definition setting ::
  "environment \<Rightarrow> string \<Rightarrow> (string \<Rightarrow> config_error + (config \<Rightarrow> config)) \<Rightarrow> config \<Rightarrow> config_error + config" where
  "setting env key parse cfg =
     (let raw = trim_space (env key)
      in if raw = [] then Inr cfg else and_then (parse raw) (\<lambda>f. Inr (f cfg)))"

definition parsed :: "config_error \<Rightarrow> 'a option \<Rightarrow> ('a \<Rightarrow> config_error + 'b) \<Rightarrow> config_error + 'b" where
  "parsed e v k = (case v of None \<Rightarrow> Inl e | Some a \<Rightarrow> k a)"

definition parse_max_connections :: "string \<Rightarrow> config_error + (config \<Rightarrow> config)" where
  "parse_max_connections raw =
     parsed MaxConnectionsInvalid (atoi raw)
       (\<lambda>n. if n < 1 \<or> n > 32 then Inl MaxConnectionsRange else Inr (cfg_max_connections_update (\<lambda>_. n)))"

definition parse_chunk_size :: "string \<Rightarrow> config_error + (config \<Rightarrow> config)" where
  "parse_chunk_size raw =
     parsed ChunkSizeInvalid (atoi raw)
       (\<lambda>n. if n < 1024 \<or> n > 4 * 1024 * 1024 then Inl ChunkSizeRange
             else Inr (cfg_response_chunk_size_update (\<lambda>_. n)))"

definition parse_duration_setting ::
  "duration_parser \<Rightarrow> config_error \<Rightarrow> ((duration \<Rightarrow> duration) \<Rightarrow> config \<Rightarrow> config)
   \<Rightarrow> string \<Rightarrow> config_error + (config \<Rightarrow> config)" where
  "parse_duration_setting pd e upd raw = parsed e (pd raw) (\<lambda>d. Inr (upd (\<lambda>_. d)))"

definition initial_config :: "environment \<Rightarrow> config" where
  "initial_config env =
     \<lparr>cfg_token = trim_space (env ''PLEXTUNNEL_TOKEN''),
      cfg_server_url = trim_space (env ''PLEXTUNNEL_SERVER_URL''),
      cfg_plex_target = getenv_default env ''PLEXTUNNEL_PLEX_TARGET'' ''http://127.0.0.1:32400'',
      cfg_subdomain = trim_space (env ''PLEXTUNNEL_SUBDOMAIN''),
      cfg_log_level = getenv_default env ''PLEXTUNNEL_LOG_LEVEL'' ''info'',
      cfg_debug_bandwidth_log = False,
      cfg_max_connections = 0,
      cfg_ping_interval = 30 * second,
      cfg_pong_timeout = 10 * second,
      cfg_max_reconnect_delay = 60 * second,
      cfg_response_chunk_size = 64 * 1024,
      cfg_response_header_timeout = 30 * second\<rparr>"

definition required_settings :: "config \<Rightarrow> config_error + config" where
  "required_settings cfg =
     (if cfg_token cfg = [] then Inl TokenRequired
      else if cfg_server_url cfg = [] then Inl ServerUrlRequired
      else if \<not> ws_url (cfg_server_url cfg) then Inl ServerUrlInvalid
      else if cfg_subdomain cfg \<noteq> [] \<and> \<not> is_valid_subdomain (cfg_subdomain cfg) then Inl SubdomainInvalid
      else Inr cfg)"

definition load_config :: "environment \<Rightarrow> duration_parser \<Rightarrow> config_error + config" where
  "load_config env pd =
     fold (\<lambda>step r. and_then r step)
       [required_settings,
        setting env ''PLEXTUNNEL_DEBUG_BANDWIDTH_LOGGING''
          (\<lambda>raw. parsed DebugInvalid (parse_bool raw) (\<lambda>b. Inr (cfg_debug_bandwidth_log_update (\<lambda>_. b)))),
        setting env ''PLEXTUNNEL_PING_INTERVAL''
          (parse_duration_setting pd PingIntervalInvalid cfg_ping_interval_update),
        setting env ''PLEXTUNNEL_PONG_TIMEOUT''
          (parse_duration_setting pd PongTimeoutInvalid cfg_pong_timeout_update),
        setting env ''PLEXTUNNEL_MAX_RECONNECT_DELAY''
          (parse_duration_setting pd ReconnectDelayInvalid cfg_max_reconnect_delay_update),
        setting env ''PLEXTUNNEL_MAX_CONNECTIONS'' parse_max_connections,
        setting env ''PLEXTUNNEL_RESPONSE_CHUNK_SIZE'' parse_chunk_size,
        setting env ''PLEXTUNNEL_RESPONSE_HEADER_TIMEOUT''
          (parse_duration_setting pd HeaderTimeoutInvalid cfg_response_header_timeout_update)]
       (Inr (initial_config env))"

section \<open>What a loaded configuration satisfies\<close>

text \<open>
  The abstract reading of one variable: the default when it is blank, the parsed value
  otherwise.
\<close>

definition value_from :: "environment \<Rightarrow> string \<Rightarrow> 'a \<Rightarrow> (string \<Rightarrow> 'a option) \<Rightarrow> 'a \<Rightarrow> bool" where
  "value_from env key dflt parse v \<longleftrightarrow>
     (if trim_space (env key) = [] then v = dflt else parse (trim_space (env key)) = Some v)"

definition within :: "int \<Rightarrow> int \<Rightarrow> int option \<Rightarrow> int option" where
  "within lo hi v = (case v of None \<Rightarrow> None | Some n \<Rightarrow> if lo \<le> n \<and> n \<le> hi then Some n else None)"

definition config_source :: "environment \<Rightarrow> duration_parser \<Rightarrow> config \<Rightarrow> bool" where
  "config_source env pd cfg \<longleftrightarrow>
     cfg_token cfg = trim_space (env ''PLEXTUNNEL_TOKEN'') \<and> cfg_token cfg \<noteq> [] \<and>
     cfg_server_url cfg = trim_space (env ''PLEXTUNNEL_SERVER_URL'') \<and> ws_url (cfg_server_url cfg) \<and>
     value_from env ''PLEXTUNNEL_PLEX_TARGET'' ''http://127.0.0.1:32400'' Some (cfg_plex_target cfg) \<and>
     cfg_subdomain cfg = trim_space (env ''PLEXTUNNEL_SUBDOMAIN'') \<and>
     (cfg_subdomain cfg = [] \<or> is_valid_subdomain (cfg_subdomain cfg)) \<and>
     value_from env ''PLEXTUNNEL_LOG_LEVEL'' ''info'' Some (cfg_log_level cfg) \<and>
     value_from env ''PLEXTUNNEL_DEBUG_BANDWIDTH_LOGGING'' False parse_bool (cfg_debug_bandwidth_log cfg) \<and>
     value_from env ''PLEXTUNNEL_PING_INTERVAL'' (30 * second) pd (cfg_ping_interval cfg) \<and>
     value_from env ''PLEXTUNNEL_PONG_TIMEOUT'' (10 * second) pd (cfg_pong_timeout cfg) \<and>
     value_from env ''PLEXTUNNEL_MAX_RECONNECT_DELAY'' (60 * second) pd (cfg_max_reconnect_delay cfg) \<and>
     value_from env ''PLEXTUNNEL_MAX_CONNECTIONS'' 0 (within 1 32 \<circ> atoi) (cfg_max_connections cfg) \<and>
     value_from env ''PLEXTUNNEL_RESPONSE_CHUNK_SIZE'' 65536 (within 1024 4194304 \<circ> atoi)
       (cfg_response_chunk_size cfg) \<and>
     value_from env ''PLEXTUNNEL_RESPONSE_HEADER_TIMEOUT'' (30 * second) pd (cfg_response_header_timeout cfg)"

lemma getenv_default_value: "getenv_default env key d = v \<longleftrightarrow> value_from env key d Some v"
  by (auto simp: getenv_default_def value_from_def Let_def)

text \<open>One step of the loading, when its parser yields field updates.\<close>

lemma setting_value:
  assumes "\<And>raw f. p raw = Inr f \<longleftrightarrow> (\<exists>v. parse raw = Some v \<and> f = upd (\<lambda>_. v))"
    and "upd (\<lambda>_. fld cfg) cfg = cfg"
  shows "setting env key p cfg = Inr cfg' \<longleftrightarrow>
    (\<exists>v. value_from env key (fld cfg) parse v \<and> cfg' = upd (\<lambda>_. v) cfg)"
  using assms(2) by (auto simp: setting_def value_from_def Let_def and_then_Inr_iff assms(1))

lemma duration_setting_Inr:
  "parse_duration_setting pd e upd raw = Inr f \<longleftrightarrow> (\<exists>v. pd raw = Some v \<and> f = upd (\<lambda>_. v))"
  by (auto simp: parse_duration_setting_def parsed_def split: option.splits)

lemma max_connections_Inr:
  "parse_max_connections raw = Inr f \<longleftrightarrow>
     (\<exists>v. (within 1 32 \<circ> atoi) raw = Some v \<and> f = cfg_max_connections_update (\<lambda>_. v))"
  by (auto simp: parse_max_connections_def parsed_def within_def split: option.splits)

lemma chunk_size_Inr:
  "parse_chunk_size raw = Inr f \<longleftrightarrow>
     (\<exists>v. (within 1024 4194304 \<circ> atoi) raw = Some v \<and> f = cfg_response_chunk_size_update (\<lambda>_. v))"
  by (auto simp: parse_chunk_size_def parsed_def within_def split: option.splits)

lemma debug_Inr:
  "parsed e (parse_bool raw) (\<lambda>b. Inr (cfg_debug_bandwidth_log_update (\<lambda>_. b))) = Inr f \<longleftrightarrow>
     (\<exists>v. parse_bool raw = Some v \<and> f = cfg_debug_bandwidth_log_update (\<lambda>_. v))"
  by (auto simp: parsed_def split: option.splits)

lemma setting_values:
  "setting env key (\<lambda>raw. parsed e (parse_bool raw) (\<lambda>b. Inr (cfg_debug_bandwidth_log_update (\<lambda>_. b)))) c = Inr c' \<longleftrightarrow>
     (\<exists>v. value_from env key (cfg_debug_bandwidth_log c) parse_bool v \<and> c' = c\<lparr>cfg_debug_bandwidth_log := v\<rparr>)"
  "setting env key (parse_duration_setting pd e cfg_ping_interval_update) c = Inr c' \<longleftrightarrow>
     (\<exists>v. value_from env key (cfg_ping_interval c) pd v \<and> c' = c\<lparr>cfg_ping_interval := v\<rparr>)"
  "setting env key (parse_duration_setting pd e cfg_pong_timeout_update) c = Inr c' \<longleftrightarrow>
     (\<exists>v. value_from env key (cfg_pong_timeout c) pd v \<and> c' = c\<lparr>cfg_pong_timeout := v\<rparr>)"
  "setting env key (parse_duration_setting pd e cfg_max_reconnect_delay_update) c = Inr c' \<longleftrightarrow>
     (\<exists>v. value_from env key (cfg_max_reconnect_delay c) pd v \<and> c' = c\<lparr>cfg_max_reconnect_delay := v\<rparr>)"
  "setting env key parse_max_connections c = Inr c' \<longleftrightarrow>
     (\<exists>v. value_from env key (cfg_max_connections c) (within 1 32 \<circ> atoi) v \<and> c' = c\<lparr>cfg_max_connections := v\<rparr>)"
  "setting env key parse_chunk_size c = Inr c' \<longleftrightarrow>
     (\<exists>v. value_from env key (cfg_response_chunk_size c) (within 1024 4194304 \<circ> atoi) v \<and> c' = c\<lparr>cfg_response_chunk_size := v\<rparr>)"
  "setting env key (parse_duration_setting pd e cfg_response_header_timeout_update) c = Inr c' \<longleftrightarrow>
     (\<exists>v. value_from env key (cfg_response_header_timeout c) pd v \<and> c' = c\<lparr>cfg_response_header_timeout := v\<rparr>)"
  by (rule setting_value; simp add: debug_Inr duration_setting_Inr max_connections_Inr chunk_size_Inr)+

lemmas setting_valueIs = setting_values [THEN iffD2, OF exI, OF conjI, OF _ refl]

lemma not_ws_url_Nil: "\<not> ws_url []"
  by code_simp

lemma initial_config_sel:
  "cfg_debug_bandwidth_log (initial_config env) = False"
  "cfg_ping_interval (initial_config env) = 30 * second"
  "cfg_pong_timeout (initial_config env) = 10 * second"
  "cfg_max_reconnect_delay (initial_config env) = 60 * second"
  "cfg_max_connections (initial_config env) = 0"
  "cfg_response_chunk_size (initial_config env) = 65536"
  "cfg_response_header_timeout (initial_config env) = 30 * second"
  by (simp_all add: initial_config_def)

lemma required_settings_Inr:
  "required_settings cfg = Inr cfg' \<longleftrightarrow>
     cfg' = cfg \<and> cfg_token cfg \<noteq> [] \<and> ws_url (cfg_server_url cfg)
     \<and> (cfg_subdomain cfg = [] \<or> is_valid_subdomain (cfg_subdomain cfg))"
  by (auto simp: required_settings_def not_ws_url_Nil)

lemma load_config_sound:
  assumes "load_config env pd = Inr cfg"
  shows "config_source env pd cfg"
proof -
  from assms obtain c1 c2 c3 c4 c5 c6 where
    "required_settings (initial_config env) = Inr (initial_config env)" and
    steps: "setting env ''PLEXTUNNEL_DEBUG_BANDWIDTH_LOGGING''
      (\<lambda>raw. parsed DebugInvalid (parse_bool raw) (\<lambda>b. Inr (cfg_debug_bandwidth_log_update (\<lambda>_. b))))
      (initial_config env) = Inr c1"
    "setting env ''PLEXTUNNEL_PING_INTERVAL''
      (parse_duration_setting pd PingIntervalInvalid cfg_ping_interval_update) c1 = Inr c2"
    "setting env ''PLEXTUNNEL_PONG_TIMEOUT''
      (parse_duration_setting pd PongTimeoutInvalid cfg_pong_timeout_update) c2 = Inr c3"
    "setting env ''PLEXTUNNEL_MAX_RECONNECT_DELAY''
      (parse_duration_setting pd ReconnectDelayInvalid cfg_max_reconnect_delay_update) c3 = Inr c4"
    "setting env ''PLEXTUNNEL_MAX_CONNECTIONS'' parse_max_connections c4 = Inr c5"
    "setting env ''PLEXTUNNEL_RESPONSE_CHUNK_SIZE'' parse_chunk_size c5 = Inr c6"
    "setting env ''PLEXTUNNEL_RESPONSE_HEADER_TIMEOUT''
      (parse_duration_setting pd HeaderTimeoutInvalid cfg_response_header_timeout_update) c6 = Inr cfg"
    by (auto simp: load_config_def and_then_Inr_iff required_settings_Inr)
  then have req: "cfg_token (initial_config env) \<noteq> []" "ws_url (cfg_server_url (initial_config env))"
    "cfg_subdomain (initial_config env) = [] \<or> is_valid_subdomain (cfg_subdomain (initial_config env))"
    by (simp_all add: required_settings_Inr)
  obtain v1 where v1: "value_from env ''PLEXTUNNEL_DEBUG_BANDWIDTH_LOGGING'' (cfg_debug_bandwidth_log (initial_config env)) parse_bool v1"
      "c1 = (initial_config env)\<lparr>cfg_debug_bandwidth_log := v1\<rparr>"
    using steps(1) unfolding setting_values by blast
  obtain v2 where v2: "value_from env ''PLEXTUNNEL_PING_INTERVAL'' (cfg_ping_interval (c1)) pd v2"
      "c2 = (c1)\<lparr>cfg_ping_interval := v2\<rparr>"
    using steps(2) unfolding setting_values by blast
  obtain v3 where v3: "value_from env ''PLEXTUNNEL_PONG_TIMEOUT'' (cfg_pong_timeout (c2)) pd v3"
      "c3 = (c2)\<lparr>cfg_pong_timeout := v3\<rparr>"
    using steps(3) unfolding setting_values by blast
  obtain v4 where v4: "value_from env ''PLEXTUNNEL_MAX_RECONNECT_DELAY'' (cfg_max_reconnect_delay (c3)) pd v4"
      "c4 = (c3)\<lparr>cfg_max_reconnect_delay := v4\<rparr>"
    using steps(4) unfolding setting_values by blast
  obtain v5 where v5: "value_from env ''PLEXTUNNEL_MAX_CONNECTIONS'' (cfg_max_connections (c4)) (within 1 32 \<circ> atoi) v5"
      "c5 = (c4)\<lparr>cfg_max_connections := v5\<rparr>"
    using steps(5) unfolding setting_values by blast
  obtain v6 where v6: "value_from env ''PLEXTUNNEL_RESPONSE_CHUNK_SIZE'' (cfg_response_chunk_size (c5)) (within 1024 4194304 \<circ> atoi) v6"
      "c6 = (c5)\<lparr>cfg_response_chunk_size := v6\<rparr>"
    using steps(6) unfolding setting_values by blast
  obtain v7 where v7: "value_from env ''PLEXTUNNEL_RESPONSE_HEADER_TIMEOUT'' (cfg_response_header_timeout (c6)) pd v7"
      "cfg = (c6)\<lparr>cfg_response_header_timeout := v7\<rparr>"
    using steps(7) unfolding setting_values by blast
  note cfg = v7(2) v6(2) v5(2) v4(2) v3(2) v2(2) v1(2)
  note vals = v1(1) v2(1) v3(1) v4(1) v5(1) v6(1) v7(1)
  show "config_source env pd cfg"
    using req vals unfolding config_source_def cfg
    by (simp add: initial_config_def getenv_default_value [symmetric])
qed

lemma load_config_complete:
  assumes src: "config_source env pd cfg"
  shows "load_config env pd = Inr cfg"
proof -
  from src have req: "required_settings (initial_config env) = Inr (initial_config env)"
    by (auto simp: config_source_def required_settings_Inr initial_config_def)
  let ?c1 = "initial_config env\<lparr>cfg_debug_bandwidth_log := cfg_debug_bandwidth_log cfg\<rparr>"
  let ?c2 = "?c1\<lparr>cfg_ping_interval := cfg_ping_interval cfg\<rparr>"
  let ?c3 = "?c2\<lparr>cfg_pong_timeout := cfg_pong_timeout cfg\<rparr>"
  let ?c4 = "?c3\<lparr>cfg_max_reconnect_delay := cfg_max_reconnect_delay cfg\<rparr>"
  let ?c5 = "?c4\<lparr>cfg_max_connections := cfg_max_connections cfg\<rparr>"
  let ?c6 = "?c5\<lparr>cfg_response_chunk_size := cfg_response_chunk_size cfg\<rparr>"
  let ?c7 = "?c6\<lparr>cfg_response_header_timeout := cfg_response_header_timeout cfg\<rparr>"
  have vals:
    "value_from env ''PLEXTUNNEL_DEBUG_BANDWIDTH_LOGGING'' (cfg_debug_bandwidth_log (initial_config env)) parse_bool (cfg_debug_bandwidth_log cfg)"
    "value_from env ''PLEXTUNNEL_PING_INTERVAL'' (cfg_ping_interval (?c1)) pd (cfg_ping_interval cfg)"
    "value_from env ''PLEXTUNNEL_PONG_TIMEOUT'' (cfg_pong_timeout (?c2)) pd (cfg_pong_timeout cfg)"
    "value_from env ''PLEXTUNNEL_MAX_RECONNECT_DELAY'' (cfg_max_reconnect_delay (?c3)) pd (cfg_max_reconnect_delay cfg)"
    "value_from env ''PLEXTUNNEL_MAX_CONNECTIONS'' (cfg_max_connections (?c4)) (within 1 32 \<circ> atoi) (cfg_max_connections cfg)"
    "value_from env ''PLEXTUNNEL_RESPONSE_CHUNK_SIZE'' (cfg_response_chunk_size (?c5)) (within 1024 4194304 \<circ> atoi) (cfg_response_chunk_size cfg)"
    "value_from env ''PLEXTUNNEL_RESPONSE_HEADER_TIMEOUT'' (cfg_response_header_timeout (?c6)) pd (cfg_response_header_timeout cfg)"
    using src by (simp_all add: config_source_def initial_config_sel)
  note steps =
    setting_valueIs(1) [OF vals(1)]
    setting_valueIs(2) [OF vals(2)]
    setting_valueIs(3) [OF vals(3)]
    setting_valueIs(4) [OF vals(4)]
    setting_valueIs(5) [OF vals(5)]
    setting_valueIs(6) [OF vals(6)]
    setting_valueIs(7) [OF vals(7)]
  have "load_config env pd = Inr ?c7"
    by (simp only: load_config_def fold_simps and_then.simps id_apply req steps)
  also have "\<dots> = Inr cfg"
    using src by (cases cfg) (simp add: config_source_def initial_config_def getenv_default_value)
  finally show "load_config env pd = Inr cfg" .
qed

text \<open>
  C15. LoadConfig returns a configuration exactly when the token is present, the server URL
  parses with the scheme ws or wss, the subdomain is blank or a valid label, and every other
  variable is blank or parses within its range; and the configuration then holds, field by
  field, the trimmed and parsed values, or the defaults of the blank variables.
\<close>

theorem load_config_exact:
  "load_config env pd = Inr cfg \<longleftrightarrow> config_source env pd cfg"
  using load_config_sound load_config_complete by blast

lemma within_range: "within lo hi n = Some v \<Longrightarrow> lo \<le> v \<and> v \<le> hi"
  by (auto simp: within_def split: option.splits if_splits)

lemma load_config_bounds:
  assumes "load_config env pd = Inr cfg"
  shows "0 \<le> cfg_max_connections cfg" "cfg_max_connections cfg \<le> 32"
    "1024 \<le> cfg_response_chunk_size cfg" "cfg_response_chunk_size cfg \<le> 4194304"
    "cfg_token cfg \<noteq> []" "ws_url (cfg_server_url cfg)"
proof -
  note src = load_config_sound [OF assms, unfolded config_source_def]
  have max_c: "value_from env ''PLEXTUNNEL_MAX_CONNECTIONS'' 0 (within 1 32 \<circ> atoi) (cfg_max_connections cfg)"
    and chunk: "value_from env ''PLEXTUNNEL_RESPONSE_CHUNK_SIZE'' 65536 (within 1024 4194304 \<circ> atoi)
      (cfg_response_chunk_size cfg)"
    using src by blast+
  show "0 \<le> cfg_max_connections cfg" "cfg_max_connections cfg \<le> 32"
    using max_c within_range [of 1 32] by (fastforce simp: value_from_def split: if_splits)+
  show "1024 \<le> cfg_response_chunk_size cfg" "cfg_response_chunk_size cfg \<le> 4194304"
    using chunk within_range [of 1024 4194304] by (fastforce simp: value_from_def split: if_splits)+
  show "cfg_token cfg \<noteq> []" "ws_url (cfg_server_url cfg)"
    using src by blast+
qed

text \<open>
  The subdomains the client accepts are the DNS labels in lower case: 1 to 63 characters,
  each a lower-case letter, a digit or a hyphen, with no hyphen at either end.
\<close>

lemma valid_subdomain_is_label:
  "is_valid_subdomain s \<longleftrightarrow>
     1 \<le> size s \<and> size s \<le> 63 \<and>
     (\<forall>c \<in> set s. is_lower c \<or> is_digit c \<or> c = CHR ''-'') \<and>
     hd s \<noteq> CHR ''-'' \<and> last s \<noteq> CHR ''-''"
proof -
  have hyphen: "\<not> subdomain_edge CHR ''-''"
    by (simp add: subdomain_edge_def byte_class_defs)
  have "subdomain_pattern s \<longleftrightarrow> s \<noteq> [] \<and>
      (\<forall>c \<in> set s. subdomain_edge c \<or> c = CHR ''-'') \<and> hd s \<noteq> CHR ''-'' \<and> last s \<noteq> CHR ''-''"
  proof (cases s)
    case (Cons c t)
    show ?thesis
    proof (cases t rule: rev_cases)
      case Nil
      then show ?thesis using Cons hyphen by (auto simp: subdomain_pattern_def)
    next
      case (snoc m x)
      then show ?thesis using Cons hyphen by (auto simp: subdomain_pattern_def)
    qed
  qed (simp add: subdomain_pattern_def)
  then show ?thesis
    by (auto simp: is_valid_subdomain_def subdomain_edge_def Suc_le_eq)
qed

lemma valid_subdomain_is_label_witness:
  "is_valid_subdomain ''a-1'' \<and> \<not> is_valid_subdomain ''a-''"
  using valid_subdomain_is_label [of "''a-1''"] valid_subdomain_is_label [of "''a-''"]
  by (simp add: byte_class_defs)

end
