(* ===== verification/Handshake.thy ===== *)
theory Handshake
  imports Tunnel Config Pool
begin

text \<open>
  How a session and its further connections are opened: validateRegisterAck, the registration
  in runSession and joinSessionConnection of pkg/client/client.go. What the network answers
  (the dial, the send and the receive) is a record; the calls made on the new connection are a
  list of effects.
\<close>

record handshake_net =
  net_dial :: "string + string" \<comment> \<open>the remote address\<close>
  net_send :: "string option" \<comment> \<open>the error, if any\<close>
  net_receive :: "string + message"

datatype conn_effect = SendMessage message | ReceiveMessage | CloseConnection

section \<open>Registration\<close>

definition validate_register_ack :: "protocol \<Rightarrow> message \<Rightarrow> client_error option" where
  "validate_register_ack pr ack =
     (if m_kind ack = MsgError then
        (if contains (to_lower (m_error ack)) ''unsupported tunnel protocol version''
         then Some ProtocolVersionUnsupported else Some (RegistrationRejected (m_error ack)))
      else if m_kind ack \<noteq> MsgRegisterAck then Some (UnexpectedMessage (m_kind ack))
      else if m_protocol_version ack \<noteq> protocol_version pr
        then Some (ProtocolVersionMismatch (m_protocol_version ack))
      else if \<not> acks_leased_pool pr ack then Some LeasedPoolMissing
      else map_option InvalidRegisterAck (validate_message pr ack))"

definition register_message :: "protocol \<Rightarrow> config \<Rightarrow> message" where
  "register_message pr cfg =
     (new_message MsgRegister)\<lparr>m_token := cfg_token cfg, m_subdomain := cfg_subdomain cfg,
        m_protocol_version := protocol_version pr, m_max_connections := cfg_max_connections cfg,
        m_capabilities := cap_leased_pool pr\<rparr>"

definition register_control ::
  "protocol \<Rightarrow> config \<Rightarrow> handshake_net \<Rightarrow> (client_error + message) \<times> conn_effect list" where
  "register_control pr cfg net =
     (if prefix ''ws://'' (cfg_server_url cfg) then (Inl PlaintextRefused, [])
      else case net_dial net of
        Inl e \<Rightarrow> (Inl (ConnectServer e), [])
      | Inr _ \<Rightarrow>
          let sent = SendMessage (register_message pr cfg) in
          (case net_send net of
             Some e \<Rightarrow> (Inl (HandshakeFailed e), [sent, CloseConnection])
           | None \<Rightarrow>
               (case net_receive net of
                  Inl e \<Rightarrow> (Inl (HandshakeFailed e), [sent, ReceiveMessage, CloseConnection])
                | Inr ack \<Rightarrow>
                    (case validate_register_ack pr ack of
                       Some e \<Rightarrow> (Inl e, [sent, ReceiveMessage, CloseConnection])
                     | None \<Rightarrow> (Inr ack, [sent, ReceiveMessage])))))"

definition granted_max :: "message \<Rightarrow> go_int" where
  "granted_max ack =
     (if m_max_connections ack > max_pool_connections then max_pool_connections else m_max_connections ack)"

definition session_pool :: "string \<Rightarrow> message \<Rightarrow> connection_pool" where
  "session_pool addr ack =
     new_connection_pool addr (m_subdomain ack) (m_session_id ack) (granted_max ack)"

section \<open>Joining a session\<close>

definition join_message :: "protocol \<Rightarrow> config \<Rightarrow> connection_pool \<Rightarrow> message" where
  "join_message pr cfg pool =
     (new_message MsgRegister)\<lparr>m_token := cfg_token cfg, m_subdomain := subdomain pool,
        m_protocol_version := protocol_version pr, m_session_id := session_id pool,
        m_capabilities := cap_leased_pool pr\<rparr>"

text \<open>
  \<open>p\<close> is the pool while the registration message is built, \<open>p'\<close> the pool when the answer
  is checked: a resize can happen in between, the names never change.
\<close>

definition check_join_ack :: "protocol \<Rightarrow> connection_pool \<Rightarrow> message \<Rightarrow> client_error option" where
  "check_join_ack pr p' ack =
     (case validate_register_ack pr ack of
        Some e \<Rightarrow> Some e
      | None \<Rightarrow>
          if m_session_id ack \<noteq> session_id p' then Some (SessionIdMismatch (m_session_id ack))
          else if m_max_connections ack \<noteq> max_connections p'
            then Some (MaxConnectionsMismatch (m_max_connections ack))
          else if m_subdomain ack \<noteq> subdomain p' then Some (SubdomainMismatch (m_subdomain ack))
          else None)"

definition join_session_connection ::
  "protocol \<Rightarrow> config \<Rightarrow> connection_pool \<Rightarrow> connection_pool \<Rightarrow> handshake_net
   \<Rightarrow> client_error option \<times> conn_effect list" where
  "join_session_connection pr cfg p p' net =
     (case net_dial net of
        Inl e \<Rightarrow> (Some (ConnectSession e), [])
      | Inr _ \<Rightarrow>
          let sent = SendMessage (join_message pr cfg p) in
          (case net_send net of
             Some e \<Rightarrow> (Some (SendJoin e), [sent, CloseConnection])
           | None \<Rightarrow>
               (case net_receive net of
                  Inl e \<Rightarrow> (Some (ReceiveJoin e), [sent, ReceiveMessage, CloseConnection])
                | Inr ack \<Rightarrow>
                    (case check_join_ack pr p' ack of
                       Some e \<Rightarrow> (Some e, [sent, ReceiveMessage, CloseConnection])
                     | None \<Rightarrow> (None, [sent, ReceiveMessage])))))"

section \<open>What the handshake guarantees\<close>

definition valid_ack :: "protocol \<Rightarrow> message \<Rightarrow> bool" where
  "valid_ack pr ack \<longleftrightarrow>
     m_kind ack = MsgRegisterAck \<and> m_protocol_version ack = protocol_version pr \<and>
     acks_leased_pool pr ack \<and> validate_message pr ack = None"

lemma validate_register_ack_None [simp]: "validate_register_ack pr ack = None \<longleftrightarrow> valid_ack pr ack"
  by (auto simp: validate_register_ack_def valid_ack_def)

lemma check_join_ack_None: "check_join_ack pr p ack = None \<longleftrightarrow>
    valid_ack pr ack \<and> m_session_id ack = session_id p \<and> m_max_connections ack = max_connections p
    \<and> m_subdomain ack = subdomain p"
  by (auto simp: check_join_ack_def split: option.split simp flip: validate_register_ack_None)

text \<open>
  The discipline of the calls on one new connection: nothing before a successful dial; then one
  message is sent, at most one received, and the connection is closed, as the last call,
  exactly when the attempt fails.
\<close>

definition disciplined :: "bool \<Rightarrow> bool \<Rightarrow> message \<Rightarrow> conn_effect list \<Rightarrow> bool" where
  "disciplined dialled ok msg es \<longleftrightarrow>
     (if \<not> dialled then es = [] \<and> \<not> ok
      else \<exists>received. es = SendMessage msg # received @ (if ok then [] else [CloseConnection])
             \<and> set received \<subseteq> {ReceiveMessage} \<and> size received \<le> 1 \<and> (ok \<longrightarrow> received \<noteq> []))"

text \<open>
  C17. Registration succeeds exactly when the server URL does not start with ws://, the dial, the
  send and the receive succeed, and the answer is a register acknowledgement of the client's
  protocol version with the leased-pool capability that its validation accepts; the token
  leaves the client only in the one register message after a successful dial; and every
  failure after the dial closes the connection, once and last.
\<close>

theorem register_control_spec:
  "let (r, es) = register_control pr cfg net;
       plain = prefix ''ws://'' (cfg_server_url cfg)
   in (\<forall>ack. r = Inr ack \<longleftrightarrow> \<not> plain \<and> (\<exists>addr. net_dial net = Inr addr) \<and> net_send net = None
               \<and> net_receive net = Inr ack \<and> valid_ack pr ack)
      \<and> disciplined (\<not> plain \<and> (\<exists>addr. net_dial net = Inr addr)) (\<exists>ack. r = Inr ack)
          (register_message pr cfg) es"
  by (cases "net_dial net"; cases "net_send net"; cases "net_receive net")
    (auto simp: register_control_def disciplined_def Let_def split: option.splits
       simp flip: validate_register_ack_None)

text \<open>
  C18. A connection joins a session exactly when dial, send and receive succeed, the answer is a
  valid acknowledgement, and its session, its connection limit and its subdomain are the
  pool's; any other attempt that dialled closes its connection, once and last.
\<close>

theorem join_session_connection_spec:
  "let (r, es) = join_session_connection pr cfg p p' net;
       dialled = (\<exists>addr. net_dial net = Inr addr)
   in (r = None \<longleftrightarrow> dialled \<and> net_send net = None \<and>
         (\<exists>ack. net_receive net = Inr ack \<and> valid_ack pr ack \<and> m_session_id ack = session_id p'
            \<and> m_max_connections ack = max_connections p' \<and> m_subdomain ack = subdomain p'))
      \<and> disciplined dialled (r = None) (join_message pr cfg p) es"
  by (cases "net_dial net"; cases "net_send net"; cases "net_receive net")
    (auto simp: join_session_connection_def disciplined_def Let_def check_join_ack_None [symmetric]
       split: option.splits)

lemma session_pool_sel [simp]:
  "session_id (session_pool a ack) = m_session_id ack"
  "subdomain (session_pool a ack) = m_subdomain ack"
  "server (session_pool a ack) = a"
  "max_connections (session_pool a ack) = max 1 (granted_max ack)"
  by (auto simp: session_pool_def new_connection_pool_def Let_def max_connections_def)

lemma pool_resize_identity [simp]:
  "session_id (cpool (snd (snd (pool_resize n w)))) = session_id (cpool w)"
  "subdomain (cpool (snd (snd (pool_resize n w)))) = subdomain (cpool w)"
  by (simp_all add: pool_resize_def Let_def case_prod_beta grow_pool_def relocate_control_def
      split: option.split)

text \<open>
  A server that grants more than 32 connections and repeats its grant in every
  acknowledgement gets a pool of 32, and none of its joins is ever accepted: the answer is
  compared with the capped size.
\<close>

lemma grant_above_cap_blocks_joins:
  assumes "m_max_connections ack > max_pool_connections"
    and "m_max_connections join_ack = m_max_connections ack"
    and "net_receive net = Inr join_ack"
  shows "max_connections (session_pool addr ack) = max_pool_connections
    \<and> fst (join_session_connection pr cfg (session_pool addr ack) (session_pool addr ack) net) \<noteq> None"
proof -
  have cap: "max_connections (session_pool addr ack) = max_pool_connections"
    using assms(1) by (simp add: granted_max_def max_pool_connections_def)
  then have "check_join_ack pr (session_pool addr ack) join_ack \<noteq> None"
    using assms(1,2) by (auto simp: check_join_ack_None)
  with cap show ?thesis
    using assms(3)
    by (auto simp: join_session_connection_def Let_def split: sum.splits option.splits)
qed

lemma parse_rest_scheme: "parse_rest rest u = Some v \<Longrightarrow> url_scheme v = url_scheme u"
  by (auto simp: parse_rest_def set_path_def Let_def split: if_splits option.splits prod.splits)

lemma upper_ws_scheme:
  assumes "url_parse (''WS://'' @ rest) = Some u"
  shows "url_scheme u = ''ws''"
proof -
  obtain before frag found where cut: "cut CHR ''#'' rest = (before, frag, found)"
    by (cases "cut CHR ''#'' rest") auto
  have scheme: "get_scheme (''WS://'' @ before) = Some (''WS'', ''//'' @ before)"
    by (simp add: get_scheme_def byte_class_defs)
  have lower: "lower_byte CHR ''W'' = CHR ''w''" "lower_byte CHR ''S'' = CHR ''s''" by code_simp+
  have empty: "url_scheme (empty_url\<lparr>url_scheme := x\<rparr>) = x" for x
    by (simp add: empty_url_def)
  have "url_scheme v = ''ws''" if "parse_no_fragment (''WS://'' @ before) = Some v" for v
    using that unfolding parse_no_fragment_def scheme
    by (auto simp: take_query_def lower empty dest!: parse_rest_scheme split: if_splits prod.splits)
  then show ?thesis
    using assms cut by (auto simp: url_parse_def set_fragment_def split: option.splits if_splits)
qed

text \<open>
  The guard against an unencrypted connection compares bytes, the configuration check
  compares the parsed scheme, which is lower-cased: a server URL like \<open>WS://host/tunnel\<close> that
  the configuration accepts has the scheme ws, yet the guard lets it pass and the register
  message with the token is sent.
\<close>

lemma plaintext_guard_is_case_sensitive:
  assumes "cfg_server_url cfg = ''WS://'' @ rest" and "ws_url (cfg_server_url cfg)"
    and "net_dial net = Inr addr"
  shows "(\<exists>u. url_parse (cfg_server_url cfg) = Some u \<and> url_scheme u = ''ws'')
    \<and> SendMessage (register_message pr cfg) \<in> set (snd (register_control pr cfg net))"
proof -
  have "\<not> prefix ''ws://'' (cfg_server_url cfg)"
    unfolding assms(1) by simp
  moreover have "\<exists>u. url_parse (cfg_server_url cfg) = Some u \<and> url_scheme u = ''ws''"
    using assms(2) upper_ws_scheme unfolding assms(1)
    by (fastforce simp: ws_url_def split: option.splits)
  ultimately show ?thesis
    using assms(3) by (auto simp: register_control_def Let_def split: option.splits sum.splits)
qed

text \<open>A concrete instance of the protocol and of a configuration, for the witnesses.\<close>

definition sample_protocol :: protocol where
  "sample_protocol = \<lparr>protocol_version = 3, cap_leased_pool = 1, validate_message = (\<lambda>_. None),
     clone_headers = (\<lambda>h. h)\<rparr>"

definition sample_env :: environment where
  "sample_env key =
     (if key = ''PLEXTUNNEL_TOKEN'' then ''secret''
      else if key = ''PLEXTUNNEL_SERVER_URL'' then ''WS://example.test/tunnel'' else [])"

definition sample_config :: config where
  "sample_config = initial_config sample_env"

definition sample_ack :: "go_int \<Rightarrow> message" where
  "sample_ack n = (new_message MsgRegisterAck)\<lparr>m_protocol_version := 3, m_capabilities := 1,
     m_session_id := ''s'', m_subdomain := ''d'', m_max_connections := n\<rparr>"

lemma sample_env_trims:
  "trim_space ''secret'' = ''secret''"
  "trim_space ''WS://example.test/tunnel'' = ''WS://example.test/tunnel''"
  by (simp_all add: trim_space_visible visible_def)

lemma sample_env_url: "ws_url ''WS://example.test/tunnel''"
  by code_simp

lemma sample_config_sel:
  "cfg_token sample_config = ''secret''" "cfg_server_url sample_config = ''WS://example.test/tunnel''"
  "cfg_subdomain sample_config = []" "cfg_plex_target sample_config = ''http://127.0.0.1:32400''"
  by (simp_all add: sample_config_def initial_config_def sample_env_def sample_env_trims
      getenv_default_def Let_def)

lemma sample_config_loads: "load_config sample_env (\<lambda>_. None) = Inr sample_config"
proof (rule load_config_complete)
  have blank: "trim_space (sample_env key) = []"
    if "key \<noteq> ''PLEXTUNNEL_TOKEN''" "key \<noteq> ''PLEXTUNNEL_SERVER_URL''" for key
    using that by (simp add: sample_env_def)
  show "config_source sample_env (\<lambda>_. None) sample_config"
    unfolding config_source_def value_from_def sample_config_sel
    by (simp add: blank sample_env_url)
      (simp add: sample_env_def sample_env_trims sample_config_def initial_config_def getenv_default_def Let_def)
qed

lemma plaintext_guard_is_case_sensitive_witness:
  "load_config sample_env (\<lambda>_. None) = Inr sample_config
    \<and> SendMessage (register_message sample_protocol sample_config)
        \<in> set (snd (register_control sample_protocol sample_config
             \<lparr>net_dial = Inr ''1.2.3.4:80'', net_send = None, net_receive = Inl ''closed''\<rparr>))"
proof -
  have "cfg_server_url sample_config = ''WS://'' @ ''example.test/tunnel''"
    and "ws_url (cfg_server_url sample_config)" by (simp_all add: sample_config_sel sample_env_url)
  then show ?thesis
    using sample_config_loads
      plaintext_guard_is_case_sensitive [of sample_config "''example.test/tunnel''"
        "\<lparr>net_dial = Inr ''1.2.3.4:80'', net_send = None, net_receive = Inl ''closed''\<rparr>"
        "''1.2.3.4:80''" sample_protocol] by simp
qed

lemma grant_above_cap_blocks_joins_witness:
  "fst (join_session_connection sample_protocol sample_config (session_pool [] (sample_ack 40))
     (session_pool [] (sample_ack 40))
     \<lparr>net_dial = Inr [], net_send = None, net_receive = Inr (sample_ack 40)\<rparr>) \<noteq> None"
  using grant_above_cap_blocks_joins [of "sample_ack 40" "sample_ack 40"
      "\<lparr>net_dial = Inr [], net_send = None, net_receive = Inr (sample_ack 40)\<rparr>" "[]"]
  by (simp add: sample_ack_def max_pool_connections_def)

end
