(* ===== verification/KeepAlive.thy ===== *)
theory KeepAlive
  imports Tunnel Config Pool Handshake
begin

text \<open>
  pingLoop of pkg/client/client.go, the goroutine that watches one connection. It shares the
  connection's \<open>lastPong\<close> with the read loop that stores it, and, on the control connection,
  the session's counter of consecutive failures, which the read loop resets; what the read loop
  does meanwhile are events between the ticks.
\<close>

definition control_keepalive_failure_threshold :: go_int where
  "control_keepalive_failure_threshold = 3"

record keepalive =
  ka_last_pong :: go_int
  ka_failures :: go_int
  ka_observed :: go_int

datatype keepalive_event =
    Tick instant "string option" \<comment> \<open>the clock, and the error of the ping's Send\<close>
  | PongStored instant
  | FailuresReset
  | ContextCancelled

datatype loop_result = Running | Returned "client_error option" | Panicked

definition disconnect_after :: "config \<Rightarrow> duration" where
  "disconnect_after cfg = wrap64 (cfg_ping_interval cfg + cfg_pong_timeout cfg)"

text \<open>
  One tick. \<open>control\<close> says whether the loop was given the failure counter. The result is the
  error the loop returns with, if it does.
\<close>

definition ping_tick ::
  "bool \<Rightarrow> config \<Rightarrow> instant \<Rightarrow> string option \<Rightarrow> keepalive \<Rightarrow> client_error option \<times> keepalive" where
  "ping_tick control cfg now send st =
     (let current = ka_last_pong st;
          st = (if current \<noteq> ka_observed st
                then st\<lparr>ka_observed := current, ka_failures := (if control then 0 else ka_failures st)\<rparr>
                else st);
          late = (time_sub now current > disconnect_after cfg);
          st' = (if late \<and> control then st\<lparr>ka_failures := wrap32 (ka_failures st + 1)\<rparr> else st)
      in if late \<and> \<not> control then (Some PongTimeout, st')
         else if late \<and> ka_failures st' \<ge> control_keepalive_failure_threshold
           then (Some (ControlPongTimeout (ka_failures st')), st')
         else (map_option SendPingFailed send, st'))"

fun keepalive_step :: "bool \<Rightarrow> config \<Rightarrow> keepalive_event \<Rightarrow> keepalive \<Rightarrow> loop_result \<times> keepalive" where
  "keepalive_step control cfg (Tick now send) st =
     (case ping_tick control cfg now send st of
        (Some e, st') \<Rightarrow> (Returned (Some e), st') | (None, st') \<Rightarrow> (Running, st'))"
| "keepalive_step control cfg (PongStored now) st = (Running, st\<lparr>ka_last_pong := unix_nano now\<rparr>)"
| "keepalive_step control cfg FailuresReset st = (Running, st\<lparr>ka_failures := 0\<rparr>)"
| "keepalive_step control cfg ContextCancelled st = (Returned None, st)"

fun keepalive_run :: "bool \<Rightarrow> config \<Rightarrow> keepalive_event list \<Rightarrow> keepalive \<Rightarrow> loop_result \<times> keepalive" where
  "keepalive_run control cfg [] st = (Running, st)"
| "keepalive_run control cfg (e # es) st =
     (case keepalive_step control cfg e st of
        (Running, st') \<Rightarrow> keepalive_run control cfg es st'
      | (r, st') \<Rightarrow> (r, st'))"

text \<open>
  \<open>time.NewTicker\<close> panics on an interval that is not positive; then the loop remembers the
  stored pong.
\<close>

definition ping_loop ::
  "bool \<Rightarrow> config \<Rightarrow> keepalive_event list \<Rightarrow> keepalive \<Rightarrow> loop_result \<times> keepalive" where
  "ping_loop control cfg es st =
     (if cfg_ping_interval cfg \<le> 0 then (Panicked, st)
      else keepalive_run control cfg es (st\<lparr>ka_observed := ka_last_pong st\<rparr>))"

text \<open>
  The start of a keepalive (startPoolPingLoop, startConnPingLoop): the pong is taken as just
  received and, on the control connection, the counter is zeroed.
\<close>

definition start_keepalive :: "bool \<Rightarrow> instant \<Rightarrow> go_int \<Rightarrow> keepalive" where
  "start_keepalive control now failures =
     \<lparr>ka_last_pong = unix_nano now, ka_failures = (if control then 0 else failures),
      ka_observed = unix_nano now\<rparr>"

section \<open>When a silent connection is given up\<close>

definition silent :: "keepalive_event list \<Rightarrow> bool" where
  "silent es \<longleftrightarrow> (\<forall>e \<in> set es. \<exists>t. e = Tick t None)"

definition late_at :: "config \<Rightarrow> go_int \<Rightarrow> keepalive_event \<Rightarrow> bool" where
  "late_at cfg p e = (case e of Tick t _ \<Rightarrow> time_sub t p > disconnect_after cfg | _ \<Rightarrow> False)"

definition late_ticks :: "config \<Rightarrow> go_int \<Rightarrow> keepalive_event list \<Rightarrow> nat" where
  "late_ticks cfg p es = size (filter (late_at cfg p) es)"

lemma late_ticks_simps [simp]:
  "late_ticks cfg p [] = 0"
  "late_ticks cfg p (e # es) = (if late_at cfg p e then Suc (late_ticks cfg p es) else late_ticks cfg p es)"
  by (simp_all add: late_ticks_def)

lemma silent_simps [simp]:
  "silent []" "silent (e # es) \<longleftrightarrow> (\<exists>t. e = Tick t None) \<and> silent es"
  by (auto simp: silent_def)

lemma data_silent_run:
  assumes "silent es" and "ka_observed st = ka_last_pong st"
  shows "fst (keepalive_run False cfg es st) =
    (if late_ticks cfg (ka_last_pong st) es = 0 then Running else Returned (Some PongTimeout))"
  using assms
  by (induction es arbitrary: st) (auto simp: ping_tick_def Let_def late_at_def)

lemma control_silent_run:
  assumes "silent es" and "ka_observed st = ka_last_pong st"
    and "0 \<le> ka_failures st" and "ka_failures st < 3"
  shows "fst (keepalive_run True cfg es st) =
    (if ka_failures st + int (late_ticks cfg (ka_last_pong st) es) < 3 then Running
     else Returned (Some (ControlPongTimeout 3)))"
  using assms
proof (induction es arbitrary: st)
  case (Cons e es)
  then obtain t where e: "e = Tick t None" by auto
  show ?case
  proof (cases "late_at cfg (ka_last_pong st) e")
    case False
    then have "keepalive_step True cfg e st = (Running, st)"
      using Cons.prems(2) by (simp add: e ping_tick_def Let_def late_at_def)
    then show ?thesis using Cons False by simp
  next
    case True
    let ?st = "st\<lparr>ka_failures := ka_failures st + 1\<rparr>"
    have wrap: "wrap32 (ka_failures st + 1) = ka_failures st + 1"
      using Cons.prems(3,4) by (intro wrap32_id) auto
    have "ping_tick True cfg t None st =
        (if ka_failures st + 1 \<ge> 3 then (Some (ControlPongTimeout (ka_failures st + 1)), ?st) else (None, ?st))"
      using True Cons.prems(2)
      by (simp add: e ping_tick_def Let_def late_at_def wrap control_keepalive_failure_threshold_def)
    moreover have "ka_failures st + 1 = 3" if "ka_failures st + 1 \<ge> 3" using that Cons.prems(4) by simp
    ultimately show ?thesis
      using Cons.IH [of ?st] Cons.prems True by (auto simp: e)
  qed
qed simp

text \<open>
  On a connection from which no pong arrives, a data connection's loop ends at the first
  tick later than the ping interval plus the pong timeout after the last pong; the control
  connection's loop tolerates two such ticks and ends at the third. Before that the loops run
  on, and the control loop counts from zero whatever the session's counter was.
\<close>

lemma keepalive_detects_silence:
  assumes "0 < cfg_ping_interval cfg" and "silent es"
  shows "fst (ping_loop False cfg es (start_keepalive False now n)) =
      (if late_ticks cfg (unix_nano now) es < 1 then Running else Returned (Some PongTimeout))
    \<and> fst (ping_loop True cfg es (start_keepalive True now n)) =
      (if late_ticks cfg (unix_nano now) es < 3 then Running else Returned (Some (ControlPongTimeout 3)))"
  using assms data_silent_run [of es "start_keepalive False now n" cfg]
    control_silent_run [of es "start_keepalive True now n" cfg]
  by (simp_all add: ping_loop_def start_keepalive_def)

lemma keepalive_detects_silence_witness:
  "let cfg = sample_config;
       es = map (\<lambda>i. Tick (int i * 30 * second) None) [1..<6]
   in fst (ping_loop True cfg es (start_keepalive True 0 7)) = Returned (Some (ControlPongTimeout 3))"
proof -
  let ?es = "map (\<lambda>i. Tick (int i * 30 * second) None) [1..<6]"
  have cfg: "cfg_ping_interval sample_config = 30 * second" "disconnect_after sample_config = 40 * second"
    by (simp_all add: sample_config_def initial_config_def disconnect_after_def wrap64_def unit_defs)
  have "late_ticks sample_config (unix_nano 0) ?es = 4"
    by (simp add: upt_rec late_at_def cfg unit_defs unix_nano_def wrap64_def time_sub_def
        min_int64_def max_int64_def)
  then show ?thesis
    using keepalive_detects_silence [of sample_config ?es 0 7] by (simp add: cfg unit_defs silent_def Let_def)
qed

text \<open>
  The silent ticks of a ticker started at \<open>now\<close>: the \<open>i\<close>-th one comes \<open>i\<close> intervals later.
\<close>

definition ticks_from :: "config \<Rightarrow> instant \<Rightarrow> nat \<Rightarrow> keepalive_event list" where
  "ticks_from cfg now n = map (\<lambda>i. Tick (now + int i * cfg_ping_interval cfg) None) [1..<Suc n]"

lemma ticks_from_silent: "silent (ticks_from cfg now n)"
  by (auto simp: silent_def ticks_from_def)

lemma late_ticks_from:
  assumes "0 < cfg_ping_interval cfg" and "0 \<le> cfg_pong_timeout cfg"
    and "in_int64 now" and "int n * cfg_ping_interval cfg < max_int64"
    and "cfg_ping_interval cfg + cfg_pong_timeout cfg < max_int64"
  shows "late_ticks cfg (unix_nano now) (ticks_from cfg now n)
    = n - (1 + nat (cfg_pong_timeout cfg div cfg_ping_interval cfg))"
  using assms(4)
proof (induction n)
  case (Suc n)
  let ?I = "cfg_ping_interval cfg" and ?T = "cfg_pong_timeout cfg"
  have less: "int n * ?I < max_int64"
    using Suc.prems assms(1) by (simp add: distrib_right)
  have now: "unix_nano now = now" and after: "disconnect_after cfg = ?I + ?T"
    using assms(1,2,3,5) by (simp_all add: unix_nano_def disconnect_after_def wrap64_id in_int64_def min_int64_def)
  have "0 \<le> int (Suc n) * ?I" using assms(1) by simp
  then have sub: "time_sub (now + int (Suc n) * ?I) now = int (Suc n) * ?I"
    using Suc.prems by (subst time_sub_exact) (auto simp: in_int64_def min_int64_def simp del: of_nat_Suc)
  have "?I + ?T < int (Suc n) * ?I \<longleftrightarrow> ?T < int n * ?I"
    by (simp add: distrib_right)
  also have "\<dots> \<longleftrightarrow> ?T div ?I < int n"
    using assms(1) by (rule less_mult_iff_div_less)
  finally have late: "late_at cfg (unix_nano now) (Tick (now + int (Suc n) * ?I) None)
      \<longleftrightarrow> nat (?T div ?I) < n"
    using assms(1,2)
    by (simp add: late_at_def now after sub pos_imp_zdiv_nonneg_iff nat_less_iff del: of_nat_Suc)
  have "ticks_from cfg now (Suc n) = ticks_from cfg now n @ [Tick (now + int (Suc n) * ?I) None]"
    by (simp add: ticks_from_def)
  then show ?case
    using Suc.IH [OF less] late by (auto simp: late_ticks_def)
qed (simp add: ticks_from_def)

text \<open>
  C19. How long a silent connection lasts: with a ticker of interval \<open>I\<close> and a pong timeout
  \<open>T\<close>, a data connection is given up at tick \<open>2 + T div I\<close> and the control connection two
  ticks later, and not before.
\<close>

theorem keepalive_detection_time:
  assumes "0 < cfg_ping_interval cfg" and "0 \<le> cfg_pong_timeout cfg"
    and "in_int64 now" and "int n * cfg_ping_interval cfg < max_int64"
    and "cfg_ping_interval cfg + cfg_pong_timeout cfg < max_int64"
  defines "k \<equiv> nat (cfg_pong_timeout cfg div cfg_ping_interval cfg)"
  shows "(fst (ping_loop False cfg (ticks_from cfg now n) (start_keepalive False now f)) = Running
        \<longleftrightarrow> n < 2 + k)
    \<and> (fst (ping_loop True cfg (ticks_from cfg now n) (start_keepalive True now f)) = Running
        \<longleftrightarrow> n < 4 + k)"
  using late_ticks_from [OF assms(1-5)] assms(1) ticks_from_silent [of cfg now n]
    data_silent_run [of "ticks_from cfg now n" "start_keepalive False now f" cfg]
    control_silent_run [of "ticks_from cfg now n" "start_keepalive True now f" cfg]
  by (auto simp: ping_loop_def start_keepalive_def k_def)

theorem keepalive_detection_time_witness:
  "(fst (ping_loop True sample_config (ticks_from sample_config 0 3) (start_keepalive True 0 0)) = Running)
   \<and> (fst (ping_loop True sample_config (ticks_from sample_config 0 4) (start_keepalive True 0 0)) \<noteq> Running)"
proof -
  have cfg: "cfg_ping_interval sample_config = 30 * second" "cfg_pong_timeout sample_config = 10 * second"
    by (simp_all add: sample_config_def initial_config_def)
  show ?thesis
    using keepalive_detection_time [of sample_config 0 3 0] keepalive_detection_time [of sample_config 0 4 0]
    by (simp add: cfg unit_defs in_int64_iff max_int64_def)
qed

fun pong_within :: "config \<Rightarrow> go_int \<Rightarrow> keepalive_event list \<Rightarrow> bool" where
  "pong_within cfg p [] = True"
| "pong_within cfg p (Tick t s # es) =
     (s = None \<and> time_sub t p \<le> disconnect_after cfg \<and> pong_within cfg p es)"
| "pong_within cfg p (PongStored t # es) = pong_within cfg (unix_nano t) es"
| "pong_within cfg p (FailuresReset # es) = pong_within cfg p es"
| "pong_within cfg p (ContextCancelled # es) = False"

text \<open>
  C20. A responsive connection is never given up: as long as every tick comes within the
  deadline after the latest pong stored before it, and the pings can be sent, neither loop
  ends, whatever the read loop does to the counter.
\<close>

theorem keepalive_keeps_responsive:
  assumes "pong_within cfg (ka_last_pong st) es"
  shows "fst (keepalive_run control cfg es st) = Running"
  using assms
proof (induction es arbitrary: st)
  case (Cons e es)
  show ?case
  proof (cases e)
    case (Tick t s)
    then obtain st' where "keepalive_step control cfg e st = (Running, st')" and "ka_last_pong st' = ka_last_pong st"
      using Cons.prems by (simp add: ping_tick_def Let_def)
    then show ?thesis using Cons.IH [of st'] Cons.prems Tick by simp
  qed (use Cons in auto)
qed simp

theorem keepalive_keeps_responsive_witness:
  "fst (keepalive_run True sample_config
     [Tick (30 * second) None, PongStored (31 * second), FailuresReset, Tick (60 * second) None]
     (start_keepalive True 0 2)) = Running"
proof -
  have cfg: "disconnect_after sample_config = 40 * second"
    by (simp add: sample_config_def initial_config_def disconnect_after_def wrap64_def unit_defs)
  show ?thesis
    by (rule keepalive_keeps_responsive)
      (simp add: cfg unit_defs start_keepalive_def unix_nano_def wrap64_def time_sub_def
        min_int64_def max_int64_def)
qed

text \<open>
  A PLEXTUNNEL_PING_INTERVAL that parses to zero or a negative duration is accepted by
  LoadConfig, and the first ping loop started with that configuration panics.
\<close>

lemma nonpositive_ping_interval_panics:
  assumes "load_config env pd = Inr cfg"
    and "trim_space (env ''PLEXTUNNEL_PING_INTERVAL'') \<noteq> []"
    and "pd (trim_space (env ''PLEXTUNNEL_PING_INTERVAL'')) = Some d" and "d \<le> 0"
  shows "fst (ping_loop control cfg es (start_keepalive control now n)) = Panicked"
proof -
  have "value_from env ''PLEXTUNNEL_PING_INTERVAL'' (30 * second) pd (cfg_ping_interval cfg)"
    using load_config_sound [OF assms(1)] unfolding config_source_def by blast
  then show ?thesis
    using assms(2-4) by (simp add: value_from_def ping_loop_def)
qed

definition zero_ping_env :: environment where
  "zero_ping_env key = (if key = ''PLEXTUNNEL_PING_INTERVAL'' then ''0s'' else sample_env key)"

lemma nonpositive_ping_interval_panics_witness:
  "load_config zero_ping_env (\<lambda>s. if s = ''0s'' then Some 0 else None)
     = Inr (sample_config\<lparr>cfg_ping_interval := 0\<rparr>)
   \<and> fst (ping_loop True (sample_config\<lparr>cfg_ping_interval := 0\<rparr>) [] (start_keepalive True 0 0)) = Panicked"
proof -
  let ?pd = "\<lambda>s. if s = ''0s'' then Some 0 else None"
  have trim: "trim_space ''0s'' = ''0s''" by (simp add: trim_space_visible visible_def)
  have src: "config_source sample_env (\<lambda>_. None) sample_config"
    by (rule load_config_sound) (rule sample_config_loads)
  have other: "zero_ping_env key = sample_env key" if "key \<noteq> ''PLEXTUNNEL_PING_INTERVAL''" for key
    using that by (simp add: zero_ping_env_def)
  have blank: "trim_space (sample_env key) = []"
    if "key \<noteq> ''PLEXTUNNEL_TOKEN''" "key \<noteq> ''PLEXTUNNEL_SERVER_URL''" for key
    using that by (simp add: sample_env_def)
  have env: "zero_ping_env ''PLEXTUNNEL_PING_INTERVAL'' = ''0s''" by (simp add: zero_ping_env_def)
  have "config_source zero_ping_env ?pd (sample_config\<lparr>cfg_ping_interval := 0\<rparr>)"
    using src unfolding config_source_def value_from_def
    by (auto simp: other env trim blank)
  then have load: "load_config zero_ping_env ?pd = Inr (sample_config\<lparr>cfg_ping_interval := 0\<rparr>)"
    by (rule load_config_complete)
  show ?thesis
    using load nonpositive_ping_interval_panics [OF load, of 0 True "[]" 0 0] by (simp add: env trim)
qed

end
