(* ===== verification/Proxy.thy ===== *)
theory Proxy
  imports Handshake Circuit Target
begin

text \<open>
  handleHTTPRequest and sendProxyError of pkg/client/client.go: one proxied request, from the
  message the tunnel delivered to the last frame of the answer. The upstream server, the clock
  and the tunnel's Send are a script, the record \<open>upstream\<close>; the handler's calls on the
  circuit breaker, the frames it sends and the responses it counts are its state. The last section
  lets the handlers of several requests run at the same time against the breaker they share.
\<close>

section \<open>The outside world of one request\<close>

datatype read_error = NoError | EndOfBody | ReadFailed bool \<comment> \<open>is or wraps the proxy timeout\<close>

text \<open>
  What one iteration of the body loop gets: the bytes and the error of a Read, or, when the
  body is not an event stream, the timeout that the select took instead.
\<close>

datatype body_read = BodyRead string read_error | BodyTimeout

record upstream_response =
  resp_status :: go_int
  resp_headers :: headers
  resp_reads :: "body_read list"

datatype do_outcome =
    DoFailed bool bool \<comment> \<open>the error is the proxy timeout; the cause of the context is\<close>
  | DoResponse upstream_response

record upstream =
  up_do :: do_outcome
  up_send :: "nat \<Rightarrow> string option" \<comment> \<open>the error of the n-th Send\<close>
  up_cause_timeout :: bool \<comment> \<open>the context's cause is the timeout when a Read fails\<close>
  up_allow_at :: instant
  up_record_at :: instant

text \<open>The request that is handed to the HTTP client.\<close>

record out_request =
  rq_method :: string
  rq_url :: string
  rq_headers :: "(string \<times> string) list"
  rq_body :: string

record proxy_state =
  ps_breaker :: circuit_breaker
  ps_sent :: "message list" \<comment> \<open>the frames handed to Send\<close>
  ps_observed :: "go_int list" \<comment> \<open>the statuses counted by observeProxyResponse\<close>
  ps_requests :: "out_request list" \<comment> \<open>the requests handed to client.Do\<close>

datatype proxy_error = RequestWithoutId | SendProxyError string | ReadBodyTimeout | ReadBodyFailed
  | SendChunk string | SendFinal string

datatype proxy_result = StillReading | Finished "proxy_error option"

section \<open>Requests\<close>

definition dropped_headers :: "string list" where
  "dropped_headers = [''Host'', ''Connection'', ''Keep-Alive'', ''Proxy-Authorization'',
     ''Proxy-Connection'', ''Te'', ''Trailer'', ''Transfer-Encoding'', ''Upgrade'']"

definition forward_headers :: "headers \<Rightarrow> (string \<times> string) list" where
  "forward_headers hs =
     concat (List.map (\<lambda>(key, values).
       if canonical_header_key key \<in> set dropped_headers then []
       else List.map (\<lambda>v. (canonical_header_key key, v)) values) hs)"

text \<open>
  \<open>http.NewRequestWithContext\<close> fails on a method that is not a token (an empty one is GET)
  and on a URL that does not parse.
\<close>

definition new_request_ok :: "string \<Rightarrow> string \<Rightarrow> bool" where
  "new_request_ok method target \<longleftrightarrow> (\<forall>c \<in> set method. token_byte c) \<and> url_parse target \<noteq> None"

definition new_request :: "message \<Rightarrow> string \<Rightarrow> out_request" where
  "new_request msg target =
     \<lparr>rq_method = (if m_method msg = [] then ''GET'' else m_method msg), rq_url = target,
      rq_headers = forward_headers (m_headers msg), rq_body = m_body msg\<rparr>"

definition header_get :: "string \<Rightarrow> headers \<Rightarrow> string" where
  "header_get key hs =
     (case find (\<lambda>(k, vs). k = key) hs of
        Some (_, v # _) \<Rightarrow> v | _ \<Rightarrow> [])"

definition is_event_stream_content_type :: "string \<Rightarrow> bool" where
  "is_event_stream_content_type ct \<longleftrightarrow> prefix ''text/event-stream'' (to_lower (trim_space ct))"

section \<open>Frames\<close>

definition send :: "upstream \<Rightarrow> message \<Rightarrow> proxy_state \<Rightarrow> string option \<times> proxy_state" where
  "send up m st = (up_send up (size (ps_sent st)), st\<lparr>ps_sent := ps_sent st @ [m]\<rparr>)"

definition observe_proxy_response :: "go_int \<Rightarrow> proxy_state \<Rightarrow> proxy_state" where
  "observe_proxy_response status st = st\<lparr>ps_observed := ps_observed st @ [status]\<rparr>"

definition error_message :: "string \<Rightarrow> go_int \<Rightarrow> string \<Rightarrow> message" where
  "error_message request_id status text =
     (new_message MsgHTTPResponse)\<lparr>m_id := request_id, m_status := status,
        m_headers := [(''Content-Type'', [''text/plain; charset=utf-8''])],
        m_body := text, m_end_stream := True\<rparr>"

definition send_proxy_error ::
  "upstream \<Rightarrow> string \<Rightarrow> go_int \<Rightarrow> string \<Rightarrow> proxy_state \<Rightarrow> proxy_result \<times> proxy_state" where
  "send_proxy_error up request_id status text st =
     (case send up (error_message request_id status text) st of
        (Some e, st) \<Rightarrow> (Finished (Some (SendProxyError e)), st)
      | (None, st) \<Rightarrow> (Finished None, observe_proxy_response status st))"

text \<open>The status and the headers go with the first frame of a response.\<close>

definition with_head :: "protocol \<Rightarrow> upstream_response \<Rightarrow> bool \<Rightarrow> message \<Rightarrow> message" where
  "with_head pr resp sent m =
     (if sent then m
      else m\<lparr>m_status := resp_status resp, m_headers := clone_headers pr (resp_headers resp)\<rparr>)"

definition chunk_message :: "protocol \<Rightarrow> upstream_response \<Rightarrow> string \<Rightarrow> bool \<Rightarrow> string \<Rightarrow> message" where
  "chunk_message pr resp request_id sent data =
     with_head pr resp sent ((new_message MsgHTTPResponse)\<lparr>m_id := request_id, m_body := data\<rparr>)"

definition final_message :: "protocol \<Rightarrow> upstream_response \<Rightarrow> string \<Rightarrow> bool \<Rightarrow> message" where
  "final_message pr resp request_id sent =
     with_head pr resp sent ((new_message MsgHTTPResponse)\<lparr>m_id := request_id, m_end_stream := True\<rparr>)"

section \<open>Breaker bookkeeping\<close>

definition upstream_failure :: "upstream_response \<Rightarrow> bool" where
  "upstream_failure resp \<longleftrightarrow> resp_status resp < 200 \<or> resp_status resp \<ge> 300"

definition record_failure :: "upstream \<Rightarrow> proxy_state \<Rightarrow> proxy_state" where
  "record_failure up st = st\<lparr>ps_breaker := cb_record_failure (up_record_at up) (ps_breaker st)\<rparr>"

definition record_response :: "upstream \<Rightarrow> upstream_response \<Rightarrow> proxy_state \<Rightarrow> proxy_state" where
  "record_response up resp st =
     (if upstream_failure resp then record_failure up st
      else st\<lparr>ps_breaker := cb_record_success (ps_breaker st)\<rparr>)"

section \<open>The handler\<close>

definition send_final ::
  "protocol \<Rightarrow> upstream \<Rightarrow> upstream_response \<Rightarrow> string \<Rightarrow> bool \<Rightarrow> proxy_state
   \<Rightarrow> proxy_result \<times> proxy_state" where
  "send_final pr up resp request_id sent st =
     (case send up (final_message pr resp request_id sent) st of
        (Some e, st) \<Rightarrow> (Finished (Some (SendFinal e)), record_response up resp st)
      | (None, st) \<Rightarrow>
          (Finished None, observe_proxy_response (resp_status resp) (record_response up resp st)))"

text \<open>
  The body loop; \<open>sse\<close> is the event-stream exemption, under which no timeout is looked at.
  With no further read scripted the handler is still waiting.
\<close>

fun stream_body ::
  "protocol \<Rightarrow> upstream \<Rightarrow> upstream_response \<Rightarrow> string \<Rightarrow> bool \<Rightarrow> body_read list \<Rightarrow> bool
   \<Rightarrow> proxy_state \<Rightarrow> proxy_result \<times> proxy_state" where
  "stream_body pr up resp request_id sse [] sent st = (StillReading, st)"
| "stream_body pr up resp request_id sse (BodyTimeout # reads) sent st =
     (if sse then stream_body pr up resp request_id sse reads sent st
      else (Finished (Some ReadBodyTimeout), st))"
| "stream_body pr up resp request_id sse (BodyRead data err # reads) sent st =
     (let (failed, sent, st) =
            (if data = [] then (None, sent, st)
             else case send up (chunk_message pr resp request_id sent data) st of
                    (e, st) \<Rightarrow> (e, True, st))
      in case failed of
           Some e \<Rightarrow> (Finished (Some (SendChunk e)), record_response up resp st)
         | None \<Rightarrow>
             (case err of
                EndOfBody \<Rightarrow> send_final pr up resp request_id sent st
              | ReadFailed timeout \<Rightarrow>
                  (Finished (Some ReadBodyFailed),
                   if timeout \<or> up_cause_timeout up then st else record_failure up st)
              | NoError \<Rightarrow> stream_body pr up resp request_id sse reads sent st))"

text \<open>The checks before the upstream is asked, the last of which is the circuit breaker's.\<close>

datatype admission = WithoutId | Refused go_int string | Admitted string

definition admit_request ::
  "config \<Rightarrow> upstream \<Rightarrow> message \<Rightarrow> circuit_breaker \<Rightarrow> admission \<times> circuit_breaker" where
  "admit_request cfg up msg b =
     (if m_id msg = [] then (WithoutId, b)
      else if m_method msg = [] \<and> m_path msg = [] then
        (Refused 501 ''streaming requests not supported'', b)
      else case resolve_target_url (cfg_plex_target cfg) (m_path msg) of
        Inl _ \<Rightarrow> (Refused 502 ''bad gateway'', b)
      | Inr target \<Rightarrow>
          if \<not> new_request_ok (m_method msg) target then (Refused 502 ''bad gateway'', b)
          else case cb_allow (up_allow_at up) b of
            (False, b) \<Rightarrow> (Refused 503 ''upstream temporarily unavailable'', b)
          | (True, b) \<Rightarrow> (Admitted target, b))"

text \<open>From the call of \<open>client.Do\<close> on.\<close>

definition upstream_exchange ::
  "protocol \<Rightarrow> upstream \<Rightarrow> message \<Rightarrow> proxy_state \<Rightarrow> proxy_result \<times> proxy_state" where
  "upstream_exchange pr up msg st =
     (case up_do up of
        DoFailed is_timeout cause_timeout \<Rightarrow>
          send_proxy_error up (m_id msg) 502 ''upstream unavailable''
            (if is_timeout \<or> cause_timeout then st else record_failure up st)
      | DoResponse resp \<Rightarrow>
          stream_body pr up resp (m_id msg)
            (is_event_stream_content_type (header_get ''Content-Type'' (resp_headers resp)))
            (resp_reads resp) False st)"

definition handle_http_request ::
  "protocol \<Rightarrow> config \<Rightarrow> upstream \<Rightarrow> message \<Rightarrow> proxy_state \<Rightarrow> proxy_result \<times> proxy_state" where
  "handle_http_request pr cfg up msg st =
     (case admit_request cfg up msg (ps_breaker st) of
        (WithoutId, b) \<Rightarrow> (Finished (Some RequestWithoutId), st)
      | (Refused status text, b) \<Rightarrow> send_proxy_error up (m_id msg) status text (st\<lparr>ps_breaker := b\<rparr>)
      | (Admitted target, b) \<Rightarrow>
          upstream_exchange pr up msg
            (st\<lparr>ps_breaker := b, ps_requests := ps_requests st @ [new_request msg target]\<rparr>))"

section \<open>Headers that stay local\<close>

lemma lower_byte_idem [simp]: "lower_byte (lower_byte c) = lower_byte c"
  by (auto simp: lower_byte_def byte_class_defs)

lemma is_upper_code: "is_upper c \<Longrightarrow> (code c + 32) mod 256 = code c + 32"
  by (auto simp: is_upper_def)

lemma lower_code: "code (lower_byte c) = (if is_upper c then code c + 32 else code c)"
  by (simp add: lower_byte_def is_upper_code)

lemma char_eq_code: "(c :: char) = d \<longleftrightarrow> code c = code d"
  by simp

lemma upper_lower_byte [simp]: "upper_byte (lower_byte c) = upper_byte c"
proof (cases "is_upper c")
  case True
  then have "is_lower (lower_byte c)" "\<not> is_lower c"
    by (auto simp: is_lower_def is_upper_def lower_code)
  then show ?thesis using True by (simp add: upper_byte_def lower_code)
qed (simp add: lower_byte_def)

lemma lower_byte_hyphen [simp]: "lower_byte c = CHR ''-'' \<longleftrightarrow> c = CHR ''-''"
  by (auto simp: char_eq_code lower_code is_upper_def simp del: of_char_eq_iff)

lemma token_byte_lower [simp]: "token_byte (lower_byte c) = token_byte c"
proof (cases "is_upper c")
  case True
  then have "is_alnum c" "is_alnum (lower_byte c)"
    by (auto simp: byte_class_defs lower_code)
  then show ?thesis by (simp add: token_byte_def)
qed (simp add: lower_byte_def)

lemma canonical_bytes_lower: "canonical_bytes up (map lower_byte s) = canonical_bytes up s"
  by (induction s arbitrary: up) auto

lemma canonical_lower:
  assumes "\<forall>c \<in> set key. token_byte c" and "map lower_byte key = map lower_byte name"
  shows "canonical_header_key key = canonical_bytes True name"
  using assms canonical_bytes_lower [of True key] canonical_bytes_lower [of True name]
  by (simp add: canonical_header_key_def)

lemma token_bytes_lower: "map lower_byte key = map lower_byte name \<Longrightarrow>
    (\<forall>c \<in> set key. token_byte c) \<longleftrightarrow> (\<forall>c \<in> set name. token_byte c)"
proof -
  assume "map lower_byte key = map lower_byte name"
  then have "(\<forall>c \<in> set (map lower_byte key). token_byte c) = (\<forall>c \<in> set (map lower_byte name). token_byte c)"
    by simp
  then show ?thesis by simp
qed

lemma dropped_headers_canonical:
  "name \<in> set dropped_headers \<Longrightarrow> (\<forall>c \<in> set name. token_byte c) \<and> canonical_bytes True name = name"
proof -
  have "\<forall>name \<in> set dropped_headers. (\<forall>c \<in> set name. token_byte c) \<and> canonical_bytes True name = name"
    by code_simp
  then show "name \<in> set dropped_headers \<Longrightarrow> ?thesis" by blast
qed

text \<open>
  Host and the hop-by-hop headers never reach the upstream server, in whatever case the
  tunnel spells them; every value of every other header is forwarded, under its canonical key,
  and nothing else is.
\<close>

lemma hop_by_hop_headers_dropped:
  "(k, v) \<in> set (forward_headers hs) \<longleftrightarrow>
     (\<exists>key values. (key, values) \<in> set hs \<and> v \<in> set values \<and> k = canonical_header_key key
        \<and> (\<forall>name \<in> set dropped_headers. map lower_byte key \<noteq> map lower_byte name))"
proof -
  have "canonical_header_key key \<in> set dropped_headers \<longleftrightarrow>
      (\<exists>name \<in> set dropped_headers. map lower_byte key = map lower_byte name)" for key
  proof
    assume d: "canonical_header_key key \<in> set dropped_headers"
    have lower: "map lower_byte (canonical_bytes up s) = map lower_byte s" for up s
    proof (induction s arbitrary: up)
      case (Cons c s)
      have "lower_byte (upper_byte c) = lower_byte c"
        by (auto simp: upper_byte_def lower_byte_def byte_class_defs)
      then show ?case using Cons by simp
    qed simp
    then have "map lower_byte (canonical_header_key key) = map lower_byte key"
      by (simp add: canonical_header_key_def)
    then show "\<exists>name \<in> set dropped_headers. map lower_byte key = map lower_byte name"
      using d by metis
  next
    assume "\<exists>name \<in> set dropped_headers. map lower_byte key = map lower_byte name"
    then obtain name where n: "name \<in> set dropped_headers" "map lower_byte key = map lower_byte name"
      by blast
    then have "\<forall>c \<in> set key. token_byte c"
      using token_bytes_lower [OF n(2)] dropped_headers_canonical [OF n(1)] by blast
    then show "canonical_header_key key \<in> set dropped_headers"
      using canonical_lower [OF _ n(2)] dropped_headers_canonical [OF n(1)] n(1) by simp
  qed
  then show ?thesis
    by (auto simp: forward_headers_def split: if_splits)
qed

lemma hop_by_hop_headers_dropped_witness:
  "(''X-Plex-Token'', ''t'') \<in> set (forward_headers [(''x-plex-token'', [''t'']), (''cONNECTION'', [''close''])])
   \<and> (''Connection'', ''close'') \<notin> set (forward_headers [(''x-plex-token'', [''t'']), (''cONNECTION'', [''close''])])"
proof -
  let ?kept = "\<lambda>key. \<forall>name \<in> set dropped_headers. map lower_byte key \<noteq> map lower_byte name"
  have key: "''X-Plex-Token'' = canonical_header_key ''x-plex-token''" by code_simp
  have kept: "?kept ''x-plex-token''" and dropped: "\<not> ?kept ''cONNECTION''" by code_simp+
  have close: "\<not> (v = ''close'' \<and> v \<in> set [''t''])" for v by simp
  show ?thesis
  proof
    show "(''X-Plex-Token'', ''t'') \<in> set (forward_headers [(''x-plex-token'', [''t'']), (''cONNECTION'', [''close''])])"
      unfolding hop_by_hop_headers_dropped
      by (intro exI [of _ "''x-plex-token''"] exI [of _ "[''t'']"] conjI key kept) simp_all
    show "(''Connection'', ''close'') \<notin> set (forward_headers [(''x-plex-token'', [''t'']), (''cONNECTION'', [''close''])])"
      unfolding hop_by_hop_headers_dropped using dropped
      by (elim contrapos_nn exE conjE) (auto simp del: list.map)
  qed
qed

section \<open>The frames of a response\<close>

text \<open>The chunks a body is read in, up to the end of the body.\<close>

fun body_chunks :: "body_read list \<Rightarrow> string list" where
  "body_chunks [] = []"
| "body_chunks (BodyTimeout # reads) = body_chunks reads"
| "body_chunks (BodyRead data err # reads) =
     (if data = [] then [] else [data]) @ (if err = NoError then body_chunks reads else [])"

definition no_end :: "message list \<Rightarrow> bool" where
  "no_end ms \<longleftrightarrow> (\<forall>m \<in> set ms. \<not> m_end_stream m)"

text \<open>
  What the receiver needs of the frames of one response: the request's identifier on every
  frame, status and headers on the first one only, the end mark on the last one only.
\<close>

definition framed :: "protocol \<Rightarrow> upstream_response \<Rightarrow> string \<Rightarrow> bool \<Rightarrow> message list \<Rightarrow> bool" where
  "framed pr resp request_id sent ms \<longleftrightarrow>
     (\<forall>m \<in> set ms. m_id m = request_id \<and> m_kind m = MsgHTTPResponse) \<and>
     (\<forall>m ms'. ms = m # ms' \<longrightarrow>
        (\<not> sent \<longrightarrow> m_status m = resp_status resp \<and> m_headers m = clone_headers pr (resp_headers resp)) \<and>
        (\<forall>m' \<in> set (if sent then ms else ms'). m_status m' = 0 \<and> m_headers m' = []))"

lemma framed_Nil [simp]: "framed pr resp i sent []"
  by (simp add: framed_def)

lemma framed_Cons [simp]:
  "framed pr resp i sent (m # ms) \<longleftrightarrow>
     m_id m = i \<and> m_kind m = MsgHTTPResponse \<and>
     (if sent then m_status m = 0 \<and> m_headers m = []
      else m_status m = resp_status resp \<and> m_headers m = clone_headers pr (resp_headers resp)) \<and>
     framed pr resp i True ms"
  by (cases ms) (auto simp: framed_def)

lemma chunk_message_sel [simp]:
  "m_id (chunk_message pr resp i sent d) = i" "m_kind (chunk_message pr resp i sent d) = MsgHTTPResponse"
  "m_body (chunk_message pr resp i sent d) = d" "\<not> m_end_stream (chunk_message pr resp i sent d)"
  "m_status (chunk_message pr resp i sent d) = (if sent then 0 else resp_status resp)"
  "m_headers (chunk_message pr resp i sent d) = (if sent then [] else clone_headers pr (resp_headers resp))"
  by (simp_all add: chunk_message_def with_head_def)

lemma final_message_sel [simp]:
  "m_id (final_message pr resp i sent) = i" "m_kind (final_message pr resp i sent) = MsgHTTPResponse"
  "m_body (final_message pr resp i sent) = []" "m_end_stream (final_message pr resp i sent)"
  "m_status (final_message pr resp i sent) = (if sent then 0 else resp_status resp)"
  "m_headers (final_message pr resp i sent) = (if sent then [] else clone_headers pr (resp_headers resp))"
  by (simp_all add: final_message_def with_head_def)

lemma record_sel [simp]:
  "ps_sent (record_failure up st) = ps_sent st" "ps_requests (record_failure up st) = ps_requests st"
  "ps_observed (record_failure up st) = ps_observed st"
  "ps_sent (record_response up resp st) = ps_sent st"
  "ps_requests (record_response up resp st) = ps_requests st"
  "ps_observed (record_response up resp st) = ps_observed st"
  "ps_sent (observe_proxy_response n st) = ps_sent st"
  "ps_requests (observe_proxy_response n st) = ps_requests st"
  "ps_breaker (observe_proxy_response n st) = ps_breaker st"
  by (simp_all add: record_failure_def record_response_def observe_proxy_response_def)

lemma send_eq: "send up m st = (up_send up (size (ps_sent st)), st\<lparr>ps_sent := ps_sent st @ [m]\<rparr>)"
  by (simp add: send_def)

text \<open>One reading of the body, on every branch.\<close>

lemma stream_read_empty:
  "stream_body pr up resp i sse (BodyRead [] err # reads) sent st =
     (case err of
        EndOfBody \<Rightarrow> send_final pr up resp i sent st
      | ReadFailed timeout \<Rightarrow>
          (Finished (Some ReadBodyFailed), if timeout \<or> up_cause_timeout up then st else record_failure up st)
      | NoError \<Rightarrow> stream_body pr up resp i sse reads sent st)"
  by simp

lemma stream_read_data:
  fixes st :: proxy_state and i :: string and sent :: bool
    and pr :: protocol and resp :: upstream_response
  assumes "d \<noteq> []"
  defines "st' \<equiv> st\<lparr>ps_sent := ps_sent st @ [chunk_message pr resp i sent d]\<rparr>"
  shows "stream_body pr up resp i sse (BodyRead d err # reads) sent st =
     (case up_send up (size (ps_sent st)) of
        Some e \<Rightarrow> (Finished (Some (SendChunk e)), record_response up resp st')
      | None \<Rightarrow>
          (case err of
             EndOfBody \<Rightarrow> send_final pr up resp i True st'
           | ReadFailed timeout \<Rightarrow>
               (Finished (Some ReadBodyFailed), if timeout \<or> up_cause_timeout up then st' else record_failure up st')
           | NoError \<Rightarrow> stream_body pr up resp i sse reads True st'))"
  using assms(1) by (simp add: send_eq st'_def split: option.split read_error.split)

declare stream_body.simps(3) [simp del]

text \<open>The outcome of the body loop as the frames it appends.\<close>

definition loop_frames ::
  "protocol \<Rightarrow> upstream_response \<Rightarrow> string \<Rightarrow> bool \<Rightarrow> body_read list \<Rightarrow> proxy_result \<Rightarrow> message list \<Rightarrow> bool" where
  "loop_frames pr resp i sent reads r ms \<longleftrightarrow>
     framed pr resp i sent ms \<and>
     (if r = Finished None \<or> (\<exists>e. r = Finished (Some (SendFinal e))) then
        ms \<noteq> [] \<and> no_end (butlast ms) \<and> m_end_stream (last ms)
        \<and> concat (map m_body ms) = concat (body_chunks reads)
      else no_end ms \<and> prefix (concat (map m_body ms)) (concat (body_chunks reads)))"

lemma no_end_simps [simp]: "no_end []" "no_end (m # ms) \<longleftrightarrow> \<not> m_end_stream m \<and> no_end ms"
  by (simp_all add: no_end_def)

lemma loop_frames_Cons:
  assumes "loop_frames pr resp i True reads r ms" and "d \<noteq> []"
  shows "loop_frames pr resp i sent (BodyRead d NoError # reads) r (chunk_message pr resp i sent d # ms)"
  using assms by (auto simp: loop_frames_def)

lemma send_final_frames:
  assumes "send_final pr up resp i sent st = (r, st')"
  shows "\<exists>m. ps_sent st' = ps_sent st @ [m] \<and> m = final_message pr resp i sent
    \<and> (r = Finished None \<or> (\<exists>e. r = Finished (Some (SendFinal e))))"
  using assms by (auto simp: send_final_def send_eq split: option.splits)

lemma stream_body_frames:
  assumes "stream_body pr up resp i sse reads sent st = (r, st')"
  shows "\<exists>ms. ps_sent st' = ps_sent st @ ms \<and> loop_frames pr resp i sent reads r ms"
  using assms
proof (induction reads arbitrary: sent st)
  case Nil
  then show ?case by (intro exI [of _ "[]"]) (simp add: loop_frames_def)
next
  case (Cons x reads)
  show ?case
  proof (cases x)
    case BodyTimeout
    show ?thesis
    proof (cases sse)
      case True
      then have "stream_body pr up resp i sse reads sent st = (r, st')"
        using Cons.prems BodyTimeout by simp
      from Cons.IH [OF this] show ?thesis
        unfolding BodyTimeout loop_frames_def body_chunks.simps .
    next
      case False
      then show ?thesis
        using Cons.prems BodyTimeout by (intro exI [of _ "[]"]) (auto simp: loop_frames_def)
    qed
  next
    case (BodyRead d err)
    show ?thesis
    proof (cases "d = []")
      case True
      note step = Cons.prems [unfolded BodyRead True stream_read_empty]
      show ?thesis
      proof (cases err)
        case NoError
        then obtain ms where "ps_sent st' = ps_sent st @ ms" "loop_frames pr resp i sent reads r ms"
          using Cons.IH [of sent st] step by auto
        then show ?thesis by (intro exI [of _ ms]) (simp add: loop_frames_def BodyRead NoError True)
      next
        case EndOfBody
        then have "send_final pr up resp i sent st = (r, st')" using step by simp
        from send_final_frames [OF this] show ?thesis
          by (intro exI [of _ "[final_message pr resp i sent]"])
            (auto simp: loop_frames_def BodyRead EndOfBody True)
      next
        case (ReadFailed t)
        then have "ps_sent st' = ps_sent st" "r = Finished (Some ReadBodyFailed)"
          using step by (auto split: if_splits)
        then show ?thesis by (intro exI [of _ "[]"]) (simp add: loop_frames_def)
      qed
    next
      case False
      let ?m = "chunk_message pr resp i sent d"
      let ?st = "st\<lparr>ps_sent := ps_sent st @ [?m]\<rparr>"
      note step = Cons.prems [unfolded BodyRead stream_read_data [OF False]]
      show ?thesis
      proof (cases "up_send up (size (ps_sent st))")
        case (Some e)
        then have "ps_sent st' = ps_sent st @ [?m]" "r = Finished (Some (SendChunk e))"
          using step by auto
        then show ?thesis by (intro exI [of _ "[?m]"]) (simp add: loop_frames_def BodyRead False)
      next
        case None
        show ?thesis
        proof (cases err)
          case NoError
          then obtain ms where "ps_sent st' = ps_sent ?st @ ms" "loop_frames pr resp i True reads r ms"
            using Cons.IH [of True ?st] step None by auto
          then show ?thesis
            using loop_frames_Cons [OF _ False] by (intro exI [of _ "?m # ms"]) (simp add: BodyRead NoError)
        next
          case EndOfBody
          then have "send_final pr up resp i True ?st = (r, st')" using step None by simp
          from send_final_frames [OF this] show ?thesis
            by (intro exI [of _ "[?m, final_message pr resp i True]"])
              (auto simp: loop_frames_def BodyRead EndOfBody False)
        next
          case (ReadFailed t)
          then have "ps_sent st' = ps_sent st @ [?m]" "r = Finished (Some ReadBodyFailed)"
            using step None by (auto split: if_splits)
          then show ?thesis
            by (intro exI [of _ "[?m]"]) (simp add: loop_frames_def BodyRead ReadFailed False)
        qed
      qed
    qed
  qed
qed

lemma no_end_last: "no_end ms \<Longrightarrow> no_end (butlast ms) \<and> \<not> (ms \<noteq> [] \<and> m_end_stream (last ms))"
  by (auto simp: no_end_def dest: in_set_butlastD)

lemma stream_body_result: "fst (stream_body pr up resp i sse reads sent st) \<noteq> Finished (Some (SendProxyError e))"
proof (induction reads arbitrary: sent st)
  case (Cons x reads)
  have final: "fst (send_final pr up resp i b t) \<noteq> Finished (Some (SendProxyError e))" for b t
    by (simp add: send_final_def send_eq split: option.split)
  show ?case
  proof (cases x)
    case (BodyRead d err)
    show ?thesis
      using Cons final
      by (cases "d = []"; cases err) (simp_all add: BodyRead stream_read_empty stream_read_data split: option.split)
  qed (use Cons in \<open>cases sse; simp\<close>)
qed simp

section \<open>What the loop does to the breaker and the counter\<close>

definition verdict :: "upstream \<Rightarrow> upstream_response \<Rightarrow> circuit_breaker \<Rightarrow> circuit_breaker" where
  "verdict up resp b =
     (if upstream_failure resp then cb_record_failure (up_record_at up) b else cb_record_success b)"

lemma record_response_breaker [simp]:
  "ps_breaker (record_response up resp st) = verdict up resp (ps_breaker st)"
  "ps_breaker (record_failure up st) = cb_record_failure (up_record_at up) (ps_breaker st)"
  by (simp_all add: record_response_def record_failure_def verdict_def)

text \<open>The breaker after a loop that ended with a result, from the breaker before.\<close>

fun breaker_after :: "upstream \<Rightarrow> upstream_response \<Rightarrow> proxy_result \<Rightarrow> circuit_breaker \<Rightarrow> circuit_breaker set" where
  "breaker_after up resp (Finished (Some ReadBodyFailed)) b =
     (if up_cause_timeout up then {b} else {b, cb_record_failure (up_record_at up) b})"
| "breaker_after up resp (Finished (Some (SendChunk e))) b = {verdict up resp b}"
| "breaker_after up resp (Finished (Some (SendFinal e))) b = {verdict up resp b}"
| "breaker_after up resp (Finished None) b = {verdict up resp b}"
| "breaker_after up resp _ b = {b}"

definition loop_effect :: "upstream \<Rightarrow> upstream_response \<Rightarrow> proxy_result \<Rightarrow> proxy_state \<Rightarrow> proxy_state \<Rightarrow> bool" where
  "loop_effect up resp r st st' \<longleftrightarrow>
     ps_requests st' = ps_requests st \<and> ps_breaker st' \<in> breaker_after up resp r (ps_breaker st) \<and>
     ps_observed st' = ps_observed st @ (if r = Finished None then [resp_status resp] else [])"

lemma loop_effect_sent:
  "loop_effect up resp r (st\<lparr>ps_sent := x\<rparr>) st' = loop_effect up resp r st st'"
  by (simp add: loop_effect_def)

lemma send_final_effect:
  "send_final pr up resp i sent st = (r, st') \<Longrightarrow> loop_effect up resp r st st'"
  by (auto simp: send_final_def send_eq loop_effect_def observe_proxy_response_def split: option.splits)

lemma stream_body_effect:
  "stream_body pr up resp i sse reads sent st = (r, st') \<Longrightarrow> loop_effect up resp r st st'"
proof (induction reads arbitrary: sent st)
  case Nil
  then show ?case by (auto simp: loop_effect_def)
next
  case (Cons x reads)
  show ?case
  proof (cases x)
    case BodyTimeout
    then show ?thesis
      using Cons by (cases sse) (auto simp: loop_effect_def)
  next
    case (BodyRead d err)
    show ?thesis
    proof (cases "d = []")
      case True
      note step = Cons.prems [unfolded BodyRead True stream_read_empty]
      show ?thesis
        using step Cons.IH send_final_effect
        by (cases err) (auto simp: loop_effect_def)
    next
      case False
      note step = Cons.prems [unfolded BodyRead stream_read_data [OF False]]
      show ?thesis
      proof (cases "up_send up (size (ps_sent st))")
        case (Some e)
        then show ?thesis using step by (auto simp: loop_effect_def)
      next
        case None
        let ?st = "st\<lparr>ps_sent := ps_sent st @ [chunk_message pr resp i sent d]\<rparr>"
        have "loop_effect up resp r ?st st'"
          using step None Cons.IH [of True ?st] send_final_effect [of pr up resp i True ?st r st']
          by (cases err) (auto simp: loop_effect_def)
        then show ?thesis by (simp add: loop_effect_sent)
      qed
    qed
  qed
qed

text \<open>A body that reaches its end, and what the loop then returns.\<close>

fun ends_well :: "bool \<Rightarrow> body_read list \<Rightarrow> bool" where
  "ends_well sse [] = False"
| "ends_well sse (BodyTimeout # reads) = (sse \<and> ends_well sse reads)"
| "ends_well sse (BodyRead d EndOfBody # reads) = True"
| "ends_well sse (BodyRead d NoError # reads) = ends_well sse reads"
| "ends_well sse (BodyRead d (ReadFailed t) # reads) = False"

lemma stream_body_ends:
  assumes "ends_well sse reads" and "\<And>n. up_send up n = None"
  shows "fst (stream_body pr up resp i sse reads sent st) = Finished None"
  using assms(1)
proof (induction reads arbitrary: sent st)
  case (Cons x reads)
  show ?case
  proof (cases x)
    case BodyTimeout
    then show ?thesis using Cons by (cases sse) auto
  next
    case (BodyRead d err)
    have final: "fst (send_final pr up resp i s t) = Finished None" for s t
      by (simp add: send_final_def send_eq assms(2))
    show ?thesis
      using Cons final
      by (cases "d = []"; cases err) (simp_all add: BodyRead stream_read_empty stream_read_data assms(2))
  qed
qed simp

section \<open>What the handler guarantees\<close>

text \<open>The request of a message that passes the checks before the breaker.\<close>

definition proxied_target :: "config \<Rightarrow> message \<Rightarrow> string option" where
  "proxied_target cfg msg =
     (if m_id msg = [] \<or> m_method msg = [] \<and> m_path msg = [] then None
      else case resolve_target_url (cfg_plex_target cfg) (m_path msg) of
        Inl _ \<Rightarrow> None
      | Inr target \<Rightarrow> if new_request_ok (m_method msg) target then Some target else None)"

definition admitted :: "upstream \<Rightarrow> proxy_state \<Rightarrow> bool" where
  "admitted up st = fst (cb_allow (up_allow_at up) (ps_breaker st))"

definition after_allow :: "upstream \<Rightarrow> proxy_state \<Rightarrow> circuit_breaker" where
  "after_allow up st = snd (cb_allow (up_allow_at up) (ps_breaker st))"

definition sse_response :: "upstream_response \<Rightarrow> bool" where
  "sse_response resp = is_event_stream_content_type (header_get ''Content-Type'' (resp_headers resp))"

lemma handle_admitted:
  assumes "proxied_target cfg msg = Some target" and "admitted up st"
  shows "handle_http_request pr cfg up msg st =
    (let st' = st\<lparr>ps_breaker := after_allow up st, ps_requests := ps_requests st @ [new_request msg target]\<rparr>
     in case up_do up of
          DoFailed is_timeout cause_timeout \<Rightarrow>
            send_proxy_error up (m_id msg) 502 ''upstream unavailable''
              (if is_timeout \<or> cause_timeout then st' else record_failure up st')
        | DoResponse resp \<Rightarrow>
            stream_body pr up resp (m_id msg) (sse_response resp) (resp_reads resp) False st')"
proof -
  obtain b where allow: "cb_allow (up_allow_at up) (ps_breaker st) = (True, b)"
    using assms(2) by (cases "cb_allow (up_allow_at up) (ps_breaker st)") (simp add: admitted_def)
  have "resolve_target_url (cfg_plex_target cfg) (m_path msg) = Inr target"
    and "new_request_ok (m_method msg) target" and "m_id msg \<noteq> []"
    and "\<not> (m_method msg = [] \<and> m_path msg = [])"
    using assms(1) by (auto simp: proxied_target_def split: if_splits sum.splits)
  then show ?thesis
    by (cases "up_do up") (auto simp: handle_http_request_def admit_request_def upstream_exchange_def allow after_allow_def sse_response_def Let_def)
qed

text \<open>A message that does not get as far as the upstream is answered by one error frame.\<close>

definition refusal :: "config \<Rightarrow> message \<Rightarrow> go_int \<times> string" where
  "refusal cfg msg =
     (if m_method msg = [] \<and> m_path msg = [] then (501, ''streaming requests not supported'')
      else if proxied_target cfg msg = None then (502, ''bad gateway'')
      else (503, ''upstream temporarily unavailable''))"

lemma handle_refused:
  assumes "m_id msg \<noteq> []" and "proxied_target cfg msg = None \<or> \<not> admitted up st"
  shows "\<exists>b. handle_http_request pr cfg up msg st =
      send_proxy_error up (m_id msg) (fst (refusal cfg msg)) (snd (refusal cfg msg)) (st\<lparr>ps_breaker := b\<rparr>)
    \<and> b = (if proxied_target cfg msg = None then ps_breaker st else after_allow up st)"
proof (cases "m_method msg = [] \<and> m_path msg = []")
  case True
  then show ?thesis using assms(1)
    by (auto simp: handle_http_request_def admit_request_def refusal_def proxied_target_def)
next
  case nonempty: False
  show ?thesis
  proof (cases "resolve_target_url (cfg_plex_target cfg) (m_path msg)")
    case (Inl e)
    then show ?thesis using assms(1) nonempty
      by (auto simp: handle_http_request_def admit_request_def refusal_def proxied_target_def)
  next
    case (Inr target)
    then show ?thesis using assms nonempty
      by (cases "new_request_ok (m_method msg) target")
        (auto simp: handle_http_request_def admit_request_def refusal_def proxied_target_def admitted_def
          after_allow_def split: prod.splits bool.splits)
  qed
qed

lemma send_proxy_error_eq:
  "send_proxy_error up i status text st =
     (case up_send up (size (ps_sent st)) of
        Some e \<Rightarrow> (Finished (Some (SendProxyError e)),
                   st\<lparr>ps_sent := ps_sent st @ [error_message i status text]\<rparr>)
      | None \<Rightarrow> (Finished None, st\<lparr>ps_sent := ps_sent st @ [error_message i status text],
                   ps_observed := ps_observed st @ [status]\<rparr>))"
  by (simp add: send_proxy_error_def send_eq observe_proxy_response_def split: option.split)

lemma error_message_sel [simp]:
  "m_id (error_message i status text) = i" "m_kind (error_message i status text) = MsgHTTPResponse"
  "m_end_stream (error_message i status text)" "m_status (error_message i status text) = status"
  "m_body (error_message i status text) = text"
  by (simp_all add: error_message_def)

text \<open>
  C21. A request that is well formed, admitted by the breaker and answered by the upstream with a
  body that reaches its end is delivered whole: the handler asks the upstream exactly once,
  returns without an error, and the frames it sends carry the request's identifier, the status
  and the headers on the first, the end mark on the last and on no other, and bodies that
  concatenate to the upstream's body; the response is counted once, and the breaker records a
  failure exactly for a status outside 200 to 299.
\<close>

theorem proxy_delivers_response:
  assumes "proxied_target cfg msg = Some target" and "admitted up st"
    and "up_do up = DoResponse resp" and "ends_well (sse_response resp) (resp_reads resp)"
    and "\<And>n. up_send up n = None"
  shows "\<exists>ms st'. handle_http_request pr cfg up msg st = (Finished None, st')
    \<and> ps_requests st' = ps_requests st @ [new_request msg target]
    \<and> ps_sent st' = ps_sent st @ ms \<and> framed pr resp (m_id msg) False ms
    \<and> ms \<noteq> [] \<and> m_end_stream (last ms) \<and> no_end (butlast ms)
    \<and> concat (map m_body ms) = concat (body_chunks (resp_reads resp))
    \<and> ps_observed st' = ps_observed st @ [resp_status resp]
    \<and> ps_breaker st' = (if 200 \<le> resp_status resp \<and> resp_status resp < 300
         then cb_record_success (after_allow up st)
         else cb_record_failure (up_record_at up) (after_allow up st))"
proof -
  let ?st = "st\<lparr>ps_breaker := after_allow up st, ps_requests := ps_requests st @ [new_request msg target]\<rparr>"
  obtain st' where run: "stream_body pr up resp (m_id msg) (sse_response resp) (resp_reads resp) False ?st
      = (Finished None, st')"
    using stream_body_ends [OF assms(4), of up pr resp "m_id msg" False ?st] assms(5)
    by (metis prod.collapse)
  have handle: "handle_http_request pr cfg up msg st = (Finished None, st')"
    using handle_admitted [OF assms(1,2), of pr] assms(3) run by (simp add: Let_def)
  obtain ms where ms: "ps_sent st' = ps_sent ?st @ ms"
      "loop_frames pr resp (m_id msg) False (resp_reads resp) (Finished None) ms"
    using stream_body_frames [OF run] by blast
  have eff: "loop_effect up resp (Finished None) ?st st'"
    using stream_body_effect [OF run] .
  show ?thesis
    by (rule exI [of _ ms], rule exI [of _ st'])
      (use handle ms eff in \<open>auto simp: loop_frames_def loop_effect_def verdict_def upstream_failure_def\<close>)
qed

text \<open>A request and a script, for the witnesses.\<close>

definition sample_request :: message where
  "sample_request = (new_message MsgHTTPRequest)\<lparr>m_id := ''r1'', m_method := ''GET'', m_path := ''/x''\<rparr>"

definition sample_response :: "body_read list \<Rightarrow> upstream_response" where
  "sample_response reads = \<lparr>resp_status = 200, resp_headers = [], resp_reads = reads\<rparr>"

definition sample_upstream :: "do_outcome \<Rightarrow> upstream" where
  "sample_upstream d = \<lparr>up_do = d, up_send = (\<lambda>_. None), up_cause_timeout = False,
     up_allow_at = 100 * second, up_record_at = 101 * second\<rparr>"

definition start_state :: "circuit_breaker \<Rightarrow> proxy_state" where
  "start_state b = \<lparr>ps_breaker = b, ps_sent = [], ps_observed = [], ps_requests = []\<rparr>"

lemma sample_target: "proxied_target sample_config sample_request = Some ''http://127.0.0.1:32400/x''"
proof -
  have "resolve_target_url ''http://127.0.0.1:32400'' ''/x'' = Inr ''http://127.0.0.1:32400/x''"
    and "new_request_ok ''GET'' ''http://127.0.0.1:32400/x''" by code_simp+
  then show ?thesis by (simp add: proxied_target_def sample_config_sel sample_request_def)
qed

lemma sample_upstream_sel [simp]:
  "up_do (sample_upstream d) = d" "up_send (sample_upstream d) n = None"
  "\<not> up_cause_timeout (sample_upstream d)" "up_allow_at (sample_upstream d) = 100 * second"
  by (simp_all add: sample_upstream_def)

lemma start_state_sel [simp]:
  "ps_breaker (start_state b) = b" "ps_sent (start_state b) = []" "ps_requests (start_state b) = []"
  by (simp_all add: start_state_def)

lemma admitted_new [simp]: "admitted up (start_state (new_circuit_breaker t d))"
  by (simp add: admitted_def cb_allow_def new_circuit_breaker_def)

lemma sample_not_sse: "\<not> sse_response (sample_response reads)"
proof -
  have "\<not> is_event_stream_content_type []" by code_simp
  then show ?thesis by (simp add: sse_response_def sample_response_def header_get_def)
qed

theorem proxy_delivers_response_witness:
  "\<exists>ms st'. handle_http_request sample_protocol sample_config
       (sample_upstream (DoResponse (sample_response [BodyRead ''ab'' NoError, BodyRead ''c'' EndOfBody])))
       sample_request (start_state (new_circuit_breaker 5 30)) = (Finished None, st')
    \<and> ps_sent st' = ms \<and> concat (map m_body ms) = ''abc'' \<and> m_end_stream (last ms)"
proof -
  let ?resp = "sample_response [BodyRead ''ab'' NoError, BodyRead ''c'' EndOfBody]"
  have reads: "resp_reads ?resp = [BodyRead ''ab'' NoError, BodyRead ''c'' EndOfBody]"
    by (simp add: sample_response_def)
  show ?thesis
    using proxy_delivers_response [OF sample_target, of "sample_upstream (DoResponse ?resp)"
        "start_state (new_circuit_breaker 5 30)" ?resp sample_protocol]
    by (auto simp: reads)
qed

text \<open>
  C22. A request that fails a check, or that the breaker refuses, never reaches the upstream: it
  is answered by exactly one frame, complete in itself, with the status 501, 502 or 503, and it
  leaves the breaker as it was; one without an identifier gets no answer at all.
\<close>

theorem proxy_refuses:
  assumes "cb_ok (ps_breaker st)" and "proxied_target cfg msg = None \<or> \<not> admitted up st"
    and "handle_http_request pr cfg up msg st = (r, st')"
  shows "ps_requests st' = ps_requests st \<and> ps_breaker st' = ps_breaker st
    \<and> (if m_id msg = [] then r = Finished (Some RequestWithoutId) \<and> st' = st
       else ps_sent st' = ps_sent st @ [error_message (m_id msg) (fst (refusal cfg msg)) (snd (refusal cfg msg))]
         \<and> fst (refusal cfg msg) \<in> {501, 502, 503})"
proof (cases "m_id msg = []")
  case True
  then show ?thesis using assms(3) by (auto simp: handle_http_request_def admit_request_def)
next
  case False
  have same: "after_allow up st = ps_breaker st" if "proxied_target cfg msg \<noteq> None"
    using assms(1,2) that cb_breaker.refusal [of "ps_breaker st" "up_allow_at up"]
    by (auto simp: admitted_def after_allow_def)
  obtain b where b: "handle_http_request pr cfg up msg st =
      send_proxy_error up (m_id msg) (fst (refusal cfg msg)) (snd (refusal cfg msg)) (st\<lparr>ps_breaker := b\<rparr>)"
    and "b = (if proxied_target cfg msg = None then ps_breaker st else after_allow up st)"
    using handle_refused [OF False assms(2), of pr] by blast
  then have "b = ps_breaker st" using same by auto
  then show ?thesis
    using b assms(3) False
    by (auto simp: send_proxy_error_eq refusal_def split: option.splits)
qed

theorem proxy_refuses_witness:
  "ps_sent (snd (handle_http_request sample_protocol sample_config (sample_upstream (DoFailed False False))
     (sample_request\<lparr>m_path := ''//evil.test/x''\<rparr>) (start_state (new_circuit_breaker 5 30))))
   = [error_message ''r1'' 502 ''bad gateway'']"
proof -
  have "\<exists>e. resolve_target_url ''http://127.0.0.1:32400'' ''//evil.test/x'' = Inl e"
    by (rule exI [of _ PathBlocked]) code_simp
  then have none: "proxied_target sample_config (sample_request\<lparr>m_path := ''//evil.test/x''\<rparr>) = None"
    by (auto simp: proxied_target_def sample_config_sel)
  have ids: "m_id (sample_request\<lparr>m_path := ''//evil.test/x''\<rparr>) = ''r1''"
    by (simp add: sample_request_def)
  have ref: "refusal sample_config (sample_request\<lparr>m_path := ''//evil.test/x''\<rparr>) = (502, ''bad gateway'')"
    unfolding refusal_def none by (simp add: sample_request_def)
  show ?thesis
    using proxy_refuses [of "start_state (new_circuit_breaker 5 30)" sample_config
        "sample_request\<lparr>m_path := ''//evil.test/x''\<rparr>" "sample_upstream (DoFailed False False)"
        sample_protocol, OF _ _ surjective_pairing] none ref ids
    by (simp add: new_circuit_breaker_ok in_int64_iff)
qed

text \<open>
  C23. Every frame the handler sends carries the request's identifier, and only the last one it
  hands to Send can carry the end mark. It carries it exactly when the handler succeeds or fails in
  nothing but the sending of that frame, the final one or an error answer. When the reading of
  the body fails or times out, or a chunk cannot be sent, no frame carries it: the tunnel server
  is not told that the response is over.
\<close>

theorem proxy_end_of_stream:
  assumes "handle_http_request pr cfg up msg st = (r, st')"
  shows "\<exists>ms. ps_sent st' = ps_sent st @ ms \<and> (\<forall>m \<in> set ms. m_id m = m_id msg) \<and> no_end (butlast ms)
    \<and> (ms \<noteq> [] \<and> m_end_stream (last ms) \<longleftrightarrow>
         r = Finished None \<or> (\<exists>e. r = Finished (Some (SendFinal e)) \<or> r = Finished (Some (SendProxyError e))))"
proof -
  have error_frame: ?thesis
    if "handle_http_request pr cfg up msg st = send_proxy_error up (m_id msg) n t x"
      and "ps_sent x = ps_sent st" for n t x
    using that assms
    by (intro exI [of _ "[error_message (m_id msg) n t]"])
      (auto simp: send_proxy_error_eq split: option.splits)
  show ?thesis
  proof (cases "m_id msg = []")
    case True
    then show ?thesis using assms
      by (intro exI [of _ "[]"]) (auto simp: handle_http_request_def admit_request_def)
  next
    case id: False
    show ?thesis
    proof (cases "proxied_target cfg msg = None \<or> \<not> admitted up st")
      case True
      from handle_refused [OF id True, of pr] error_frame show ?thesis by fastforce
    next
      case False
      then obtain target where t: "proxied_target cfg msg = Some target" and a: "admitted up st" by auto
      note handle = handle_admitted [OF t a, of pr]
      show ?thesis
      proof (cases "up_do up")
        case (DoFailed x y)
        let ?st = "st\<lparr>ps_breaker := after_allow up st, ps_requests := ps_requests st @ [new_request msg target]\<rparr>"
        show ?thesis
          by (rule error_frame [of 502 "''upstream unavailable''" "if x \<or> y then ?st else record_failure up ?st"])
            (simp_all add: handle DoFailed Let_def)
      next
        case (DoResponse resp)
        let ?st = "st\<lparr>ps_breaker := after_allow up st, ps_requests := ps_requests st @ [new_request msg target]\<rparr>"
        have run: "stream_body pr up resp (m_id msg) (sse_response resp) (resp_reads resp) False ?st = (r, st')"
          using assms handle DoResponse by (simp add: Let_def)
        from stream_body_frames [OF run] obtain ms where
          ms: "ps_sent st' = ps_sent ?st @ ms" "loop_frames pr resp (m_id msg) False (resp_reads resp) r ms"
          by blast
        have "\<forall>e. r \<noteq> Finished (Some (SendProxyError e))"
          using stream_body_result [of pr up resp "m_id msg" "sse_response resp" "resp_reads resp" False ?st] run by simp
        then show ?thesis
          using ms no_end_last [of ms]
          by (intro exI [of _ ms]) (auto simp: loop_frames_def framed_def split: if_splits)
      qed
    qed
  qed
qed

theorem proxy_end_of_stream_witness:
  "let up = sample_upstream (DoResponse (sample_response [BodyRead ''ab'' NoError, BodyTimeout]));
       (r, st') = handle_http_request sample_protocol sample_config up sample_request
                    (start_state (new_circuit_breaker 5 30))
   in r = Finished (Some ReadBodyTimeout) \<and> ps_sent st' \<noteq> [] \<and> \<not> m_end_stream (last (ps_sent st'))"
proof -
  let ?resp = "sample_response [BodyRead ''ab'' NoError, BodyTimeout]"
  let ?up = "sample_upstream (DoResponse ?resp)"
  let ?st = "start_state (new_circuit_breaker 5 30)"
  obtain r st' where h: "handle_http_request sample_protocol sample_config ?up sample_request ?st = (r, st')"
    by fastforce
  have reads: "resp_reads ?resp = [BodyRead ''ab'' NoError, BodyTimeout]" by (simp add: sample_response_def)
  have "r = Finished (Some ReadBodyTimeout) \<and> ps_sent st' \<noteq> []"
    using h handle_admitted [OF sample_target, of ?up ?st sample_protocol]
    by (auto simp: Let_def reads sample_not_sse stream_read_data)
  then show ?thesis
    using proxy_end_of_stream [OF h] h by (auto simp: Let_def)
qed

text \<open>
  C24. One request gives the breaker at most one verdict: whatever happens, the breaker is left as
  it was, or as the admission made it, or with exactly one success or one failure recorded
  after the admission. A recorded success needs a response with a status from 200 to 299.
\<close>

theorem proxy_records_at_most_once:
  assumes "handle_http_request pr cfg up msg st = (r, st')"
  defines "b \<equiv> ps_breaker st" and "b' \<equiv> snd (cb_allow (up_allow_at up) (ps_breaker st))"
  shows "ps_breaker st' \<in> {b, b', cb_record_failure (up_record_at up) b'}
    \<or> ps_breaker st' = cb_record_success b' \<and>
       (\<exists>resp. up_do up = DoResponse resp \<and> 200 \<le> resp_status resp \<and> resp_status resp < 300)"
proof (cases "m_id msg = []")
  case True
  then show ?thesis using assms(1) by (auto simp: handle_http_request_def admit_request_def b_def)
next
  case id: False
  show ?thesis
  proof (cases "proxied_target cfg msg = None \<or> \<not> admitted up st")
    case True
    from handle_refused [OF id True, of pr] assms(1) show ?thesis
      by (auto simp: send_proxy_error_eq b_def b'_def after_allow_def split: option.splits)
  next
    case False
    then obtain target where t: "proxied_target cfg msg = Some target" and a: "admitted up st" by auto
    note handle = handle_admitted [OF t a, of pr]
    show ?thesis
    proof (cases "up_do up")
      case (DoFailed x y)
      then show ?thesis using assms(1) handle
        by (auto simp: Let_def send_proxy_error_eq b'_def after_allow_def split: option.splits if_splits)
    next
      case (DoResponse resp)
      let ?st = "st\<lparr>ps_breaker := after_allow up st, ps_requests := ps_requests st @ [new_request msg target]\<rparr>"
      have "stream_body pr up resp (m_id msg) (sse_response resp) (resp_reads resp) False ?st = (r, st')"
        using assms(1) handle DoResponse by (simp add: Let_def)
      then have "ps_breaker st' \<in> breaker_after up resp r (after_allow up st)"
        using stream_body_effect by (fastforce simp: loop_effect_def)
      moreover have "breaker_after up resp r c \<subseteq> {c, verdict up resp c, cb_record_failure (up_record_at up) c}" for c
        by (cases "(up, resp, r, c)" rule: breaker_after.cases) auto
      ultimately have "ps_breaker st' \<in> {b', verdict up resp b', cb_record_failure (up_record_at up) b'}"
        unfolding b'_def after_allow_def by blast
      then show ?thesis
        by (cases "upstream_failure resp") (auto simp: verdict_def upstream_failure_def DoResponse)
    qed
  qed
qed

theorem proxy_records_at_most_once_witness:
  "let st' = snd (handle_http_request sample_protocol sample_config (sample_upstream (DoFailed False False))
               sample_request (start_state (new_circuit_breaker 5 30)))
   in consecutive_failures (ps_breaker st') \<le> 1"
  using proxy_records_at_most_once [OF surjective_pairing, of sample_protocol sample_config
      "sample_upstream (DoFailed False False)" sample_request "start_state (new_circuit_breaker 5 30)"]
  by (auto simp: Let_def cb_defs new_circuit_breaker_def wrap64_def split: if_splits)

section \<open>Requests at the same time\<close>

text \<open>
  The handlers run in goroutines of their own, as many as there are stream slots, and share the
  breaker. A handler uses it at most twice, in Allow and when it records the outcome, which is the
  last or the last but one thing it does; so its run is two steps here, between which the other
  handlers take theirs. \<open>px_running\<close> are the handlers that were admitted and have not ended,
  \<open>px_asked\<close> the requests handed to the upstream. A handler whose script is used up is still
  waiting and does not end.
\<close>

record proxies =
  px_breaker :: circuit_breaker
  px_running :: "(upstream \<times> message) list"
  px_asked :: "out_request list"

datatype proxies_event = HandlerStarts upstream message | HandlerEnds nat

fun proxies_step :: "protocol \<Rightarrow> config \<Rightarrow> proxies_event \<Rightarrow> proxies \<Rightarrow> proxies" where
  "proxies_step pr cfg (HandlerStarts up msg) s =
     (case admit_request cfg up msg (px_breaker s) of
        (Admitted target, b) \<Rightarrow>
          s\<lparr>px_breaker := b, px_running := px_running s @ [(up, msg)],
            px_asked := px_asked s @ [new_request msg target]\<rparr>
      | (_, b) \<Rightarrow> s\<lparr>px_breaker := b\<rparr>)"
| "proxies_step pr cfg (HandlerEnds k) s =
     (if k \<ge> size (px_running s) then s
      else case px_running s ! k of
        (up, msg) \<Rightarrow>
          (case upstream_exchange pr up msg (start_state (px_breaker s)) of
             (StillReading, st) \<Rightarrow> s
           | (Finished _, st) \<Rightarrow>
               s\<lparr>px_breaker := ps_breaker st,
                 px_running := take k (px_running s) @ drop (Suc k) (px_running s)\<rparr>))"

text \<open>
  Handlers that run into the proxy timeout, in \<open>client.Do\<close>, in the wait for the body or in a
  Read, or that go on reading; no chunk before that fails to be sent.
\<close>

fun reads_without_verdict :: "bool \<Rightarrow> bool \<Rightarrow> body_read list \<Rightarrow> bool" where
  "reads_without_verdict sse cause [] = True"
| "reads_without_verdict sse cause (BodyTimeout # reads) = (\<not> sse \<or> reads_without_verdict sse cause reads)"
| "reads_without_verdict sse cause (BodyRead d NoError # reads) = reads_without_verdict sse cause reads"
| "reads_without_verdict sse cause (BodyRead d (ReadFailed timeout) # reads) = (timeout \<or> cause)"
| "reads_without_verdict sse cause (BodyRead d EndOfBody # reads) = False"

definition gives_no_verdict :: "upstream \<Rightarrow> bool" where
  "gives_no_verdict up \<longleftrightarrow>
     (case up_do up of
        DoFailed is_timeout cause_timeout \<Rightarrow> is_timeout \<or> cause_timeout
      | DoResponse resp \<Rightarrow> (\<forall>n. up_send up n = None)
          \<and> reads_without_verdict (sse_response resp) (up_cause_timeout up) (resp_reads resp))"

lemma stream_without_verdict:
  assumes "reads_without_verdict sse (up_cause_timeout up) reads" and "\<And>n. up_send up n = None"
  shows "ps_breaker (snd (stream_body pr up resp i sse reads sent st)) = ps_breaker st"
  using assms(1)
proof (induction reads arbitrary: sent st)
  case (Cons x reads)
  show ?case
  proof (cases x)
    case BodyTimeout
    then show ?thesis using Cons by (cases sse) simp_all
  next
    case (BodyRead d err)
    show ?thesis
      using Cons by (cases "d = []"; cases err) (auto simp: BodyRead stream_read_empty stream_read_data assms(2))
  qed
qed simp

lemma exchange_without_verdict:
  "gives_no_verdict up \<Longrightarrow> ps_breaker (snd (upstream_exchange pr up msg st)) = ps_breaker st"
  by (auto simp: gives_no_verdict_def upstream_exchange_def sse_response_def stream_without_verdict send_proxy_error_eq
      split: do_outcome.splits option.split)

text \<open>What the breaker's answer makes of a message.\<close>

lemma admit_request_refused:
  assumes "cb_allow (up_allow_at up) b = (False, b)"
  shows "snd (admit_request cfg up msg b) = b \<and> (\<forall>target. fst (admit_request cfg up msg b) \<noteq> Admitted target)"
  using assms by (auto simp: admit_request_def split: sum.split)

lemma admit_request_admitted:
  "admit_request cfg up msg b = (Admitted target, b') \<Longrightarrow> cb_allow (up_allow_at up) b = (True, b')"
  by (auto simp: admit_request_def split: if_splits sum.splits prod.splits bool.splits)

definition probing :: "out_request list \<Rightarrow> proxies \<Rightarrow> bool" where
  "probing asked s \<longleftrightarrow> cb_ok (px_breaker s) \<and> circuit_state (px_breaker s) = circuit_state_half_open
     \<and> px_asked s = asked \<and> (\<forall>q \<in> set (px_running s). gives_no_verdict (fst q))"

lemma probing_step:
  assumes "probing asked s"
  shows "probing asked (proxies_step pr cfg e s)"
proof (cases e)
  case (HandlerStarts up msg)
  have "cb_allow (up_allow_at up) (px_breaker s) = (False, px_breaker s)"
    using assms by (intro cb_breaker.probing_refuses) (simp_all add: probing_def)
  from admit_request_refused [OF this, of cfg msg]
  have "proxies_step pr cfg e s = s"
    by (cases "admit_request cfg up msg (px_breaker s)") (auto simp: HandlerStarts split: admission.split)
  then show ?thesis using assms by simp
next
  case (HandlerEnds k)
  show ?thesis
  proof (cases "k < size (px_running s)")
    case True
    obtain up msg where q: "px_running s ! k = (up, msg)" by fastforce
    have "(up, msg) \<in> set (px_running s)" unfolding q [symmetric] using True by (rule nth_mem)
    then have "gives_no_verdict up" using assms by (auto simp: probing_def)
    from exchange_without_verdict [OF this, of pr msg "start_state (px_breaker s)"] show ?thesis
      using True assms in_set_takeD [of _ k "px_running s"] in_set_dropD [of _ "Suc k" "px_running s"]
      by (auto simp: HandlerEnds q probing_def split: prod.split proxy_result.split)
  qed (use assms in \<open>simp add: HandlerEnds\<close>)
qed

interpretation probing_proxies: machine "proxies_step pr cfg" "\<lambda>_ _. True" "probing asked"
  for pr cfg asked
  by unfold_locales (rule probing_step)

text \<open>
  C25. When an open breaker admits a request as its probe and neither that one nor any other
  handler in flight records an outcome, because each runs into the proxy timeout, in \<open>client.Do\<close>
  or while it reads the body, or goes on reading, then the breaker stays half-open and no request
  that comes later ever reaches the upstream again: whatever requests come, however their handlers
  interleave, however long the client runs and however healthy the upstream is.
\<close>

theorem timed_out_probe_blocks_forever:
  assumes "cb_ok (px_breaker s)" and "circuit_state (px_breaker s) = circuit_state_open"
    and "px_running (proxies_step pr cfg (HandlerStarts up msg) s) = px_running s @ [(up, msg)]"
    and "gives_no_verdict up" and "\<forall>q \<in> set (px_running s). gives_no_verdict (fst q)"
  shows "let s1 = proxies_step pr cfg (HandlerStarts up msg) s; t = run (proxies_step pr cfg) es s1 in
    circuit_state (px_breaker t) = circuit_state_half_open
    \<and> px_asked t = px_asked s1 \<and> size (px_asked s1) = Suc (size (px_asked s))"
proof -
  let ?s1 = "proxies_step pr cfg (HandlerStarts up msg) s"
  obtain target b where adm: "admit_request cfg up msg (px_breaker s) = (Admitted target, b)"
    using assms(3) by (auto split: prod.splits admission.splits)
  have b: "circuit_state b = circuit_state_half_open" "cb_ok b"
    using admit_request_admitted [OF adm] assms(1,2) cb_breaker.admission [of "px_breaker s" "up_allow_at up"]
      cb_allow_ok [of "px_breaker s" "up_allow_at up"] by simp_all
  have s1: "?s1 = s\<lparr>px_breaker := b, px_running := px_running s @ [(up, msg)],
      px_asked := px_asked s @ [new_request msg target]\<rparr>" by (simp add: adm)
  have "probing (px_asked ?s1) ?s1" using b assms(4,5) unfolding s1 by (auto simp: probing_def)
  then have "probing (px_asked ?s1) (run (proxies_step pr cfg) es ?s1)"
    by (intro probing_proxies.run_ok) simp_all
  moreover have "size (px_asked ?s1) = Suc (size (px_asked s))" unfolding s1 by simp
  ultimately show ?thesis unfolding Let_def probing_def by blast
qed

text \<open>A breaker that one failure has opened, with a handler in flight that waits for its body.\<close>

definition sample_proxies :: proxies where
  "sample_proxies =
     \<lparr>px_breaker = cb_record_failure 0 (new_circuit_breaker 1 (30 * second)),
      px_running = [(sample_upstream (DoResponse (sample_response [BodyTimeout])), sample_request)], px_asked = []\<rparr>"

theorem timed_out_probe_blocks_forever_witness:
  "let slow = sample_upstream (DoFailed False True);
       good = sample_upstream (DoResponse (sample_response [BodyRead [] EndOfBody]));
       es = [HandlerEnds 0, HandlerStarts good sample_request, HandlerEnds 0, HandlerStarts good sample_request]
   in size (px_asked (run (proxies_step sample_protocol sample_config) es
        (proxies_step sample_protocol sample_config (HandlerStarts slow sample_request) sample_proxies))) = 1"
proof -
  let ?slow = "sample_upstream (DoFailed False True)" and ?b = "px_breaker sample_proxies"
  have b: "cb_ok ?b" "circuit_state ?b = circuit_state_open" "half_open_at ?b = 0" "cooldown ?b = 30 * second"
    using cb_record_failure_ok [OF new_circuit_breaker_ok, of 1 "30 * second" 0]
    by (simp_all add: in_int64_iff unit_defs sample_proxies_def)
      (simp_all add: cb_defs new_circuit_breaker_def Let_def wrap64_def)
  have "fst (cb_allow (100 * second) ?b)"
    using b(2-4) by (simp add: cb_allow_def time_sub_def unit_defs min_int64_def max_int64_def)
  then obtain b' where allow: "cb_allow (up_allow_at ?slow) ?b = (True, b')"
    by (cases "cb_allow (100 * second) ?b") simp
  have "resolve_target_url (cfg_plex_target sample_config) (m_path sample_request) = Inr ''http://127.0.0.1:32400/x''"
      "new_request_ok (m_method sample_request) ''http://127.0.0.1:32400/x''"
    "m_id sample_request \<noteq> []" "m_path sample_request \<noteq> []"
    using sample_target by (auto simp: proxied_target_def sample_request_def split: if_splits sum.splits)
  then have "admit_request sample_config ?slow sample_request ?b = (Admitted ''http://127.0.0.1:32400/x'', b')"
    using allow by (simp add: admit_request_def)
  then have "px_running (proxies_step sample_protocol sample_config (HandlerStarts ?slow sample_request) sample_proxies)
      = px_running sample_proxies @ [(?slow, sample_request)]" by simp
  moreover have "gives_no_verdict ?slow" "\<forall>q \<in> set (px_running sample_proxies). gives_no_verdict (fst q)"
    using sample_not_sse by (simp_all add: gives_no_verdict_def sample_proxies_def sample_response_def)
  ultimately show ?thesis
    using timed_out_probe_blocks_forever [OF b(1,2), of sample_protocol sample_config ?slow sample_request]
    by (simp add: Let_def sample_proxies_def del: run_Cons)
qed

text \<open>
  Every failure of the upstream call that is not the proxy timeout counts against the
  upstream, the cancellation of requests in flight when their tunnel connection goes included:
  as many handlers as the threshold that end in that way one after the other, and the breaker is
  open, with later requests refused until the cooldown has passed.
\<close>

lemma failed_handler_ends:
  assumes "px_running s = (up, msg) # qs" and "up_do up = DoFailed False False"
  shows "proxies_step pr cfg (HandlerEnds 0) s =
    s\<lparr>px_breaker := cb_record_failure (up_record_at up) (px_breaker s), px_running := qs\<rparr>"
  using assms by (simp add: upstream_exchange_def send_proxy_error_eq split: option.split)

lemma failed_calls_open_breaker:
  assumes "cb_ok (px_breaker s)" and "circuit_state (px_breaker s) = circuit_state_closed"
    and "consecutive_failures (px_breaker s) = 0" and "px_running s = qs @ rest"
    and "\<forall>q \<in> set qs. up_do (fst q) = DoFailed False False"
    and "int (size qs) = threshold (px_breaker s)"
  shows "cb_mode_of (px_breaker (run (proxies_step pr cfg) (replicate (size qs) (HandlerEnds 0)) s))
    = ModeOpen (up_record_at (fst (last qs)))"
proof -
  have "cb_mode_of (px_breaker (run (proxies_step pr cfg) (replicate (size qs) (HandlerEnds 0)) s))
      = ModeOpen (up_record_at (fst (last qs)))"
    if "cb_ok (px_breaker s)" "cb_mode_of (px_breaker s) = ModeClosed n" "qs \<noteq> []" "px_running s = qs @ rest"
      "int (n + size qs) = threshold (px_breaker s)" "\<forall>q \<in> set qs. up_do (fst q) = DoFailed False False"
    for n and qs :: "(upstream \<times> message) list" and s
    using that
  proof (induction qs arbitrary: n s)
    case (Cons q qs)
    obtain up msg where q: "q = (up, msg)" by (cases q)
    let ?s = "proxies_step pr cfg (HandlerEnds 0) s"
    have ends: "?s = s\<lparr>px_breaker := cb_record_failure (up_record_at up) (px_breaker s), px_running := qs @ rest\<rparr>"
      by (rule failed_handler_ends) (use Cons.prems(4,6) in \<open>simp_all add: q\<close>)
    have step: "px_breaker ?s = cb_step (Bad (up_record_at up)) (px_breaker s)" unfolding ends by simp
    have ok: "cb_ok (px_breaker ?s)" using Cons.prems(1) unfolding step by (rule cb_step_ok)
    have thr: "threshold (px_breaker ?s) = threshold (px_breaker s)"
      unfolding step by (rule cb_step_sel)
    have mode: "cb_mode_of (px_breaker ?s) = (if int (n + 1) \<ge> threshold (px_breaker s)
        then ModeOpen (up_record_at up) else ModeClosed (n + 1))"
      using cb_step_mode [OF Cons.prems(1), of "Bad (up_record_at up)"] Cons.prems(2) step by simp
    have running: "px_running ?s = qs @ rest" unfolding ends by simp
    show ?case
    proof (cases "qs = []")
      case True
      then show ?thesis using mode Cons.prems(5) by (simp add: q del: proxies_step.simps)
    next
      case False
      then have "\<not> int (n + 1) \<ge> threshold (px_breaker s)"
        using Cons.prems(5) by (cases qs) auto
      then have "cb_mode_of (px_breaker ?s) = ModeClosed (n + 1)" using mode by simp
      then show ?thesis
        using Cons.IH [of ?s "n + 1"] ok False running Cons.prems(5,6) thr by (simp del: proxies_step.simps)
    qed
  qed simp
  moreover have "cb_mode_of (px_breaker s) = ModeClosed 0" using assms(2,3) by (simp add: cb_mode_of_def)
  moreover have "qs \<noteq> []" using assms(1,6) by (auto simp: cb_ok_def)
  ultimately show ?thesis using assms(1,4-6) by simp
qed

lemma failed_calls_open_breaker_witness:
  "let q = (sample_upstream (DoFailed False False), sample_request);
       s = \<lparr>px_breaker = new_circuit_breaker circuit_breaker_default_threshold circuit_breaker_default_cooldown,
            px_running = [q, q, q, q, q], px_asked = []\<rparr>
   in cb_mode_of (px_breaker (run (proxies_step sample_protocol sample_config) (replicate 5 (HandlerEnds 0)) s))
      = ModeOpen (101 * second)"
proof -
  let ?q = "(sample_upstream (DoFailed False False), sample_request)"
  let ?b = "new_circuit_breaker circuit_breaker_default_threshold circuit_breaker_default_cooldown"
  let ?s = "\<lparr>px_breaker = ?b, px_running = [?q, ?q, ?q, ?q, ?q], px_asked = []\<rparr>"
  have b: "cb_ok ?b" "circuit_state ?b = circuit_state_closed" "consecutive_failures ?b = 0" "threshold ?b = 5"
    using new_circuit_breaker_ok [of circuit_breaker_default_threshold circuit_breaker_default_cooldown]
    by (simp_all add: circuit_breaker_default_threshold_def circuit_breaker_default_cooldown_def
        in_int64_iff unit_defs) (simp_all add: new_circuit_breaker_def)
  have "up_record_at (fst ?q) = 101 * second" by (simp add: sample_upstream_def)
  then show ?thesis
    using failed_calls_open_breaker [of ?s "[?q, ?q, ?q, ?q, ?q]" "[]" sample_protocol sample_config] b
    by (simp add: Let_def numeral_eq_Suc del: run_Cons proxies_step.simps)
qed

end
