(* ===== verification/SessionStore.thy ===== *)
theory SessionStore
  imports GoStrings
begin

text \<open>
  The login sessions of cmd/client/login.go: the tokens (32 random bytes in unpadded base64url),
  the store as a map from tokens to their creation times, and its methods, each one atomic step
  under the store's lock with the clock and the random bytes as arguments.
\<close>

section \<open>Tokens\<close>

text \<open>\<open>base64.RawURLEncoding\<close>: groups of three bytes as four digits of six bits, no padding.\<close>

definition base64_char :: "nat \<Rightarrow> char" where
  "base64_char n =
     (if n < 26 then char_of (65 + n)
      else if n < 52 then char_of (71 + n)
      else if n < 62 then char_of (n - 4)
      else if n = 62 then CHR ''-'' else CHR ''_'')"

fun raw_url_encode :: "nat list \<Rightarrow> string" where
  "raw_url_encode [] = []"
| "raw_url_encode [a] = [base64_char (a div 4), base64_char (a mod 4 * 16)]"
| "raw_url_encode [a, b] =
     [base64_char (a div 4), base64_char (a mod 4 * 16 + b div 16), base64_char (b mod 16 * 4)]"
| "raw_url_encode (a # b # c # bs) =
     base64_char (a div 4) # base64_char (a mod 4 * 16 + b div 16) #
     base64_char (b mod 16 * 4 + c div 64) # base64_char (c mod 64) # raw_url_encode bs"

definition base64_value :: "char \<Rightarrow> nat" where
  "base64_value ch =
     (if is_upper ch then code ch - 65
      else if is_lower ch then code ch - 71
      else if is_digit ch then code ch + 4
      else if ch = CHR ''-'' then 62 else 63)"

fun raw_url_decode :: "string \<Rightarrow> nat list" where
  "raw_url_decode [p, q] = [base64_value p * 4 + base64_value q div 16]"
| "raw_url_decode [p, q, r] =
     [base64_value p * 4 + base64_value q div 16, base64_value q mod 16 * 16 + base64_value r div 4]"
| "raw_url_decode (p # q # r # s # cs) =
     (base64_value p * 4 + base64_value q div 16) #
     (base64_value q mod 16 * 16 + base64_value r div 4) #
     (base64_value r mod 4 * 64 + base64_value s) # raw_url_decode cs"
| "raw_url_decode _ = []"

definition base64_safe :: "char \<Rightarrow> bool" where
  "base64_safe ch \<longleftrightarrow> is_alnum ch \<or> ch = CHR ''-'' \<or> ch = CHR ''_''"

lemma base64_value_char [simp]: "n < 64 \<Longrightarrow> base64_value (base64_char n) = n"
  by (auto simp: base64_char_def base64_value_def byte_class_defs)

lemma base64_char_safe: "base64_safe (base64_char n)"
  by (auto simp: base64_char_def base64_safe_def byte_class_defs)

text \<open>The carry between the digits of a group.\<close>

lemma base64_split:
  fixes a b :: nat
  shows "(a mod 4 * 16 + b) div 16 = a mod 4 + b div 16" "(a mod 16 * 4 + b) div 4 = a mod 16 + b div 4"
  by simp_all

lemma raw_url_decode_encode:
  "\<forall>b \<in> set bs. b < 256 \<Longrightarrow> raw_url_decode (raw_url_encode bs) = bs"
proof (induction bs rule: raw_url_encode.induct)
  case (2 a)
  then have "a div 4 < 64" by simp
  then show ?case by simp
next
  case (3 a b)
  then have lt: "a div 4 < 64" "b div 16 < 16" by auto
  then have "a mod 4 * 16 + b div 16 < 64" "b mod 16 * 4 < 64"
    using mod_less_divisor [of 4 a] mod_less_divisor [of 16 b] by linarith+
  then show ?case using lt by (simp add: base64_split)
next
  case (4 a b c bs)
  then have lt: "a div 4 < 64" "b div 16 < 16" "c div 64 < 4" by auto
  then have "a mod 4 * 16 + b div 16 < 64" "b mod 16 * 4 + c div 64 < 64" "c mod 64 < 64"
    using mod_less_divisor [of 4 a] mod_less_divisor [of 16 b] mod_less_divisor [of 64 c] by linarith+
  then show ?case using 4 lt by (simp add: base64_split mod_mult_self3)
qed simp_all

lemma raw_url_encode_size: "size (raw_url_encode bs) = (4 * size bs + 2) div 3"
  by (induction bs rule: raw_url_encode.induct) auto

section \<open>The store\<close>

record session_store =
  sessions :: "string \<Rightarrow> instant option"
  session_ttl :: duration

definition new_session_store :: "duration \<Rightarrow> session_store" where
  "new_session_store ttl = \<lparr>sessions = (\<lambda>_. None), session_ttl = ttl\<rparr>"

text \<open>\<open>rand.Read\<close> fills 32 bytes or fails.\<close>

definition session_create :: "nat list option \<Rightarrow> instant \<Rightarrow> session_store \<Rightarrow> string option \<times> session_store" where
  "session_create random now s =
     (case random of
        None \<Rightarrow> (None, s)
      | Some bytes \<Rightarrow>
          let token = raw_url_encode bytes
          in (Some token, s\<lparr>sessions := (sessions s)(token := Some now)\<rparr>))"

definition session_validate :: "string \<Rightarrow> instant \<Rightarrow> session_store \<Rightarrow> bool \<times> session_store" where
  "session_validate token now s =
     (if token = [] then (False, s)
      else case sessions s token of
        None \<Rightarrow> (False, s)
      | Some created \<Rightarrow>
          if time_sub now created > session_ttl s
          then (False, s\<lparr>sessions := (sessions s)(token := None)\<rparr>)
          else (True, s))"

definition session_delete :: "string \<Rightarrow> session_store \<Rightarrow> session_store" where
  "session_delete token s =
     (if token = [] then s else s\<lparr>sessions := (sessions s)(token := None)\<rparr>)"

definition session_sweep :: "instant \<Rightarrow> session_store \<Rightarrow> session_store" where
  "session_sweep now s =
     s\<lparr>sessions := (\<lambda>token. case sessions s token of
         None \<Rightarrow> None
       | Some created \<Rightarrow> if time_sub now created > session_ttl s then None else Some created)\<rparr>"

definition session_start_gc :: "gc_event list \<Rightarrow> session_store \<Rightarrow> session_store" where
  "session_start_gc es s = gc_loop session_sweep es s"

section \<open>The interface of a token store\<close>

datatype 'tok token_event = Issue 'tok instant | Check 'tok instant | Revoke 'tok | Sweep instant

fun token_step ::
  "('tok \<Rightarrow> instant \<Rightarrow> 's \<Rightarrow> 's) \<Rightarrow> ('tok \<Rightarrow> instant \<Rightarrow> 's \<Rightarrow> bool \<times> 's) \<Rightarrow> ('tok \<Rightarrow> 's \<Rightarrow> 's)
   \<Rightarrow> (instant \<Rightarrow> 's \<Rightarrow> 's) \<Rightarrow> 'tok token_event \<Rightarrow> 's \<Rightarrow> 's" where
  "token_step issue check revoke sweep (Issue t now) s = issue t now s"
| "token_step issue check revoke sweep (Check t now) s = snd (check t now s)"
| "token_step issue check revoke sweep (Revoke t) s = revoke t s"
| "token_step issue check revoke sweep (Sweep now) s = sweep now s"

text \<open>When a token was last issued, unless it has been revoked since.\<close>

fun issued_after :: "'tok \<Rightarrow> 'tok token_event \<Rightarrow> instant option \<Rightarrow> instant option" where
  "issued_after t (Issue t' now) x = (if t' = t then Some now else x)"
| "issued_after t (Revoke t') x = (if t' = t then None else x)"
| "issued_after t _ x = x"

fun event_before :: "instant \<Rightarrow> 'tok token_event \<Rightarrow> bool" where
  "event_before now (Check t u) = (u \<le> now)"
| "event_before now (Sweep u) = (u \<le> now)"
| "event_before now _ = True"

text \<open>
  What the login handlers rely on: a view \<open>born\<close> of the store as a map from tokens to
  creation times, of which a check reads whether it is \<open>fresh\<close>; checks and sweeps forget
  only what is not fresh any more.
\<close>

locale token_store =
  fixes issue :: "'tok \<Rightarrow> instant \<Rightarrow> 's \<Rightarrow> 's"
    and check :: "'tok \<Rightarrow> instant \<Rightarrow> 's \<Rightarrow> bool \<times> 's"
    and revoke :: "'tok \<Rightarrow> 's \<Rightarrow> 's"
    and sweep :: "instant \<Rightarrow> 's \<Rightarrow> 's"
    and ok :: "'s \<Rightarrow> bool"
    and tok_ok :: "'tok \<Rightarrow> bool"
    and born :: "'s \<Rightarrow> 'tok \<Rightarrow> instant option"
    and fresh :: "instant \<Rightarrow> instant \<Rightarrow> bool"
  assumes step_ok: "ok s \<Longrightarrow> ok (token_step issue check revoke sweep e s)"
    and check_iff: "ok s \<Longrightarrow> fst (check t now s) \<longleftrightarrow> (\<exists>c. born s t = Some c \<and> fresh now c)"
    and born_issue: "ok s \<Longrightarrow> tok_ok t \<Longrightarrow> born (issue t now s) = (born s)(t \<mapsto> now)"
    and born_revoke: "ok s \<Longrightarrow> born (revoke t s) = (born s)(t := None)"
    and check_forgets: "ok s \<Longrightarrow> born (snd (check t now s)) t' = Some c \<Longrightarrow> born s t' = Some c"
    and check_keeps: "ok s \<Longrightarrow> born s t' = Some c \<Longrightarrow> fresh now c \<Longrightarrow> born (snd (check t now s)) t' = Some c"
    and sweep_forgets: "ok s \<Longrightarrow> born (sweep now s) t' = Some c \<Longrightarrow> born s t' = Some c"
    and sweep_keeps: "ok s \<Longrightarrow> born s t' = Some c \<Longrightarrow> fresh now c \<Longrightarrow> born (sweep now s) t' = Some c"
    and fresh_earlier: "fresh now c \<Longrightarrow> u \<le> now \<Longrightarrow> fresh u c"
begin

lemma run_check:
  assumes "ok s" and "\<forall>e \<in> set es. event_before now e"
    and "\<forall>e \<in> set es. \<forall>t u. e = Issue t u \<longrightarrow> tok_ok t"
    and "\<And>c. born s t = Some c \<Longrightarrow> x = Some c"
    and "\<And>c. x = Some c \<Longrightarrow> fresh now c \<Longrightarrow> born s t = Some c"
  shows "fst (check t now (run (token_step issue check revoke sweep) es s)) \<longleftrightarrow>
    (\<exists>c. fold (issued_after t) es x = Some c \<and> fresh now c)"
  using assms
proof (induction es arbitrary: s x)
  case Nil
  have "(\<exists>c. born s t = Some c \<and> fresh now c) \<longleftrightarrow> (\<exists>c. x = Some c \<and> fresh now c)"
    using Nil(4,5) by blast
  then show ?case unfolding check_iff [OF Nil(1)] run_Nil fold_simps .
next
  case (Cons e es)
  let ?s = "token_step issue check revoke sweep e s"
  have "ok ?s" using Cons.prems(1) by (rule step_ok)
  moreover have "issued_after t e x = Some c" if b: "born ?s t = Some c" for c
  proof (cases e)
    case (Issue t' u)
    then have "born ?s = (born s)(t' \<mapsto> u)" using Cons.prems(1,3) by (simp add: born_issue)
    then show ?thesis using b Cons.prems(4) by (auto simp: Issue split: if_splits)
  next
    case (Check t' u)
    then have "born s t = Some c" using b by (auto intro: check_forgets [OF Cons.prems(1)])
    then show ?thesis unfolding Check issued_after.simps by (rule Cons.prems(4))
  next
    case (Revoke t')
    then have "born ?s = (born s)(t' := None)" using Cons.prems(1) by (simp add: born_revoke)
    then show ?thesis using b Cons.prems(4) by (simp add: Revoke split: if_splits)
  next
    case (Sweep u)
    then have "born s t = Some c" using b by (auto intro: sweep_forgets [OF Cons.prems(1)])
    then show ?thesis unfolding Sweep issued_after.simps by (rule Cons.prems(4))
  qed
  moreover have "born ?s t = Some c" if x: "issued_after t e x = Some c" and f: "fresh now c" for c
  proof (cases e)
    case (Issue t' u)
    then have "born ?s = (born s)(t' \<mapsto> u)" using Cons.prems(1,3) by (simp add: born_issue)
    then show ?thesis using x f Cons.prems(5) by (simp add: Issue split: if_splits)
  next
    case (Check t' u)
    then have "x = Some c" "u \<le> now" using x Cons.prems(2) by simp_all
    then have "fresh u c" "born s t = Some c"
      using fresh_earlier [OF f] Cons.prems(5) f by blast+
    then show ?thesis using check_keeps [OF Cons.prems(1)] by (simp add: Check)
  next
    case (Revoke t')
    then have "born ?s = (born s)(t' := None)" using Cons.prems(1) by (simp add: born_revoke)
    then show ?thesis using x f Cons.prems(5) by (simp add: Revoke split: if_splits)
  next
    case (Sweep u)
    then have "x = Some c" "u \<le> now" using x Cons.prems(2) by simp_all
    then have "fresh u c" "born s t = Some c"
      using fresh_earlier [OF f] Cons.prems(5) f by blast+
    then show ?thesis using sweep_keeps [OF Cons.prems(1)] by (simp add: Sweep)
  qed
  moreover have "\<forall>e \<in> set es. event_before now e" "\<forall>e \<in> set es. \<forall>t u. e = Issue t u \<longrightarrow> tok_ok t"
    using Cons.prems(2,3) by simp_all
  ultimately show ?case
    unfolding run_Cons fold_simps by (intro Cons.IH) blast+
qed

text \<open>A token that was never issued since the empty store is never accepted.\<close>

lemma never_issued:
  assumes "ok s" and "\<forall>e \<in> set es. event_before now e"
    and "\<forall>e \<in> set es. \<forall>t' u. e = Issue t' u \<longrightarrow> tok_ok t' \<and> t' \<noteq> t" and "born s t = None"
  shows "\<not> fst (check t now (run (token_step issue check revoke sweep) es s))"
proof -
  have "fold (issued_after t) es None = None"
    using assms(3)
  proof (induction es)
    case (Cons e es)
    then show ?case by (cases e) auto
  qed simp
  then show ?thesis using run_check [of s es now t None] assms by auto
qed

end

definition session_insert :: "string \<Rightarrow> instant \<Rightarrow> session_store \<Rightarrow> session_store" where
  "session_insert token now s = s\<lparr>sessions := (sessions s)(token := Some now)\<rparr>"

lemma session_create_insert:
  "session_create (Some bytes) now s = (Some (raw_url_encode bytes), session_insert (raw_url_encode bytes) now s)"
  by (simp add: session_create_def session_insert_def Let_def)

definition session_born :: "session_store \<Rightarrow> string \<Rightarrow> instant option" where
  "session_born s token = (if token = [] then None else sessions s token)"

abbreviation session_step :: "string token_event \<Rightarrow> session_store \<Rightarrow> session_store" where
  "session_step \<equiv> token_step session_insert session_validate session_delete session_sweep"

interpretation login_sessions: token_store session_insert session_validate session_delete session_sweep
    "\<lambda>s. session_ttl s = ttl" "\<lambda>token. token \<noteq> []" session_born "\<lambda>now created. time_sub now created \<le> ttl"
  for ttl
proof (unfold_locales, goal_cases)
  case (1 s e)
  then show ?case
    by (cases e) (auto simp: session_insert_def session_validate_def session_delete_def
        session_sweep_def split: option.split)
next
  case (9 now c u)
  then show ?case using time_sub_mono [of u now c] by simp
qed (auto simp: session_born_def session_insert_def session_validate_def session_delete_def
      session_sweep_def split: option.splits if_splits)

text \<open>
  C26. After any sequence of logins, checks, logouts and sweeps, none of them later than
  \<open>now\<close>, a token is accepted at \<open>now\<close> exactly when it was issued, not revoked since, and
  its lifetime has not run out: the checks and sweeps in between change nothing.
\<close>

theorem session_lifecycle:
  assumes "\<forall>e \<in> set es. event_before now e" and "\<forall>e \<in> set es. \<forall>t u. e = Issue t u \<longrightarrow> t \<noteq> []"
  shows "fst (session_validate token now (run session_step es (new_session_store ttl))) \<longleftrightarrow>
    (\<exists>created. fold (issued_after token) es None = Some created \<and> time_sub now created \<le> ttl)"
proof -
  have "session_ttl (new_session_store ttl) = ttl" "session_born (new_session_store ttl) t = None" for t
    by (simp_all add: new_session_store_def session_born_def)
  with assms show ?thesis
    using login_sessions.run_check [of "new_session_store ttl" ttl es now token None] by simp
qed

theorem session_lifecycle_witness:
  "let es = [Issue ''tok'' 100, Check ''tok'' 150, Sweep 180]
   in fst (session_validate ''tok'' 200 (run session_step es (new_session_store 100)))
      \<and> \<not> fst (session_validate ''tok'' 201 (run session_step es (new_session_store 100)))"
  using session_lifecycle [of "[Issue ''tok'' 100, Check ''tok'' 150, Sweep 180]" 200 "''tok''" 100]
    session_lifecycle [of "[Issue ''tok'' 100, Check ''tok'' 150, Sweep 180]" 201 "''tok''" 100]
  by (simp add: time_sub_def min_int64_def max_int64_def Let_def del: run_Cons)

text \<open>
  C27. The token of a session is 43 characters that a cookie can hold, and decodes to the 32
  random bytes it was made from: different random bytes never share a token.
\<close>

theorem session_token_roundtrip:
  assumes "size bytes = 32" and "\<forall>b \<in> set bytes. b < 256"
  shows "\<exists>token. fst (session_create (Some bytes) now s) = Some token
    \<and> raw_url_decode token = bytes \<and> size token = 43
    \<and> (\<forall>ch \<in> set token. is_alnum ch \<or> ch = CHR ''-'' \<or> ch = CHR ''_'')
    \<and> sessions (snd (session_create (Some bytes) now s)) token = Some now"
proof -
  have "\<forall>ch \<in> set (raw_url_encode bytes). base64_safe ch"
    by (induction bytes rule: raw_url_encode.induct) (auto simp: base64_char_safe)
  then show ?thesis
    using assms raw_url_decode_encode [of bytes]
    by (simp add: session_create_def Let_def raw_url_encode_size base64_safe_def)
qed

theorem session_token_roundtrip_witness:
  "raw_url_decode (the (fst (session_create (Some (replicate 32 7)) 5 (new_session_store 100)))) = replicate 32 7"
  using session_token_roundtrip [of "replicate 32 7" 5 "new_session_store 100"] by auto

end
