(* ===== verification/RateLimit.thy ===== *)
theory RateLimit
  imports Prelude
begin

text \<open>
  The login rate limiter of cmd/client/login.go: one bucket per address, with a fixed window of
  a minute and a block of five minutes. Each method is one atomic step under the limiter's lock.
\<close>

definition login_window :: duration where
  "login_window = minute"

definition login_block_duration :: duration where
  "login_block_duration = 5 * minute"

definition login_bucket_max_age :: duration where
  "login_bucket_max_age = 10 * minute"

record login_bucket =
  lb_attempts :: go_int
  lb_window_start :: instant
  lb_blocked_until :: instant

type_synonym limiter = "string \<Rightarrow> login_bucket option"

definition new_login_rate_limiter :: limiter where
  "new_login_rate_limiter = (\<lambda>_. None)"

definition empty_bucket :: login_bucket where
  "empty_bucket = \<lparr>lb_attempts = 0, lb_window_start = zero_time, lb_blocked_until = zero_time\<rparr>"

text \<open>What Allow does with the bucket of the address.\<close>

definition bucket_allow :: "instant \<Rightarrow> login_bucket \<Rightarrow> bool \<times> login_bucket" where
  "bucket_allow now b =
     (if now < lb_blocked_until b then (False, b)
      else if is_zero_time (lb_window_start b) \<or> time_sub now (lb_window_start b) > login_window then
        (True, b\<lparr>lb_attempts := 1, lb_window_start := now, lb_blocked_until := zero_time\<rparr>)
      else
        let b = b\<lparr>lb_attempts := wrap64 (lb_attempts b + 1)\<rparr>
        in if lb_attempts b > 10 then (False, b\<lparr>lb_blocked_until := time_add now login_block_duration\<rparr>)
           else (True, b))"

definition login_allow :: "string \<Rightarrow> instant \<Rightarrow> limiter \<Rightarrow> bool \<times> limiter" where
  "login_allow ip now l =
     (let bucket = (case l ip of None \<Rightarrow> empty_bucket | Some b \<Rightarrow> b);
          (ok, bucket) = bucket_allow now bucket
      in (ok, l(ip := Some bucket)))"

definition stale :: "instant \<Rightarrow> login_bucket \<Rightarrow> bool" where
  "stale now b \<longleftrightarrow> time_sub now (lb_window_start b) > login_bucket_max_age \<and> now > lb_blocked_until b"

definition limiter_sweep :: "instant \<Rightarrow> limiter \<Rightarrow> limiter" where
  "limiter_sweep now l =
     (\<lambda>ip. case l ip of None \<Rightarrow> None | Some b \<Rightarrow> if stale now b then None else Some b)"

definition limiter_start_gc :: "gc_event list \<Rightarrow> limiter \<Rightarrow> limiter" where
  "limiter_start_gc es l = gc_loop limiter_sweep es l"

lemmas limiter_durations = login_window_def login_block_duration_def login_bucket_max_age_def unit_defs

section \<open>Forgetting stale buckets\<close>

text \<open>
  Two buckets that no request from now on can tell apart: the same, or both expired (or
  absent), so that the next request starts a window either way.
\<close>

definition bucket_of :: "login_bucket option \<Rightarrow> login_bucket" where
  "bucket_of x = (case x of None \<Rightarrow> empty_bucket | Some b \<Rightarrow> b)"

definition expired :: "instant \<Rightarrow> login_bucket \<Rightarrow> bool" where
  "expired now b \<longleftrightarrow> \<not> now < lb_blocked_until b \<and>
     (is_zero_time (lb_window_start b) \<or> time_sub now (lb_window_start b) > login_window)"

definition same_bucket :: "instant \<Rightarrow> login_bucket \<Rightarrow> login_bucket \<Rightarrow> bool" where
  "same_bucket now b b' \<longleftrightarrow> b = b' \<or> expired now b \<and> expired now b'"

lemma expired_later: "expired now b \<Longrightarrow> now \<le> u \<Longrightarrow> expired u b"
  using time_sub_mono [of now u "lb_window_start b"] by (auto simp: expired_def)

lemma bucket_allow_expired:
  "expired now b \<Longrightarrow> bucket_allow now b
     = (True, \<lparr>lb_attempts = 1, lb_window_start = now, lb_blocked_until = zero_time\<rparr>)"
  by (cases b) (auto simp: bucket_allow_def expired_def)

lemma same_bucket_allow:
  assumes "same_bucket now b b'"
  shows "bucket_allow now b = bucket_allow now b'"
  using assms by (auto simp: same_bucket_def bucket_allow_expired)

lemma empty_bucket_expired: "zero_time \<le> now \<Longrightarrow> expired now empty_bucket"
  by (simp add: expired_def empty_bucket_def is_zero_time_def)

lemma stale_expired: "stale now b \<Longrightarrow> expired now b"
  by (auto simp: stale_def expired_def limiter_durations)

section \<open>The interface of a limiter\<close>

text \<open>
  What the login handler relies on: requests of one address never change the answer another
  address gets, and a sweep is invisible: \<open>agree now\<close> relates states that answer alike from
  \<open>now\<close> on.
\<close>

datatype 'k limiter_event = Attempt 'k instant | Collect instant

fun limiter_time :: "'k limiter_event \<Rightarrow> instant" where
  "limiter_time (Attempt k t) = t" | "limiter_time (Collect t) = t"

fun limiter_run ::
  "('k \<Rightarrow> instant \<Rightarrow> 's \<Rightarrow> bool \<times> 's) \<Rightarrow> (instant \<Rightarrow> 's \<Rightarrow> 's) \<Rightarrow> 'k limiter_event list \<Rightarrow> 's
   \<Rightarrow> bool list \<times> 's" where
  "limiter_run allow sweep [] s = ([], s)"
| "limiter_run allow sweep (Attempt k t # es) s =
     (let (ok, s) = allow k t s; (oks, s) = limiter_run allow sweep es s in (ok # oks, s))"
| "limiter_run allow sweep (Collect t # es) s = limiter_run allow sweep es (sweep t s)"

definition attempts_only :: "'k limiter_event list \<Rightarrow> 'k limiter_event list" where
  "attempts_only es = filter (\<lambda>e. \<exists>k t. e = Attempt k t) es"

lemma attempts_only_simps [simp]:
  "attempts_only [] = []" "attempts_only (Attempt k t # es) = Attempt k t # attempts_only es"
  "attempts_only (Collect t # es) = attempts_only es"
  by (simp_all add: attempts_only_def)

locale rate_limiter =
  fixes allow :: "'k \<Rightarrow> instant \<Rightarrow> 's \<Rightarrow> bool \<times> 's"
    and sweep :: "instant \<Rightarrow> 's \<Rightarrow> 's"
    and agree :: "instant \<Rightarrow> 's \<Rightarrow> 's \<Rightarrow> bool"
    and epoch :: instant
  assumes agree_refl: "agree now s s"
    and agree_later: "agree now s s' \<Longrightarrow> now \<le> u \<Longrightarrow> agree u s s'"
    and agree_allow: "agree now s s' \<Longrightarrow> epoch \<le> now \<Longrightarrow> fst (allow k now s) = fst (allow k now s')
      \<and> agree now (snd (allow k now s)) (snd (allow k now s'))"
    and agree_sweep: "agree now s s' \<Longrightarrow> epoch \<le> now \<Longrightarrow> agree now (sweep now s) s'"
begin

lemma sweeps_invisible:
  assumes "agree now s s'" and "epoch \<le> now" and "sorted (now # map limiter_time es)"
  shows "fst (limiter_run allow sweep es s) = fst (limiter_run allow sweep (attempts_only es) s')"
  using assms
proof (induction es arbitrary: now s s')
  case (Cons e es)
  let ?t = "limiter_time e"
  have t: "agree ?t s s'" "epoch \<le> ?t" "sorted (?t # map limiter_time es)"
    using Cons.prems agree_later [of now s s' ?t] by auto
  show ?case
  proof (cases e)
    case (Attempt k u)
    have "fst (allow k u s) = fst (allow k u s')" "agree u (snd (allow k u s)) (snd (allow k u s'))"
      using agree_allow [of u s s' k] t Attempt by simp_all
    moreover have "sorted (u # map limiter_time es)" "epoch \<le> u" using t Attempt by simp_all
    ultimately show ?thesis
      using Cons.IH [of u "snd (allow k u s)" "snd (allow k u s')"]
      by (simp add: Attempt case_prod_beta Let_def)
  next
    case (Collect u)
    then show ?thesis
      using Cons.IH [of u "sweep u s" s'] agree_sweep [of u s s'] t by simp
  qed
qed simp

end

definition limiter_agree :: "instant \<Rightarrow> limiter \<Rightarrow> limiter \<Rightarrow> bool" where
  "limiter_agree now l l' \<longleftrightarrow> (\<forall>ip. same_bucket now (bucket_of (l ip)) (bucket_of (l' ip)))"

lemma login_allow_eq:
  "login_allow ip now l =
     (fst (bucket_allow now (bucket_of (l ip))), l(ip := Some (snd (bucket_allow now (bucket_of (l ip))))))"
  by (simp add: login_allow_def bucket_of_def Let_def case_prod_beta)

interpretation login_limiter: rate_limiter login_allow limiter_sweep limiter_agree zero_time
proof (unfold_locales, goal_cases)
  case (1 now s)
  show ?case by (simp add: limiter_agree_def same_bucket_def)
next
  case (2 now s s' u)
  then show ?case by (auto simp: limiter_agree_def same_bucket_def intro: expired_later)
next
  case (3 now s s' k)
  then have "bucket_allow now (bucket_of (s k)) = bucket_allow now (bucket_of (s' k))"
    by (intro same_bucket_allow) (simp add: limiter_agree_def)
  then show ?case using 3(1)
    by (auto simp: login_allow_eq limiter_agree_def same_bucket_def bucket_of_def)
next
  case (4 now s s')
  have "same_bucket now (bucket_of (limiter_sweep now s ip)) (bucket_of (s' ip))" for ip
  proof -
    have same: "same_bucket now (bucket_of (s ip)) (bucket_of (s' ip))"
      using 4(1) by (simp add: limiter_agree_def)
    show ?thesis
    proof (cases "\<exists>b. s ip = Some b \<and> stale now b")
      case True
      then have "expired now (bucket_of (s ip))" by (auto simp: bucket_of_def stale_expired)
      then have "expired now (bucket_of (s' ip))" using same by (auto simp: same_bucket_def)
      moreover have "bucket_of (limiter_sweep now s ip) = empty_bucket"
        using True by (auto simp: limiter_sweep_def bucket_of_def)
      ultimately show ?thesis using empty_bucket_expired [OF 4(2)] by (simp add: same_bucket_def)
    next
      case False
      then have "limiter_sweep now s ip = s ip"
        by (auto simp: limiter_sweep_def split: option.split)
      then show ?thesis using same by simp
    qed
  qed
  then show ?case by (simp add: limiter_agree_def)
qed

text \<open>
  C28. The hourly garbage collection of the buckets is invisible: whatever attempts and sweeps
  happen, in the order of the clock, every attempt gets the answer it would get if nothing were
  ever swept.
\<close>

theorem limiter_sweep_invisible:
  assumes "sorted (map limiter_time es)" and "\<forall>e \<in> set es. zero_time \<le> limiter_time e"
  shows "fst (limiter_run login_allow limiter_sweep es l)
    = fst (limiter_run login_allow limiter_sweep (attempts_only es) l)"
proof (cases es)
  case (Cons e es')
  then show ?thesis
    using assms login_limiter.sweeps_invisible [of "limiter_time e" l l es] login_limiter.agree_refl
    by simp
qed simp

theorem limiter_sweep_invisible_witness:
  "fst (limiter_run login_allow limiter_sweep
     [Attempt ''1.2.3.4'' 0, Collect (11 * minute), Attempt ''1.2.3.4'' (11 * minute)] new_login_rate_limiter)
   = fst (limiter_run login_allow limiter_sweep
     [Attempt ''1.2.3.4'' 0, Attempt ''1.2.3.4'' (11 * minute)] new_login_rate_limiter)"
  using limiter_sweep_invisible [of "[Attempt ''1.2.3.4'' 0, Collect (11 * minute), Attempt ''1.2.3.4'' (11 * minute)]"
      new_login_rate_limiter]
  by (simp add: unit_defs zero_time_def)

section \<open>One address\<close>

text \<open>The answers one address gets, from its own attempts alone.\<close>

fun bucket_run :: "instant list \<Rightarrow> login_bucket \<Rightarrow> bool list" where
  "bucket_run [] b = []"
| "bucket_run (t # ts) b = (let (ok, b) = bucket_allow t b in ok # bucket_run ts b)"

fun attempts_of :: "'k \<Rightarrow> 'k limiter_event list \<Rightarrow> instant list" where
  "attempts_of k [] = []"
| "attempts_of k (Attempt k' t # es) = (if k' = k then t # attempts_of k es else attempts_of k es)"
| "attempts_of k (Collect t # es) = attempts_of k es"

fun answers_to :: "'k \<Rightarrow> 'k limiter_event list \<Rightarrow> bool list \<Rightarrow> bool list" where
  "answers_to k (Attempt k' t # es) (ok # oks) =
     (if k' = k then ok # answers_to k es oks else answers_to k es oks)"
| "answers_to k (Collect t # es) oks = answers_to k es oks"
| "answers_to k _ _ = []"

lemma attempts_of_only [simp]: "attempts_of k (attempts_only es) = attempts_of k es"
  by (induction k es rule: attempts_of.induct) auto

lemma answers_attempts_only [simp]: "answers_to k (attempts_only es) oks = answers_to k es oks"
proof (induction es arbitrary: oks)
  case (Cons e es)
  then show ?case by (cases e; cases oks) simp_all
qed simp

lemma login_allow_sel:
  "fst (login_allow k t l) = fst (bucket_allow t (bucket_of (l k)))"
  "bucket_of (snd (login_allow k t l) ip)
     = (if k = ip then snd (bucket_allow t (bucket_of (l ip))) else bucket_of (l ip))"
  unfolding login_allow_eq by (simp_all add: bucket_of_def)

lemma addresses_independent:
  "answers_to ip (attempts_only es) (fst (limiter_run login_allow limiter_sweep (attempts_only es) l))
     = bucket_run (attempts_of ip es) (bucket_of (l ip))"
proof (induction es arbitrary: l)
  case (Cons e es)
  show ?case
  proof (cases e)
    case (Attempt k t)
    then show ?thesis
      using Cons.IH [of "snd (login_allow k t l)"]
      by (cases "k = ip") (simp_all add: case_prod_beta Let_def login_allow_sel)
  next
    case (Collect t)
    then show ?thesis using Cons.IH by simp
  qed
qed simp

lemma limiter_answers:
  assumes "sorted (map limiter_time es)" and "\<forall>e \<in> set es. zero_time \<le> limiter_time e"
  shows "answers_to ip es (fst (limiter_run login_allow limiter_sweep es l))
    = bucket_run (attempts_of ip es) (bucket_of (l ip))"
proof -
  have "fst (limiter_run login_allow limiter_sweep es l)
      = fst (limiter_run login_allow limiter_sweep (attempts_only es) l)"
  proof (cases es)
    case (Cons e es')
    then show ?thesis
      using assms login_limiter.sweeps_invisible [of "limiter_time e" l l es] login_limiter.agree_refl
      by simp
  qed simp
  then show ?thesis using addresses_independent [of ip es l] by simp
qed

section \<open>How many attempts get through\<close>

definition bucket_ok :: "login_bucket \<Rightarrow> bool" where
  "bucket_ok b \<longleftrightarrow> 0 \<le> lb_attempts b \<and> lb_attempts b \<le> 11 \<and>
     (lb_attempts b = 11 \<longrightarrow> lb_window_start b + 5 * minute \<le> lb_blocked_until b)"

definition accepted :: "bool list \<Rightarrow> nat" where
  "accepted oks = size (filter id oks)"

text \<open>The three things an attempt can be: refused at once, the start of a window, or counted.\<close>

lemma bucket_allow_cases:
  assumes "bucket_ok b" and "lb_window_start b \<le> now"
  obtains (blocked) "bucket_allow now b = (False, b)"
    | (fresh) "expired now b" "bucket_allow now b
        = (True, \<lparr>lb_attempts = 1, lb_window_start = now, lb_blocked_until = zero_time\<rparr>)"
    | (counted) "\<not> expired now b" "lb_attempts b \<le> 9"
        "bucket_allow now b = (True, b\<lparr>lb_attempts := lb_attempts b + 1\<rparr>)"
    | (full) "\<not> expired now b" "lb_attempts b = 10" "bucket_allow now b
        = (False, b\<lparr>lb_attempts := 11, lb_blocked_until := now + 5 * minute\<rparr>)"
proof (cases "now < lb_blocked_until b")
  case True
  then show ?thesis using blocked by (simp add: bucket_allow_def)
next
  case unblocked: False
  show ?thesis
  proof (cases "expired now b")
    case True
    then show ?thesis using fresh bucket_allow_expired by blast
  next
    case False
    then have live: "\<not> is_zero_time (lb_window_start b)" "\<not> time_sub now (lb_window_start b) > login_window"
      using unblocked by (auto simp: expired_def)
    have "in_int64 login_window" by (simp add: in_int64_iff limiter_durations)
    then have near: "now - lb_window_start b \<le> minute"
      using live(2) time_sub_greater_iff [of login_window now "lb_window_start b"]
      by (auto simp: login_window_def max_int64_def unit_defs)
    have not_full: "lb_attempts b \<le> 10"
    proof (rule ccontr)
      assume "\<not> lb_attempts b \<le> 10"
      then have "lb_window_start b + 5 * minute \<le> lb_blocked_until b"
        using assms(1) by (auto simp: bucket_ok_def)
      then show False using unblocked near by (simp add: unit_defs)
    qed
    have wrap: "wrap64 (lb_attempts b + 1) = lb_attempts b + 1"
      using assms(1) not_full by (intro wrap64_id) (simp add: bucket_ok_def in_int64_iff)
    show ?thesis
    proof (cases "lb_attempts b = 10")
      case True
      then show ?thesis using full False unblocked live wrap
        by (simp add: bucket_allow_def Let_def time_add_def login_block_duration_def)
    next
      case ten: False
      then show ?thesis using counted False unblocked live wrap not_full
        by (simp add: bucket_allow_def Let_def)
    qed
  qed
qed

lemma bucket_allow_ok:
  assumes "bucket_ok b" and "lb_window_start b \<le> now"
  shows "bucket_ok (snd (bucket_allow now b)) \<and> lb_window_start (snd (bucket_allow now b)) \<le> now"
  using assms by (cases rule: bucket_allow_cases) (use assms in \<open>auto simp: bucket_ok_def\<close>)

lemma div_window_step:
  fixes s t T W :: int
  assumes "0 < W" and "W < t - s"
  shows "1 + (T - t) div (W + 1) \<le> (T - s) div (W + 1)"
proof -
  have "(T - t + (W + 1)) div (W + 1) \<le> (T - s) div (W + 1)"
    using assms by (intro zdiv_mono1) auto
  then show ?thesis using assms(1) by (simp add: div_add_self2)
qed

text \<open>
  The budget of a bucket up to an instant \<open>T\<close>: what is left of its window, and ten for each
  window that can still start.
\<close>

definition budget :: "instant \<Rightarrow> login_bucket \<Rightarrow> int" where
  "budget T b = (10 - min 10 (lb_attempts b)) + 10 * ((T - lb_window_start b) div (minute + 1))"

lemma accepted_within_budget:
  assumes "bucket_ok b" and "zero_time < lb_window_start b" and "sorted (lb_window_start b # ts)"
    and "\<forall>t \<in> set ts. t \<le> T" and "lb_window_start b \<le> T"
  shows "int (accepted (bucket_run ts b)) \<le> budget T b"
  using assms
proof (induction ts arbitrary: b)
  case Nil
  then have "0 \<le> (T - lb_window_start b) div (minute + 1)"
    by (simp add: pos_imp_zdiv_nonneg_iff unit_defs)
  then show ?case by (simp add: accepted_def budget_def)
next
  case (Cons t ts)
  let ?b = "snd (bucket_allow t b)"
  have ws: "lb_window_start b \<le> t" and srt: "sorted (t # ts)" and tT: "t \<le> T" using Cons.prems by auto
  have ok: "bucket_ok ?b" "lb_window_start ?b \<le> t"
    using bucket_allow_ok [OF Cons.prems(1) ws] by auto
  have run: "bucket_run (t # ts) b = fst (bucket_allow t b) # bucket_run ts ?b"
    by (simp add: case_prod_beta Let_def)
  have srt': "sorted (lb_window_start ?b # ts)" using ok(2) srt by auto
  have IH: "int (accepted (bucket_run ts ?b)) \<le> budget T ?b" if "zero_time < lb_window_start ?b"
    using Cons.IH [OF ok(1) that srt'] Cons.prems(4) ok(2) tT by simp
  show ?case
    using Cons.prems(1) ws
  proof (cases rule: bucket_allow_cases)
    case blocked
    then show ?thesis using IH Cons.prems(2) run by (simp add: accepted_def)
  next
    case fresh
    have "in_int64 login_window" by (simp add: in_int64_iff limiter_durations)
    then have "minute < t - lb_window_start b"
      using fresh(1) Cons.prems(2) time_sub_greater_iff [of login_window t "lb_window_start b"]
      by (auto simp: expired_def is_zero_time_def login_window_def)
    then have "1 + (T - t) div (minute + 1) \<le> (T - lb_window_start b) div (minute + 1)"
      by (intro div_window_step) (simp_all add: unit_defs)
    moreover have "int (accepted (bucket_run ts ?b)) \<le> 9 + 10 * ((T - t) div (minute + 1))"
      using IH Cons.prems(2) ws fresh(2) by (simp add: budget_def)
    ultimately show ?thesis using run fresh(2) by (simp add: accepted_def budget_def)
  next
    case counted
    then show ?thesis using IH Cons.prems(2) run by (simp add: accepted_def budget_def)
  next
    case full
    then show ?thesis using IH Cons.prems(2) run by (simp add: accepted_def budget_def)
  qed
qed

lemma attempts_within_budget:
  assumes "sorted (map limiter_time es)" and "\<forall>e \<in> set es. zero_time < limiter_time e"
    and "attempts_of ip es = t1 # ts" and "\<forall>t \<in> set (t1 # ts). t \<le> T"
  shows "int (accepted (answers_to ip es (fst (limiter_run login_allow limiter_sweep es new_login_rate_limiter))))
    \<le> 10 * (1 + (T - t1) div (minute + 1))"
proof -
  have mem: "t \<in> limiter_time ` set es" if "t \<in> set (attempts_of ip es)" for t
    using that by (induction ip es rule: attempts_of.induct) (auto split: if_splits)
  have sub: "sorted (attempts_of ip es)"
  proof -
    have "set (attempts_of ip es) \<subseteq> limiter_time ` set es" for es :: "string limiter_event list"
      by (induction ip es rule: attempts_of.induct) (auto split: if_splits)
    with assms(1) show ?thesis
      by (induction ip es rule: attempts_of.induct) fastforce+
  qed
  then have srt: "sorted (t1 # ts)" using assms(3) by simp
  have t1: "zero_time < t1" using mem [of t1] assms(2,3) by auto
  let ?b = "\<lparr>lb_attempts = 1, lb_window_start = t1, lb_blocked_until = zero_time\<rparr>"
  have start: "bucket_of (new_login_rate_limiter ip) = empty_bucket"
    by (simp add: new_login_rate_limiter_def bucket_of_def)
  have "answers_to ip es (fst (limiter_run login_allow limiter_sweep es new_login_rate_limiter))
      = bucket_run (t1 # ts) empty_bucket"
    using limiter_answers [of es ip new_login_rate_limiter] assms(1-3) start by (simp add: order_less_imp_le)
  also have "\<dots> = True # bucket_run ts ?b"
    using bucket_allow_expired [OF empty_bucket_expired, of t1] t1 by simp
  finally have "int (accepted (answers_to ip es (fst (limiter_run login_allow limiter_sweep es new_login_rate_limiter))))
      = 1 + int (accepted (bucket_run ts ?b))" by (simp add: accepted_def)
  moreover have "int (accepted (bucket_run ts ?b)) \<le> budget T ?b"
    using srt t1 assms(4) by (intro accepted_within_budget) (simp_all add: bucket_ok_def)
  ultimately show ?thesis by (simp add: budget_def)
qed

text \<open>
  Whatever the other addresses do and whenever buckets are swept, one address gets at most
  ten attempts through per window: from its first attempt at \<open>t1\<close> up to \<open>T\<close> at most
  \<open>10 * (1 + (T - t1) div (1 min + 1 ns))\<close>.
\<close>

lemma login_attempts_bounded:
  assumes "sorted (map limiter_time es)" and "\<forall>e \<in> set es. zero_time < limiter_time e"
    and "attempts_of ip es = t1 # ts" and "\<forall>t \<in> set (t1 # ts). t \<le> T"
  shows "int (accepted (answers_to ip es (fst (limiter_run login_allow limiter_sweep es new_login_rate_limiter))))
    \<le> 10 * (1 + (T - t1) div (minute + 1))"
  using assms by (rule attempts_within_budget)

lemma login_attempts_bounded_witness:
  "int (accepted (answers_to ''a'' [Attempt ''a'' 5, Attempt ''b'' 6, Attempt ''a'' 7]
     (fst (limiter_run login_allow limiter_sweep [Attempt ''a'' 5, Attempt ''b'' 6, Attempt ''a'' 7]
        new_login_rate_limiter)))) \<le> 10"
  using login_attempts_bounded [of "[Attempt ''a'' 5, Attempt ''b'' 6, Attempt ''a'' 7]" "''a''" 5 "[7]" 7]
  by (simp add: zero_time_def unit_defs)

lemma bucket_run_blocked:
  "\<forall>t \<in> set ts. t < lb_blocked_until b \<Longrightarrow> bucket_run ts b = replicate (size ts) False"
  by (induction ts) (auto simp: bucket_allow_def)

lemma bucket_run_burst:
  assumes "size ts + nat a = 10" and "1 \<le> a" and "zero_time < t1"
    and "\<forall>t \<in> set (ts @ [u]). t1 \<le> t \<and> t \<le> t1 + minute"
    and "\<forall>t \<in> set us. t < u + 5 * minute"
  shows "bucket_run (ts @ u # us) \<lparr>lb_attempts = a, lb_window_start = t1, lb_blocked_until = zero_time\<rparr>
    = replicate (size ts) True @ replicate (Suc (size us)) False"
  using assms
proof (induction ts arbitrary: a)
  case Nil
  have "in_int64 login_window" by (simp add: in_int64_iff limiter_durations)
  then have "\<not> login_window < time_sub u t1"
    using Nil.prems(4) time_sub_greater_iff [of login_window u t1] by (auto simp: login_window_def)
  moreover have "a = 10" "\<not> is_zero_time t1" "\<not> u < zero_time" using Nil.prems by (auto simp: is_zero_time_def)
  ultimately show ?case
    using bucket_run_blocked [of us "\<lparr>lb_attempts = 11, lb_window_start = t1, lb_blocked_until = u + 5 * minute\<rparr>"]
      Nil.prems(5) by (simp add: bucket_allow_def Let_def wrap64_def time_add_def login_block_duration_def)
next
  case (Cons t ts)
  have "in_int64 login_window" by (simp add: in_int64_iff limiter_durations)
  then have "\<not> login_window < time_sub t t1"
    using Cons.prems(4) time_sub_greater_iff [of login_window t t1] by (auto simp: login_window_def)
  moreover have "a \<le> 9" "\<not> is_zero_time t1" "\<not> t < zero_time" using Cons.prems by (auto simp: is_zero_time_def)
  moreover have "wrap64 (a + 1) = a + 1"
    using Cons.prems(2) \<open>a \<le> 9\<close> by (intro wrap64_id) (simp add: in_int64_iff)
  ultimately show ?case
    using Cons.IH [of "a + 1"] Cons.prems
    by (simp add: bucket_allow_def Let_def nat_add_distrib)
qed

text \<open>
  A burst from one address: of eleven attempts within a minute of the first, the first ten
  are let through and the eleventh is refused, and so is every further one in the five minutes
  after it.
\<close>

lemma login_burst_blocked:
  assumes "sorted (map limiter_time es)" and "\<forall>e \<in> set es. zero_time < limiter_time e"
    and "attempts_of ip es = t1 # ts @ u # us" and "size ts = 9"
    and "\<forall>t \<in> set (ts @ [u]). t1 \<le> t \<and> t \<le> t1 + minute" and "\<forall>t \<in> set us. t < u + 5 * minute"
  shows "answers_to ip es (fst (limiter_run login_allow limiter_sweep es new_login_rate_limiter))
    = replicate 10 True @ replicate (Suc (size us)) False"
proof -
  have mem: "t \<in> limiter_time ` set es" if "t \<in> set (attempts_of ip es)" for t
    using that by (induction ip es rule: attempts_of.induct) (auto split: if_splits)
  have t1: "zero_time < t1" using mem [of t1] assms(2,3) by auto
  let ?b = "\<lparr>lb_attempts = 1, lb_window_start = t1, lb_blocked_until = zero_time\<rparr>"
  have start: "bucket_of (new_login_rate_limiter ip) = empty_bucket"
    by (simp add: new_login_rate_limiter_def bucket_of_def)
  have "answers_to ip es (fst (limiter_run login_allow limiter_sweep es new_login_rate_limiter))
      = bucket_run (t1 # ts @ u # us) empty_bucket"
    using limiter_answers [of es ip new_login_rate_limiter] assms(1-3) start by (simp add: order_less_imp_le)
  also have "\<dots> = True # bucket_run (ts @ u # us) ?b"
    using bucket_allow_expired [OF empty_bucket_expired, of t1] t1 by simp
  also have "bucket_run (ts @ u # us) ?b = replicate (size ts) True @ replicate (Suc (size us)) False"
    using assms(4-6) t1 by (intro bucket_run_burst) simp_all
  finally show ?thesis using assms(4) by (simp flip: replicate_Suc)
qed

lemma login_burst_blocked_witness:
  "let es = map (\<lambda>i. Attempt ''a'' (int i)) [1..<13]
   in answers_to ''a'' es (fst (limiter_run login_allow limiter_sweep es new_login_rate_limiter))
      = replicate 10 True @ [False, False]"
  using login_burst_blocked [of "map (\<lambda>i. Attempt ''a'' (int i)) [1..<13]" "''a''" 1
      "map int [2..<11]" 11 "[12]"]
  by (simp add: upt_rec zero_time_def unit_defs)

text \<open>
  The window is fixed, not sliding: around the end of one, nineteen attempts get through within
  a nanosecond.
\<close>

lemma window_straddled:
  "bucket_run (0 # replicate 9 minute @ replicate 10 (minute + 1)) empty_bucket = replicate 20 True"
  by (simp add: bucket_allow_def empty_bucket_def zero_time_def is_zero_time_def Let_def wrap64_def
      time_sub_def min_int64_def max_int64_def limiter_durations eval_nat_numeral)

end
