(* ===== verification/Auth.thy ===== *)
theory Auth
  imports GoStrings
begin

unbundle bit_operations_syntax

text \<open>
  The credential check of cmd/client/login.go, and the constant-time comparison it is made of,
  on bytes as 8-bit words and lengths as 32-bit words, as crypto/subtle has them.
\<close>

record auth_config =
  auth_username :: string
  auth_password :: string

definition bytes_of :: "string \<Rightarrow> 8 word list" where
  "bytes_of s = map (\<lambda>c. of_nat (of_char c)) s"

text \<open>\<open>subtle.ConstantTimeEq\<close> on int32, \<open>subtle.ConstantTimeCompare\<close> on slices of one length.\<close>

definition constant_time_eq :: "32 word \<Rightarrow> 32 word \<Rightarrow> go_int" where
  "constant_time_eq x y = (if x XOR y = 0 then 1 else 0)"

definition constant_time_compare :: "8 word list \<Rightarrow> 8 word list \<Rightarrow> go_int" where
  "constant_time_compare xs ys =
     (if size xs \<noteq> size ys then 0
      else if fold (\<lambda>(x, y) v. v OR (x XOR y)) (zip xs ys) 0 = 0 then 1 else 0)"

definition zero_padded :: "nat \<Rightarrow> 8 word list \<Rightarrow> 8 word list" where
  "zero_padded n bs = bs @ replicate (n - size bs) 0"

definition constant_time_match :: "string \<Rightarrow> string \<Rightarrow> bool" where
  "constant_time_match expected actual =
     (let e = bytes_of expected; a = bytes_of actual;
          max_len = (if size a > size e then size a else size e);
          length_match = constant_time_eq (of_nat (size e)) (of_nat (size a));
          value_match = constant_time_compare (zero_padded max_len e) (zero_padded max_len a)
      in length_match = 1 \<and> value_match = 1)"

definition verify :: "auth_config \<Rightarrow> string \<Rightarrow> string \<Rightarrow> bool" where
  "verify auth username password =
     (let password_ok = constant_time_match (auth_password auth) password
      in if auth_username auth = [] then constant_time_match [] username \<and> password_ok
         else constant_time_match (auth_username auth) username \<and> password_ok)"

section \<open>It decides equality\<close>

lemma xor_zero_iff: "(x :: 'a::len word) XOR y = 0 \<longleftrightarrow> x = y"
  by (metis bit.xor_self xor.assoc xor.left_neutral xor.right_neutral)

lemma or_zero_iff: "(x :: 'a::len word) OR y = 0 \<longleftrightarrow> x = 0 \<and> y = 0"
  by (simp add: or_eq_0_iff)

lemma constant_time_eq_iff [simp]: "constant_time_eq x y = 1 \<longleftrightarrow> x = y"
  by (simp add: constant_time_eq_def xor_zero_iff)

lemma fold_xor_or:
  "fold (\<lambda>(x, y) v. v OR (x XOR y)) ps (w :: 8 word) = 0 \<longleftrightarrow> w = 0 \<and> (\<forall>(x, y) \<in> set ps. x = y)"
  by (induction ps arbitrary: w) (auto simp: or_zero_iff xor_zero_iff)

lemma constant_time_compare_iff [simp]:
  "size xs = size ys \<Longrightarrow> constant_time_compare xs ys = 1 \<longleftrightarrow> xs = ys"
  by (auto simp: constant_time_compare_def fold_xor_or list_eq_iff_zip_eq)

lemma byte_word_inj: "(of_nat (of_char c) :: 8 word) = of_nat (of_char d) \<longleftrightarrow> c = d"
proof -
  have "of_char c < (256 :: nat)" "of_char d < (256 :: nat)" by simp_all
  then show ?thesis by (simp add: word_of_nat_eq_iff take_bit_eq_mod)
qed

lemma bytes_of_inj: "bytes_of s = bytes_of t \<longleftrightarrow> s = t"
  unfolding bytes_of_def by (rule inj_map_eq_map) (simp add: inj_def byte_word_inj)

lemma size_bytes_of [simp]: "size (bytes_of s) = size s"
  by (simp add: bytes_of_def)

lemma zero_padded_size: "size bs \<le> n \<Longrightarrow> size (zero_padded n bs) = n"
  by (simp add: zero_padded_def)

lemma constant_time_match_iff:
  assumes "size expected < 2 ^ 32" and "size actual < 2 ^ 32"
  shows "constant_time_match expected actual \<longleftrightarrow> expected = actual"
proof -
  have len: "(of_nat (size expected) :: 32 word) = of_nat (size actual) \<longleftrightarrow> size expected = size actual"
    using assms by (simp add: word_of_nat_eq_iff take_bit_eq_mod)
  show ?thesis
  proof (cases "size expected = size actual")
    case True
    then show ?thesis
      by (simp add: constant_time_match_def Let_def zero_padded_def bytes_of_inj)
  next
    case False
    then show ?thesis using len by (auto simp: constant_time_match_def Let_def)
  qed
qed

text \<open>
  C30. A login is accepted exactly when password and username are the configured ones, byte for
  byte; with no username configured the submitted one must be empty. (The lengths are compared
  as 32-bit numbers, which a body of at most 8 KiB cannot overflow.)
\<close>

theorem verify_is_equality:
  assumes "size (auth_password auth) < 2 ^ 32" and "size (auth_username auth) < 2 ^ 32"
    and "size username < 2 ^ 32" and "size password < 2 ^ 32"
  shows "verify auth username password \<longleftrightarrow>
    username = auth_username auth \<and> password = auth_password auth"
  using assms by (auto simp: verify_def Let_def constant_time_match_iff)

theorem verify_is_equality_witness:
  "verify \<lparr>auth_username = [], auth_password = ''secret''\<rparr> [] ''secret''
   \<and> \<not> verify \<lparr>auth_username = [], auth_password = ''secret''\<rparr> [] ''secres''"
  using verify_is_equality [of "\<lparr>auth_username = [], auth_password = ''secret''\<rparr>" "[]" "''secret''"]
    verify_is_equality [of "\<lparr>auth_username = [], auth_password = ''secret''\<rparr>" "[]" "''secres''"]
  by simp

end
