(* ===== verification/Status.thy ===== *)
theory Status
  imports Pool
begin

text \<open>
  The runtime state a client exposes (pkg/client/status.go, syncPoolStatus and updateStatus of
  pkg/client/client.go) and the connected gauge (pkg/client/metrics.go). The gauge of active streams
  is \<open>cl_active_streams\<close> of theory Session, the counter of responses by status code the list
  \<open>ps_observed\<close> of theory Proxy.
\<close>

record connection_status =
  st_connected :: bool
  st_server :: string
  st_subdomain :: string
  st_session_id :: string
  st_active_connections :: go_int
  st_max_connections :: go_int
  st_control_connection :: go_int
  st_last_error :: string
  st_reconnect_attempt :: go_int
  st_last_connected_at :: instant
  st_last_disconnected_at :: instant

definition zero_status :: connection_status where
  "zero_status = \<lparr>st_connected = False, st_server = [], st_subdomain = [], st_session_id = [],
     st_active_connections = 0, st_max_connections = 0, st_control_connection = 0,
     st_last_error = [], st_reconnect_attempt = 0, st_last_connected_at = zero_time,
     st_last_disconnected_at = zero_time\<rparr>"

text \<open>The client's published state and the connected gauge, which updateStatus sets with it.\<close>

record published =
  pub_status :: connection_status
  pub_connected_metric :: go_int

definition set_connected_metric :: "bool \<Rightarrow> published \<Rightarrow> published" where
  "set_connected_metric connected p = p\<lparr>pub_connected_metric := (if connected then 1 else 0)\<rparr>"

definition update_status :: "(connection_status \<Rightarrow> connection_status) \<Rightarrow> published \<Rightarrow> published" where
  "update_status f p =
     (let s = f (pub_status p) in set_connected_metric (st_connected s) (p\<lparr>pub_status := s\<rparr>))"

definition snapshot_status :: "published \<Rightarrow> connection_status" where
  "snapshot_status p = pub_status p"

definition pool_status :: "connection_pool \<Rightarrow> connection_status \<Rightarrow> connection_status" where
  "pool_status pool s =
     (let snap = pool_snapshot_of pool
      in s\<lparr>st_connected := snap_active snap > 0, st_server := server pool,
           st_subdomain := subdomain pool, st_session_id := session_id pool,
           st_active_connections := snap_active snap, st_max_connections := snap_max_conns snap,
           st_control_connection := snap_control_index snap\<rparr>)"

definition sync_pool_status :: "connection_pool \<Rightarrow> published \<Rightarrow> published" where
  "sync_pool_status pool p = update_status (pool_status pool) p"

text \<open>The gauge follows the flag through every update.\<close>

definition gauge_ok :: "published \<Rightarrow> bool" where
  "gauge_ok p \<longleftrightarrow> pub_connected_metric p = (if st_connected (pub_status p) then 1 else 0)"

lemma update_status_gauge [simp]: "gauge_ok (update_status f p)"
  by (simp add: gauge_ok_def update_status_def set_connected_metric_def Let_def)

lemma update_status_status [simp]: "pub_status (update_status f p) = f (pub_status p)"
  by (simp add: update_status_def set_connected_metric_def Let_def)

lemma sync_pool_status_sel:
  "st_connected (pub_status (sync_pool_status pool p)) \<longleftrightarrow> active_count_locked pool > 0"
  "st_active_connections (pub_status (sync_pool_status pool p)) = active_count_locked pool"
  "st_max_connections (pub_status (sync_pool_status pool p)) = max_conns pool"
  "st_control_connection (pub_status (sync_pool_status pool p)) = control_index pool"
  by (simp_all add: sync_pool_status_def pool_status_def pool_snapshot_of_def Let_def)

text \<open>
  syncPoolStatus reads the pool under the pool's lock and publishes under the status lock, so two
  of them can cross: the one that read first publishes last, and the status keeps the older
  state of the pool until the next change. (In theory Session they are two actions of a goroutine.)
\<close>

lemma crossed_syncs_publish_the_past:
  assumes "active_count_locked older \<noteq> active_count_locked newer"
    and "read_first = pool_status older" and "read_second = pool_status newer"
  shows "st_active_connections (pub_status (update_status read_first (update_status read_second p)))
    \<noteq> active_count_locked newer"
  using assms by (simp add: pool_status_def pool_snapshot_of_def Let_def)

end
