(* ===== verification/Controller.thy ===== *)
theory Controller
  imports Config Status
begin

text \<open>
  The client controller of cmd/client/ui.go, which owns the running client: Start, Stop and
  ApplyConfig, each split at the places where it releases its lock or waits, so that calls from
  several goroutines (the web UI serves requests concurrently) interleave. A run of a client is
  a number; its goroutine ends only after its context has been cancelled, because Client.Run
  returns on nothing else. (The root context is alive: its cancellation ends every run and the
  process.)
\<close>

type_synonym run_id = nat

record controller =
  ctl_cfg :: config
  ctl_runner :: "run_id option"
  ctl_cancel :: "run_id option"
  ctl_done :: "run_id option"

record runtime =
  ctl :: controller
  run_cfg :: "run_id \<Rightarrow> config"
  cancelled :: "run_id set"
  finished :: "run_id set"
  next_run :: run_id

definition new_client_controller :: "config \<Rightarrow> controller" where
  "new_client_controller cfg = \<lparr>ctl_cfg = cfg, ctl_runner = None, ctl_cancel = None, ctl_done = None\<rparr>"

definition new_runtime :: "config \<Rightarrow> runtime" where
  "new_runtime cfg = \<lparr>ctl = new_client_controller cfg, run_cfg = (\<lambda>_. cfg), cancelled = {},
     finished = {}, next_run = 0\<rparr>"

definition start_locked :: "runtime \<Rightarrow> runtime" where
  "start_locked w =
     (let r = next_run w
      in w\<lparr>ctl := (ctl w)\<lparr>ctl_runner := Some r, ctl_cancel := Some r, ctl_done := Some r\<rparr>,
           run_cfg := (run_cfg w)(r := ctl_cfg (ctl w)), next_run := Suc r\<rparr>)"

text \<open>The first critical section of Stop and of ApplyConfig: what the call goes on with.\<close>

definition take_run :: "runtime \<Rightarrow> (run_id option \<times> run_id option) \<times> runtime" where
  "take_run w = ((ctl_cancel (ctl w), ctl_done (ctl w)),
     w\<lparr>ctl := (ctl w)\<lparr>ctl_cancel := None, ctl_done := None, ctl_runner := None\<rparr>\<rparr>)"

definition take_run_with :: "config \<Rightarrow> runtime \<Rightarrow> (run_id option \<times> run_id option) \<times> runtime" where
  "take_run_with cfg w = take_run (w\<lparr>ctl := (ctl w)\<lparr>ctl_cfg := cfg\<rparr>\<rparr>)"

definition cancel_run :: "run_id option \<Rightarrow> runtime \<Rightarrow> runtime" where
  "cancel_run c w = (case c of None \<Rightarrow> w | Some r \<Rightarrow> w\<lparr>cancelled := insert r (cancelled w)\<rparr>)"

definition wait_over :: "run_id option \<Rightarrow> runtime \<Rightarrow> bool" where
  "wait_over d w = (case d of None \<Rightarrow> True | Some r \<Rightarrow> r \<in> finished w)"

text \<open>The configuration and the status shown; \<open>statuses\<close> is SnapshotStatus of each run.\<close>

definition controller_snapshot ::
  "(run_id \<Rightarrow> connection_status) \<Rightarrow> runtime \<Rightarrow> config \<times> connection_status" where
  "controller_snapshot statuses w =
     (ctl_cfg (ctl w), case ctl_runner (ctl w) of None \<Rightarrow> zero_status | Some r \<Rightarrow> statuses r)"

text \<open>ApplyConfig without interference: the run it took ends once it is cancelled.\<close>

definition finish_run :: "run_id option \<Rightarrow> runtime \<Rightarrow> runtime" where
  "finish_run d w = (case d of None \<Rightarrow> w | Some r \<Rightarrow> w\<lparr>finished := insert r (finished w)\<rparr>)"

definition apply_config :: "config \<Rightarrow> runtime \<Rightarrow> runtime" where
  "apply_config cfg w =
     (let ((c, d), w) = take_run_with cfg w
      in start_locked (finish_run d (cancel_run c w)))"

definition stop :: "runtime \<Rightarrow> runtime" where
  "stop w = (let ((c, d), w) = take_run w in finish_run d (cancel_run c w))"

lemma start_locked_fresh:
  "ctl_cfg (ctl (start_locked w)) = ctl_cfg (ctl w)" "ctl_runner (ctl (start_locked w)) = Some (next_run w)"
  "run_cfg (start_locked w) (next_run w) = ctl_cfg (ctl w)" "next_run (start_locked w) = Suc (next_run w)"
  "cancelled (start_locked w) = cancelled w" "finished (start_locked w) = finished w"
  "r \<noteq> next_run w \<Longrightarrow> run_cfg (start_locked w) r = run_cfg w r"
  by (simp_all add: start_locked_def Let_def)

lemma apply_config_effect:
  "ctl_cfg (ctl (apply_config cfg w)) = cfg" "ctl_runner (ctl (apply_config cfg w)) = Some (next_run w)"
  "run_cfg (apply_config cfg w) (next_run w) = cfg" "next_run (apply_config cfg w) = Suc (next_run w)"
  "r \<noteq> next_run w \<Longrightarrow> run_cfg (apply_config cfg w) r = run_cfg w r"
  "ctl_done (ctl w) = Some r \<Longrightarrow> r \<in> finished (apply_config cfg w)"
  by (auto simp: apply_config_def take_run_with_def take_run_def start_locked_fresh finish_run_def
      cancel_run_def start_locked_def Let_def split: option.split)

section \<open>Calls from several goroutines\<close>

datatype phase =
    Idle
  | WantsStart
  | WantsStop
  | WantsApply config
  | Cancelling bool "run_id option" "run_id option" \<comment> \<open>whether the call restarts; cancel; done\<close>
  | Waiting bool "run_id option"
  | Restarting

type_synonym thread = nat
type_synonym ctl_state = "runtime \<times> (thread \<Rightarrow> phase)"

inductive ctl_step :: "ctl_state \<Rightarrow> ctl_state \<Rightarrow> bool" where
  Call: "ts t = Idle \<Longrightarrow> p \<in> {WantsStart, WantsStop} \<union> range WantsApply \<Longrightarrow>
    ctl_step (w, ts) (w, ts(t := p))"
| Start: "ts t = WantsStart \<Longrightarrow> ctl_step (w, ts) (start_locked w, ts(t := Idle))"
| StopTake: "ts t = WantsStop \<Longrightarrow> take_run w = ((c, d), w') \<Longrightarrow>
    ctl_step (w, ts) (w', ts(t := Cancelling False c d))"
| ApplyTake: "ts t = WantsApply cfg \<Longrightarrow> take_run_with cfg w = ((c, d), w') \<Longrightarrow>
    ctl_step (w, ts) (w', ts(t := Cancelling True c d))"
| Cancel: "ts t = Cancelling k c d \<Longrightarrow> ctl_step (w, ts) (cancel_run c w, ts(t := Waiting k d))"
| WaitOver: "ts t = Waiting k d \<Longrightarrow> wait_over d w \<Longrightarrow>
    ctl_step (w, ts) (w, ts(t := (if k then Restarting else Idle)))"
| Restart: "ts t = Restarting \<Longrightarrow> ctl_step (w, ts) (start_locked w, ts(t := Idle))"
| Finish: "r \<in> cancelled w \<Longrightarrow> r < next_run w \<Longrightarrow>
    ctl_step (w, ts) (w\<lparr>finished := insert r (finished w)\<rparr>, ts)"

inductive_cases ctl_stepE: "ctl_step (w, ts) s'"

inductive ctl_reach :: "ctl_state \<Rightarrow> ctl_state \<Rightarrow> bool" for s where
  Refl: "ctl_reach s s"
| Step: "ctl_reach s s' \<Longrightarrow> ctl_step s' s'' \<Longrightarrow> ctl_reach s s''"

text \<open>A client that runs and that nobody has told to stop.\<close>

definition active_runs :: "runtime \<Rightarrow> run_id set" where
  "active_runs w = {r. r < next_run w \<and> r \<notin> cancelled w \<and> r \<notin> finished w}"

lemmas runtime_defs = start_locked_def take_run_def take_run_with_def cancel_run_def Let_def

definition unfinished_runs :: "runtime \<Rightarrow> run_id set" where
  "unfinished_runs w = {r. r < next_run w \<and> r \<notin> finished w}"

lemma unfinished_runs_simps [simp]:
  "unfinished_runs (w\<lparr>ctl := x\<rparr>) = unfinished_runs w"
  "unfinished_runs (cancel_run c w) = unfinished_runs w"
  "unfinished_runs (w\<lparr>finished := insert r (finished w)\<rparr>) = unfinished_runs w - {r}"
  "unfinished_runs (w\<lparr>ctl := x, run_cfg := f, next_run := n\<rparr>) = unfinished_runs (w\<lparr>next_run := n\<rparr>)"
  by (auto simp: unfinished_runs_def cancel_run_def split: option.split)

lemma unfinished_start: "unfinished_runs w = {} \<Longrightarrow> unfinished_runs (start_locked w) \<subseteq> {next_run w}"
  by (auto simp: unfinished_runs_def start_locked_def Let_def less_Suc_eq)

section \<open>One caller at a time\<close>

text \<open>No two calls overlap, and Start is not called again.\<close>

definition tame :: "ctl_state \<Rightarrow> bool" where
  "tame s \<longleftrightarrow> (\<forall>t t'. snd s t \<noteq> Idle \<and> snd s t' \<noteq> Idle \<longrightarrow> t = t') \<and> (\<forall>t. snd s t \<noteq> WantsStart)"

inductive tame_reach :: "ctl_state \<Rightarrow> ctl_state \<Rightarrow> bool" for s where
  TameRefl: "tame_reach s s"
| TameStep: "tame_reach s s' \<Longrightarrow> ctl_step s' s'' \<Longrightarrow> tame s'' \<Longrightarrow> tame_reach s s''"

text \<open>The run that the call under way, or else the controller, will wait for.\<close>

fun awaited :: "phase \<Rightarrow> runtime \<Rightarrow> run_id set" where
  "awaited (Cancelling k c d) w = set_option d"
| "awaited (Waiting k d) w = set_option d"
| "awaited Restarting w = {}"
| "awaited _ w = set_option (ctl_done (ctl w))"

definition one_run :: "ctl_state \<Rightarrow> bool" where
  "one_run s \<longleftrightarrow> (\<forall>t. (\<forall>t'. t' \<noteq> t \<longrightarrow> snd s t' = Idle) \<longrightarrow> unfinished_runs (fst s) \<subseteq> awaited (snd s t) (fst s))"

lemma tame_others: "tame (w, ts) \<Longrightarrow> ts t \<noteq> Idle \<Longrightarrow> t' \<noteq> t \<Longrightarrow> ts t' = Idle"
  by (auto simp: tame_def)

text \<open>In a tame state one thread decides.\<close>

lemma one_runI:
  assumes "unfinished_runs w \<subseteq> awaited (ts t) w" and "\<And>t'. t' \<noteq> t \<Longrightarrow> ts t' = Idle"
  shows "one_run (w, ts)"
  unfolding one_run_def
proof (intro allI impI)
  fix u assume u: "\<forall>t'. t' \<noteq> u \<longrightarrow> snd (w, ts) t' = Idle"
  show "unfinished_runs (fst (w, ts)) \<subseteq> awaited (snd (w, ts) u) (fst (w, ts))"
  proof (cases "u = t")
    case False
    then have "ts t = Idle" "ts u = Idle" using u assms(2) by auto
    then show ?thesis using assms(1) by simp
  qed (use assms(1) in simp)
qed

lemma one_runD:
  assumes "one_run (w, ts)" and "tame (w, ts)" and "ts t \<noteq> Idle"
  shows "unfinished_runs w \<subseteq> awaited (ts t) w"
  using assms tame_others [OF assms(2,3)] by (auto simp: one_run_def)

lemma one_run_idle:
  assumes "one_run (w, ts)" and "\<And>t. ts t = Idle"
  shows "unfinished_runs w \<subseteq> set_option (ctl_done (ctl w))"
  using assms by (force simp: one_run_def)

lemma one_run_upd:
  assumes "unfinished_runs w' \<subseteq> awaited p w'" and "\<forall>t'. t' \<noteq> t \<longrightarrow> ts t' = Idle"
  shows "one_run (w', ts(t := p))"
  using assms by (intro one_runI [of _ _ t]) simp_all

lemma take_run_unfinished:
  "take_run w = (cd, w') \<Longrightarrow> unfinished_runs w' = unfinished_runs w \<and> snd cd = ctl_done (ctl w)"
  by (auto simp: take_run_def)

lemma take_run_with_unfinished:
  "take_run_with cfg w = (cd, w') \<Longrightarrow> unfinished_runs w' = unfinished_runs w \<and> snd cd = ctl_done (ctl w)"
  by (auto simp: take_run_def take_run_with_def)

lemma one_run_step:
  assumes "ctl_step s s'" and "tame s" and "tame s'" and "one_run s"
  shows "one_run s'"
  using assms
proof (induction rule: ctl_step.induct)
  case (Call ts t p w)
  have others: "\<forall>t'. t' \<noteq> t \<longrightarrow> ts t' = Idle"
    using tame_others [OF Call.prems(2), of t] Call.hyps(2) by auto
  then have "ts t' = Idle" for t' using Call.hyps(1) by (cases "t' = t") simp_all
  then have "unfinished_runs w \<subseteq> set_option (ctl_done (ctl w))" using one_run_idle Call.prems(3) by blast
  then have "unfinished_runs w \<subseteq> awaited p w" using Call.hyps(2) by (cases p) auto
  then show ?case using others by (rule one_run_upd)
next
  case (Start ts t w)
  then show ?case by (auto simp: tame_def)
next
  case (StopTake ts t w c d w')
  have "unfinished_runs w \<subseteq> awaited (ts t) w"
    by (rule one_runD [OF StopTake.prems(3,1)]) (simp add: StopTake.hyps)
  then have "unfinished_runs w' \<subseteq> awaited (Cancelling False c d) w'"
    using take_run_unfinished [OF StopTake.hyps(2)] StopTake.hyps(1) by simp
  then show ?case
    by (rule one_run_upd) (use tame_others [OF StopTake.prems(1), of t] StopTake.hyps(1) in auto)
next
  case (ApplyTake ts t cfg w c d w')
  have "unfinished_runs w \<subseteq> awaited (ts t) w"
    by (rule one_runD [OF ApplyTake.prems(3,1)]) (simp add: ApplyTake.hyps)
  then have "unfinished_runs w' \<subseteq> awaited (Cancelling True c d) w'"
    using take_run_with_unfinished [OF ApplyTake.hyps(2)] ApplyTake.hyps(1) by simp
  then show ?case
    by (rule one_run_upd) (use tame_others [OF ApplyTake.prems(1), of t] ApplyTake.hyps(1) in auto)
next
  case (Cancel ts t k c d w)
  have "unfinished_runs w \<subseteq> awaited (ts t) w"
    by (rule one_runD [OF Cancel.prems(3,1)]) (simp add: Cancel.hyps)
  then have "unfinished_runs (cancel_run c w) \<subseteq> awaited (Waiting k d) (cancel_run c w)"
    using Cancel.hyps by simp
  then show ?case
    by (rule one_run_upd) (use tame_others [OF Cancel.prems(1), of t] Cancel.hyps in auto)
next
  case (WaitOver ts t k d w)
  have "unfinished_runs w \<subseteq> awaited (ts t) w"
    by (rule one_runD [OF WaitOver.prems(3,1)]) (simp add: WaitOver.hyps)
  then have "unfinished_runs w = {}"
    using WaitOver.hyps by (cases d) (auto simp: wait_over_def unfinished_runs_def)
  then have "unfinished_runs w \<subseteq> awaited (if k then Restarting else Idle) w" by simp
  then show ?case
    by (rule one_run_upd) (use tame_others [OF WaitOver.prems(1), of t] WaitOver.hyps(1) in auto)
next
  case (Restart ts t w)
  have "unfinished_runs w \<subseteq> awaited (ts t) w"
    by (rule one_runD [OF Restart.prems(3,1)]) (simp add: Restart.hyps)
  then have "unfinished_runs w = {}" using Restart.hyps by simp
  then have "unfinished_runs (start_locked w) \<subseteq> {next_run w}" by (rule unfinished_start)
  moreover have "ctl_done (ctl (start_locked w)) = Some (next_run w)" by (simp add: start_locked_def Let_def)
  ultimately have "unfinished_runs (start_locked w) \<subseteq> awaited Idle (start_locked w)" by simp
  then show ?case
    by (rule one_run_upd) (use tame_others [OF Restart.prems(1), of t] Restart.hyps in auto)
next
  case (Finish r w ts)
  have "awaited p (w\<lparr>finished := insert r (finished w)\<rparr>) = awaited p w" for p
    by (cases p) simp_all
  with Finish.prems(3) show ?case
    unfolding one_run_def fst_conv snd_conv unfinished_runs_simps by blast
qed

lemma tame_reach_one_run:
  assumes "tame_reach s s'" and "tame s" and "one_run s"
  shows "tame s' \<and> one_run s'"
  using assms by (induction rule: tame_reach.induct) (auto intro: one_run_step)

definition started :: "config \<Rightarrow> ctl_state" where
  "started cfg = (start_locked (new_runtime cfg), \<lambda>_. Idle)"

lemma started_ok: "tame (started cfg) \<and> one_run (started cfg)"
proof -
  have "unfinished_runs (start_locked (new_runtime cfg)) \<subseteq> {0}"
    using unfinished_start [of "new_runtime cfg"] by (simp add: unfinished_runs_def new_runtime_def)
  then show ?thesis
    unfolding started_def
    by (intro conjI one_runI [of _ _ 0]) (auto simp: tame_def start_locked_def new_runtime_def Let_def)
qed

lemma awaited_one: "\<exists>r. awaited p w \<subseteq> {r}"
proof -
  have "\<exists>r. set_option x \<subseteq> {r}" for x :: "run_id option" by (cases x) auto
  then show ?thesis by (cases "(p, w)" rule: awaited.cases) simp_all
qed

text \<open>
  C31. As long as the calls on the controller come one at a time, no two clients ever run at once:
  ApplyConfig starts the next run only when the previous one has ended, in every reachable
  state at most one run is unfinished, and between calls it is the one the controller can stop.
\<close>

theorem controller_one_client:
  assumes "tame_reach (started cfg) (w, ts)"
  shows "(\<exists>r. unfinished_runs w \<subseteq> {r})
    \<and> ((\<forall>t. ts t = Idle) \<longrightarrow> unfinished_runs w \<subseteq> set_option (ctl_done (ctl w)))"
proof -
  have ok: "tame (w, ts) \<and> one_run (w, ts)"
    using tame_reach_one_run [OF assms] started_ok by blast
  have "\<exists>t. \<forall>t'. t' \<noteq> t \<longrightarrow> ts t' = Idle"
    using ok tame_others [of w ts] by (cases "\<exists>t. ts t \<noteq> Idle") auto
  then obtain t where "unfinished_runs w \<subseteq> awaited (ts t) w"
    using ok by (auto simp: one_run_def)
  with awaited_one [of "ts t" w] one_run_idle [of w ts] ok show ?thesis by blast
qed

text \<open>One goroutine alone.\<close>

definition solo :: "phase \<Rightarrow> thread \<Rightarrow> phase" where
  "solo p = (\<lambda>_. Idle)(0 := p)"

lemma solo_simps [simp]: "solo p 0 = p" "(solo p)(0 := q) = solo q" "p \<noteq> WantsStart \<Longrightarrow> tame (w, solo p)"
  by (auto simp: solo_def tame_def)

lemma solo_idle: "solo Idle = (\<lambda>_. Idle)"
  by (auto simp: solo_def)

lemma solo_step:
  assumes "tame_reach s (w, solo p)" and "ctl_step (w, solo p) (w', (solo p)(0 := q))" and "q \<noteq> WantsStart"
  shows "tame_reach s (w', solo q)"
  using TameStep [OF assms(1,2)] assms(3) by simp

lemma solo_apply:
  assumes "tame_reach s (w, solo Idle)"
    and "take_run_with cfg w = ((Some r, Some r), w1)" and "r < next_run w1"
  shows "tame_reach s (start_locked (finish_run (Some r) (cancel_run (Some r) w1)), solo Idle)"
proof -
  let ?w2 = "cancel_run (Some r) w1" and ?w3 = "finish_run (Some r) (cancel_run (Some r) w1)"
  note s1 = solo_step [OF assms(1) Call [of "solo Idle" 0 "WantsApply cfg"]]
  note s2 = solo_step [OF _ ApplyTake [OF _ assms(2)]]
  have "tame_reach s (w, solo (WantsApply cfg))" by (rule s1) simp_all
  then have "tame_reach s (w1, solo (Cancelling True (Some r) (Some r)))" by (rule s2) simp_all
  then have a: "tame_reach s (?w2, solo (Waiting True (Some r)))" by (rule solo_step [OF _ Cancel]) simp_all
  have "ctl_step (?w2, solo (Waiting True (Some r))) (?w3, solo (Waiting True (Some r)))"
    unfolding finish_run_def option.case by (rule Finish) (simp_all add: cancel_run_def assms(3))
  with a have "tame_reach s (?w3, solo (Waiting True (Some r)))" by (rule TameStep) simp
  moreover have "wait_over (Some r) ?w3" by (simp add: wait_over_def finish_run_def)
  ultimately have "tame_reach s (?w3, solo (if True then Restarting else Idle))"
    by (intro solo_step [OF _ WaitOver]) simp_all
  then have "tame_reach s (?w3, solo Restarting)" by simp
  then show ?thesis by (rule solo_step [OF _ Restart]) simp_all
qed

theorem controller_one_client_witness:
  "unfinished_runs (apply_config (initial_config (\<lambda>_. [])) (start_locked (new_runtime (initial_config (\<lambda>_. []))))) \<subseteq> {1}"
proof -
  let ?cfg = "initial_config (\<lambda>_. [])"
  let ?w0 = "start_locked (new_runtime ?cfg)"
  obtain w1 where take: "take_run_with ?cfg ?w0 = ((Some 0, Some 0), w1)" and "0 < next_run w1"
    by (simp add: runtime_defs new_runtime_def)
  then have w: "tame_reach (started ?cfg) (start_locked (finish_run (Some 0) (cancel_run (Some 0) w1)), solo Idle)"
    by (intro solo_apply) (simp_all add: started_def solo_idle TameRefl)
  have eq: "apply_config ?cfg ?w0 = start_locked (finish_run (Some 0) (cancel_run (Some 0) w1))"
    by (simp add: apply_config_def take)
  have "next_run w1 = 1" using take by (auto simp: runtime_defs new_runtime_def)
  then have "ctl_done (ctl (apply_config ?cfg ?w0)) = Some 1"
    unfolding eq by (simp add: finish_run_def cancel_run_def start_locked_def Let_def)
  then show ?thesis
    using controller_one_client [OF w] by (simp add: eq solo_idle)
qed

section \<open>Two calls at once\<close>

text \<open>A run that no call and no field of the controller refers to any more.\<close>

definition leaked :: "run_id \<Rightarrow> ctl_state \<Rightarrow> bool" where
  "leaked r s \<longleftrightarrow> r \<in> active_runs (fst s) \<and> ctl_cancel (ctl (fst s)) \<noteq> Some r
     \<and> (\<forall>t k c d. snd s t = Cancelling k c d \<longrightarrow> c \<noteq> Some r)"

lemma leaked_step: "ctl_step s s' \<Longrightarrow> leaked r s \<Longrightarrow> leaked r s'"
proof (induction rule: ctl_step.induct)
  case (StopTake ts t w c d w')
  then show ?case by (auto simp: leaked_def take_run_def active_runs_def)
next
  case (ApplyTake ts t cfg w c d w')
  then show ?case by (auto simp: leaked_def take_run_def take_run_with_def active_runs_def)
next
  case (Cancel ts t k c d w)
  then show ?case by (cases c) (auto simp: leaked_def cancel_run_def active_runs_def)
qed (auto simp: leaked_def active_runs_def start_locked_def Let_def)

lemma leaked_reach: "ctl_reach s s' \<Longrightarrow> leaked r s \<Longrightarrow> leaked r s'"
  by (induction rule: ctl_reach.induct) (auto intro: leaked_step)

definition duo :: "phase \<Rightarrow> phase \<Rightarrow> thread \<Rightarrow> phase" where
  "duo p q = (\<lambda>_. Idle)(0 := p, 1 := q)"

lemma duo_simps [simp]:
  "duo p q 0 = p" "duo p q (Suc 0) = q" "(duo p q)(0 := p') = duo p' q" "(duo p q)(Suc 0 := q') = duo p q'"
  by (auto simp: duo_def fun_upd_twist)

lemma duo_idle: "duo Idle Idle = (\<lambda>_. Idle)"
  by (auto simp: duo_def)

lemma duo_step0: "ctl_reach s (w, duo p q) \<Longrightarrow> ctl_step (w, duo p q) (w', (duo p q)(0 := p')) \<Longrightarrow>
    ctl_reach s (w', duo p' q)"
  using Step [of s "(w, duo p q)" "(w', (duo p q)(0 := p'))"] by simp

lemma duo_step1: "ctl_reach s (w, duo p q) \<Longrightarrow> ctl_step (w, duo p q) (w', (duo p q)(Suc 0 := q')) \<Longrightarrow>
    ctl_reach s (w', duo p q')"
  using Step [of s "(w, duo p q)" "(w', (duo p q)(Suc 0 := q'))"] by simp

lemma overlapping_applies:
  assumes "ctl_reach s (w, duo Idle Idle)" and "take_run_with a w = ((Some r, Some r), w1)"
    and "take_run_with b w1 = ((None, None), w2)" and "r < next_run w2"
  shows "ctl_reach s (start_locked (finish_run (Some r) (cancel_run (Some r) (start_locked w2))), duo Idle Idle)"
proof -
  let ?w3 = "start_locked w2"
  let ?w4 = "cancel_run (Some r) ?w3"
  let ?w5 = "finish_run (Some r) ?w4"
  let ?c = "Cancelling True (Some r) (Some r)"
  have "ctl_reach s (w, duo (WantsApply a) Idle)" by (rule duo_step0 [OF assms(1) Call]) simp_all
  then have "ctl_reach s (w, duo (WantsApply a) (WantsApply b))" by (rule duo_step1 [OF _ Call]) simp_all
  then have "ctl_reach s (w1, duo ?c (WantsApply b))" by (rule duo_step0 [OF _ ApplyTake [OF _ assms(2)]]) simp
  then have "ctl_reach s (w2, duo ?c (Cancelling True None None))"
    by (rule duo_step1 [OF _ ApplyTake [OF _ assms(3)]]) simp
  then have "ctl_reach s (cancel_run None w2, duo ?c (Waiting True None))" by (rule duo_step1 [OF _ Cancel]) simp
  then have "ctl_reach s (w2, duo ?c (Waiting True None))" by (simp add: cancel_run_def)
  moreover have "wait_over None w2" by (simp add: wait_over_def)
  ultimately have "ctl_reach s (w2, duo ?c (if True then Restarting else Idle))"
    by (intro duo_step1 [OF _ WaitOver]) simp_all
  then have "ctl_reach s (w2, duo ?c Restarting)" by simp
  then have "ctl_reach s (?w3, duo ?c Idle)" by (rule duo_step1 [OF _ Restart]) simp
  then have reach4: "ctl_reach s (?w4, duo (Waiting True (Some r)) Idle)" by (rule duo_step0 [OF _ Cancel]) simp
  have "ctl_step (?w4, duo (Waiting True (Some r)) Idle) (?w5, duo (Waiting True (Some r)) Idle)"
    unfolding finish_run_def option.case
    by (rule Finish) (use assms(4) in \<open>simp_all add: cancel_run_def start_locked_def Let_def\<close>)
  with reach4 have "ctl_reach s (?w5, duo (Waiting True (Some r)) Idle)" by (rule Step)
  moreover have "wait_over (Some r) ?w5" by (simp add: wait_over_def finish_run_def)
  ultimately have "ctl_reach s (?w5, duo (if True then Restarting else Idle) Idle)"
    by (intro duo_step0 [OF _ WaitOver]) simp_all
  then have "ctl_reach s (?w5, duo Restarting Idle)" by simp
  then show ?thesis by (rule duo_step0 [OF _ Restart]) simp
qed

text \<open>
  C32. Two overlapping ApplyConfig calls can leave a client behind: there is a reachable state in
  which no call is under way any more, a run other than the controller's is active, and in no
  state reachable from there is it ever cancelled, whatever calls follow.
\<close>

theorem overlapping_applies_leak:
  "\<exists>w. ctl_reach (started cfg) (w, \<lambda>_. Idle) \<and> ctl_runner (ctl w) = Some 2 \<and> 1 \<in> active_runs w
     \<and> (\<forall>s'. ctl_reach (w, \<lambda>_. Idle) s' \<longrightarrow> 1 \<in> active_runs (fst s') \<and> ctl_cancel (ctl (fst s')) \<noteq> Some 1)"
proof -
  let ?w0 = "start_locked (new_runtime cfg)"
  obtain w1 where t1: "take_run_with cfg ?w0 = ((Some 0, Some 0), w1)"
    by (simp add: runtime_defs new_runtime_def)
  obtain w2 where t2: "take_run_with cfg w1 = ((None, None), w2)"
    using t1 by (auto simp: runtime_defs new_runtime_def)
  have w2: "next_run w2 = 1" "cancelled w2 = {}" "finished w2 = {}"
    using t1 t2 by (auto simp: runtime_defs new_runtime_def)
  let ?w = "start_locked (finish_run (Some 0) (cancel_run (Some 0) (start_locked w2)))"
  have reach: "ctl_reach (started cfg) (?w, duo Idle Idle)"
    by (rule overlapping_applies [OF _ t1 t2]) (simp_all add: started_def duo_idle Refl w2(1))
  have "leaked 1 (?w, duo Idle Idle)" and runner: "ctl_runner (ctl ?w) = Some 2"
    using w2 by (simp_all add: leaked_def active_runs_def runtime_defs finish_run_def duo_idle)
  then have "1 \<in> active_runs ?w \<and>
      (\<forall>s'. ctl_reach (?w, \<lambda>_. Idle) s' \<longrightarrow> 1 \<in> active_runs (fst s') \<and> ctl_cancel (ctl (fst s')) \<noteq> Some 1)"
    using leaked_reach by (auto simp: leaked_def duo_idle)
  with runner show ?thesis
    by (intro exI [of _ ?w] conjI reach [unfolded duo_idle]) simp_all
qed

theorem overlapping_applies_leak_witness:
  "\<exists>w. ctl_reach (started (initial_config (\<lambda>_. []))) (w, \<lambda>_. Idle) \<and> 1 \<in> active_runs w"
  using overlapping_applies_leak [of "initial_config (\<lambda>_. [])"] by blast

end
