(* ===== verification/GoHttp.thy ===== *)
theory GoHttp
  imports GoUrl
begin

text \<open>
  What the web UI uses of Go's package net/http: the request as the server hands it to a
  handler, the parsing of query and form values, the response, http.Redirect and http.Error, and
  the matching of a request to the patterns of a ServeMux. The HTML of a page is not modelled,
  only the data its template is executed with.
\<close>

section \<open>Requests\<close>

text \<open>
  The media type is what mime.ParseMediaType makes of the Content-Type header (empty for an
  absent header, \<open>None\<close> for a malformed one); the body is \<open>None\<close> when reading it fails.
\<close>

record request =
  rq_method :: string
  rq_url :: url
  rq_origin :: string
  rq_referer :: string
  rq_cookie :: "string option"
  rq_media_type :: "string option"
  rq_body :: "string option"
  rq_remote_addr :: string
  rq_tls :: bool

type_synonym query_values = "(string \<times> string) list"

definition values_get :: "string \<Rightarrow> query_values \<Rightarrow> string" where
  "values_get k vs = (case map_of vs k of None \<Rightarrow> [] | Some v \<Rightarrow> v)"

definition query_unescape :: "string \<Rightarrow> string option" where
  "query_unescape s = unescape EncodeQueryComponent s"

text \<open>\<open>url.ParseQuery\<close>: the pairs that parse, and whether every one did.\<close>

definition max_query_params :: nat where
  "max_query_params = 10000"

definition parse_pair :: "string \<Rightarrow> (string \<times> string) option" where
  "parse_pair field =
     (if CHR '';'' \<in> set field then None
      else case cut CHR ''='' field of (k, v, _) \<Rightarrow>
        (case (query_unescape k, query_unescape v) of
           (Some k', Some v') \<Rightarrow> Some (k', v') | _ \<Rightarrow> None))"

definition parse_query :: "string \<Rightarrow> query_values \<times> bool" where
  "parse_query q =
     (let fields = split_byte CHR ''&'' q; pairs = map parse_pair (filter (\<lambda>f. f \<noteq> []) fields)
      in if size fields > max_query_params then ([], False)
         else (List.map_filter id pairs, None \<notin> set pairs))"

definition query_of :: "request \<Rightarrow> query_values" where
  "query_of r = fst (parse_query (raw_query (rq_url r)))"

text \<open>
  \<open>ParseForm\<close> of a request whose body is limited to \<open>limit\<close> bytes: the values of a
  urlencoded body come before those of the query. The other media types leave the body alone.
\<close>

definition post_form :: "nat \<Rightarrow> request \<Rightarrow> query_values \<times> bool" where
  "post_form limit r =
     (if rq_method r \<notin> set [''POST'', ''PUT'', ''PATCH''] then ([], True)
      else case rq_media_type r of
        None \<Rightarrow> ([], False)
      | Some m \<Rightarrow>
          if m \<noteq> ''application/x-www-form-urlencoded'' then ([], True)
          else case rq_body r of
            None \<Rightarrow> ([], False)
          | Some b \<Rightarrow> if size b > limit then ([], False) else parse_query b)"

definition parse_form :: "nat \<Rightarrow> request \<Rightarrow> query_values option" where
  "parse_form limit r =
     (case (post_form limit r, parse_query (raw_query (rq_url r))) of
        ((vs, ok), (qs, qok)) \<Rightarrow> if ok \<and> qok then Some (vs @ qs) else None)"

section \<open>Responses\<close>

record cookie =
  ck_name :: string
  ck_value :: string
  ck_path :: string
  ck_http_only :: bool
  ck_secure :: bool
  ck_same_site_strict :: bool
  ck_max_age :: go_int
  ck_expires :: "instant option"

record 'page response =
  rs_status :: go_int
  rs_headers :: "(string \<times> string) list"
  rs_cookies :: "cookie list"
  rs_page :: "'page option"

definition respond :: "go_int \<Rightarrow> (string \<times> string) list \<Rightarrow> 'page option \<Rightarrow> 'page response" where
  "respond status headers page =
     \<lparr>rs_status = status, rs_headers = headers, rs_cookies = [], rs_page = page\<rparr>"

definition http_error :: "go_int \<Rightarrow> 'page response" where
  "http_error status = respond status [(''Content-Type'', ''text/plain; charset=utf-8'')] None"

definition set_cookie :: "cookie \<Rightarrow> 'page response \<Rightarrow> 'page response" where
  "set_cookie ck rs = rs\<lparr>rs_cookies := rs_cookies rs @ [ck]\<rparr>"

definition response_header :: "string \<Rightarrow> 'page response \<Rightarrow> string option" where
  "response_header k rs = map_of (rs_headers rs) k"

section \<open>Paths\<close>

definition clean_elem :: "string \<Rightarrow> string list \<Rightarrow> string list" where
  "clean_elem e acc =
     (if e = [] \<or> e = ''.'' then acc
      else if e = ''..'' then (if acc = [] then [] else butlast acc)
      else acc @ [e])"

text \<open>\<open>path.Clean\<close> of a rooted path, without its leading slash.\<close>

definition clean_elems :: "string \<Rightarrow> string list" where
  "clean_elems p = fold clean_elem (split_byte CHR ''/'' p) []"

fun rooted :: "string list \<Rightarrow> string" where
  "rooted [] = ''/''"
| "rooted [e] = CHR ''/'' # e"
| "rooted (e # es) = CHR ''/'' # e @ rooted es"

definition keep_slash :: "string \<Rightarrow> string \<Rightarrow> string" where
  "keep_slash p q = (if p \<noteq> [] \<and> last p = CHR ''/'' \<and> last q \<noteq> CHR ''/'' then q @ ''/'' else q)"

text \<open>The cleaning of ServeMux and of http.Redirect, which both keep a trailing slash.\<close>

definition clean_path :: "string \<Rightarrow> string" where
  "clean_path p = keep_slash p (rooted (clean_elems p))"

section \<open>Redirects\<close>

text \<open>
  \<open>http.Redirect\<close> to a URL that starts with a slash, which every caller passes: unless it
  fails to parse or names a host, its path is cleaned.
\<close>

definition redirect_target :: "string \<Rightarrow> string" where
  "redirect_target u =
     (case url_parse u of
        None \<Rightarrow> u
      | Some parsed \<Rightarrow>
          if url_scheme parsed = [] \<and> url_host parsed = [] then
            (case cut CHR ''?'' u of (p, q, found) \<Rightarrow> clean_path p @ (if found then CHR ''?'' # q else []))
          else u)"

definition hex_escape_non_ascii :: "string \<Rightarrow> string" where
  "hex_escape_non_ascii s =
     concat (List.map (\<lambda>c. if 128 \<le> code c
       then [CHR ''%'', lower_byte (upper_hex (code c div 16)), lower_byte (upper_hex (code c mod 16))]
       else [c]) s)"

definition http_redirect :: "go_int \<Rightarrow> string \<Rightarrow> request \<Rightarrow> 'page response" where
  "http_redirect status u r =
     respond status
       ((''Location'', hex_escape_non_ascii (redirect_target u))
        # (if rq_method r \<in> {''GET'', ''HEAD''} then [(''Content-Type'', ''text/html; charset=utf-8'')] else []))
       None"

section \<open>Routing\<close>

text \<open>
  A pattern of a ServeMux without wildcards: a method (empty for any; GET stands for HEAD
  too) and the path elements, compared after unescaping. \<open>/{$}\<close> has the one element that
  is empty.
\<close>

type_synonym route_pattern = "string \<times> string list"

definition path_elements :: "string \<Rightarrow> string list" where
  "path_elements p =
     List.map (\<lambda>e. case unescape EncodePath e of None \<Rightarrow> e | Some e' \<Rightarrow> e') (split_byte CHR ''/'' (drop 1 p))"

fun method_matches :: "string \<Rightarrow> string \<Rightarrow> bool" where
  "method_matches pat m \<longleftrightarrow> pat = [] \<or> m = pat \<or> pat = ''GET'' \<and> m = ''HEAD''"

datatype routing = Moved string | NoMethod | NoPage | RoutedTo string "string list"

definition mux_route :: "route_pattern list \<Rightarrow> request \<Rightarrow> routing" where
  "mux_route patterns r =
     (let escaped = escaped_path (rq_url r);
          path = (if rq_method r = ''CONNECT'' then escaped else clean_path escaped);
          here = filter (\<lambda>(m, p). p = path_elements path) patterns
      in if path \<noteq> escaped then
           Moved (url_string (empty_url\<lparr>url_path := path, raw_query := raw_query (rq_url r)\<rparr>))
         else case find (\<lambda>(m, p). method_matches m (rq_method r)) here of
                Some (m, p) \<Rightarrow> RoutedTo m p
              | None \<Rightarrow> if here = [] then NoPage else NoMethod)"

end
