(* ===== verification/Login.thy ===== *)
theory Login
  imports GoHttp SessionStore RateLimit Auth Controller
begin

text \<open>
  The login handlers of cmd/client/login.go and the handler state of cmd/client/ui.go: the check
  of the request's origin, login and logout, and the guard of the pages that need a session. A
  handler takes the request and the state and returns the response and the state; requests are
  served one after another here (their interleaving inside ApplyConfig is theory Controller's).
\<close>

section \<open>The handler and its state\<close>

record ui_handler =
  uh_listen_addr :: string
  uh_origin_override :: string
  uh_listen_host :: string
  uh_listen_port :: string
  uh_bind_all :: bool
  uh_auth :: auth_config

record ui_state =
  ui_runtime :: runtime
  ui_sessions :: session_store
  ui_limiter :: limiter
  ui_log_level :: go_int

text \<open>What a handler reads from outside while it serves one request.\<close>

record surroundings =
  out_now :: instant
  out_random :: "nat list option"
  out_status :: "run_id \<Rightarrow> connection_status"

record status_config =
  sc_server_url :: string
  sc_subdomain :: string
  sc_plex_target :: string
  sc_log_level :: string
  sc_max_connections :: go_int
  sc_token_set :: bool

record login_page_data =
  lp_username_field :: bool
  lp_error :: string
  lp_next :: string

record status_page_data =
  sp_status :: connection_status
  sp_config :: config
  sp_token_masked :: string
  sp_message :: string
  sp_error :: string

datatype ui_page = LoginPage login_page_data | StatusPage status_page_data
  | StatusJson connection_status status_config | Unauthorized | MetricsPage

type_synonym handler = "surroundings \<Rightarrow> request \<Rightarrow> ui_state \<Rightarrow> ui_page response \<times> ui_state"

definition session_cookie_name :: string where
  "session_cookie_name = ''plextunnel_session''"

definition html :: "(string \<times> string) list" where
  "html = [(''Content-Type'', ''text/html; charset=utf-8'')]"

definition json :: "(string \<times> string) list" where
  "json = [(''Content-Type'', ''application/json; charset=utf-8'')]"

section \<open>The origin of a request\<close>

definition url_origin :: "string \<Rightarrow> (string \<times> string) option" where
  "url_origin s =
     (case url_parse s of
        None \<Rightarrow> None
      | Some u \<Rightarrow> if url_scheme u = [] \<or> url_host u = [] then None else Some (url_scheme u, url_host u))"

definition request_origin :: "request \<Rightarrow> (string \<times> string) option" where
  "request_origin r =
     (if rq_origin r \<noteq> [] then url_origin (rq_origin r)
      else if rq_referer r \<noteq> [] then url_origin (rq_referer r)
      else None)"

definition origin_allowed :: "ui_handler \<Rightarrow> request \<Rightarrow> bool" where
  "origin_allowed h r =
     (case request_origin r of
        None \<Rightarrow> False
      | Some (scheme, host) \<Rightarrow>
          let origin = scheme @ ''://'' @ host
          in if uh_origin_override h \<noteq> [] then origin = uh_origin_override h
             else if uh_bind_all h then
               (if scheme \<noteq> ''http'' \<and> scheme \<noteq> ''https'' then False
                else case split_host_port host of
                  None \<Rightarrow> False
                | Some (_, port) \<Rightarrow> port = uh_listen_port h)
             else if uh_listen_host h = [] \<or> uh_listen_port h = [] then False
             else origin = ''http://'' @ join_host_port (uh_listen_host h) (uh_listen_port h))"

section \<open>Small helpers\<close>

definition login_error_message :: "string \<Rightarrow> string" where
  "login_error_message err =
     (if err = ''invalid'' then ''Invalid credentials''
      else if err = ''rate_limit'' then ''Too many attempts, try again later''
      else [])"

definition redirect_login_error :: "request \<Rightarrow> string \<Rightarrow> string \<Rightarrow> 'page response" where
  "redirect_login_error r error_code next_path =
     (let vals = (''error'', error_code)
                 # (if trim_space next_path \<noteq> [] then [(''next'', next_path)] else [])
      in http_redirect 303 (''/login?'' @ values_encode vals) r)"

definition safe_next_path :: "string \<Rightarrow> string" where
  "safe_next_path next_path =
     (let p = trim_space next_path
      in if prefix ''/'' p \<and> \<not> prefix ''//'' p then p else ''/'')"

definition remote_ip_key :: "string \<Rightarrow> string" where
  "remote_ip_key addr =
     (let host = trim_space addr
      in trim_brackets (case split_host_port host of None \<Rightarrow> host | Some (h, _) \<Rightarrow> h))"

definition session_cookie :: "surroundings \<Rightarrow> session_store \<Rightarrow> string \<Rightarrow> request \<Rightarrow> cookie" where
  "session_cookie out s token r =
     (let ck = \<lparr>ck_name = session_cookie_name, ck_value = token, ck_path = ''/'', ck_http_only = True,
                ck_secure = rq_tls r, ck_same_site_strict = True, ck_max_age = 0, ck_expires = None\<rparr>
      in if session_ttl s > 0
         then ck\<lparr>ck_expires := Some (time_add (out_now out) (session_ttl s)),
                 ck_max_age := session_ttl s div second\<rparr>
         else ck)"

definition expired_session_cookie :: "request \<Rightarrow> cookie" where
  "expired_session_cookie r =
     \<lparr>ck_name = session_cookie_name, ck_value = [], ck_path = ''/'', ck_http_only = True,
      ck_secure = rq_tls r, ck_same_site_strict = True, ck_max_age = -1, ck_expires = Some 0\<rparr>"

section \<open>The handlers\<close>

definition handle_login_get :: "ui_handler \<Rightarrow> handler" where
  "handle_login_get h out r s =
     (if rq_method r \<noteq> ''GET'' then (http_error 405, s)
      else (respond 200 html (Some (LoginPage
              \<lparr>lp_username_field = auth_username (uh_auth h) \<noteq> [],
               lp_error = login_error_message (trim_space (values_get ''error'' (query_of r))),
               lp_next = trim_space (values_get ''next'' (query_of r))\<rparr>)), s))"

definition login_body_limit :: nat where
  "login_body_limit = 8 * 1024"

definition handle_login_post :: "ui_handler \<Rightarrow> handler" where
  "handle_login_post h out r s =
     (if rq_method r \<noteq> ''POST'' then (http_error 405, s)
      else if \<not> origin_allowed h r then (http_error 403, s)
      else
        let (ok, l) = login_allow (remote_ip_key (rq_remote_addr r)) (out_now out) (ui_limiter s);
            s = s\<lparr>ui_limiter := l\<rparr>
        in if \<not> ok then (http_error 429, s)
           else case parse_form login_body_limit r of
             None \<Rightarrow> (redirect_login_error r ''invalid'' [], s)
           | Some form \<Rightarrow>
               let username = values_get ''username'' form;
                   password = values_get ''password'' form;
                   next_path = values_get ''next'' form
               in if \<not> verify (uh_auth h) username password
                  then (redirect_login_error r ''invalid'' next_path, s)
                  else case session_create (out_random out) (out_now out) (ui_sessions s) of
                    (None, _) \<Rightarrow> (http_error 500, s)
                  | (Some token, store) \<Rightarrow>
                      (set_cookie (session_cookie out store token r)
                         (http_redirect 303 (safe_next_path next_path) r),
                       s\<lparr>ui_sessions := store\<rparr>))"

definition handle_logout_post :: "ui_handler \<Rightarrow> handler" where
  "handle_logout_post h out r s =
     (if rq_method r \<noteq> ''POST'' then (http_error 405, s)
      else if \<not> origin_allowed h r then (http_error 403, s)
      else
        (set_cookie (expired_session_cookie r) (http_redirect 303 ''/login'' r),
         case rq_cookie r of
           None \<Rightarrow> s
         | Some token \<Rightarrow> s\<lparr>ui_sessions := session_delete token (ui_sessions s)\<rparr>))"

definition no_session_response :: "request \<Rightarrow> ui_page response" where
  "no_session_response r =
     (if rq_method r = ''GET'' then
        http_redirect 303 (''/login?'' @ values_encode [(''next'', url_path (rq_url r))]) r
      else respond 401 json (Some Unauthorized))"

definition require_session :: "ui_handler \<Rightarrow> handler \<Rightarrow> handler" where
  "require_session h next_handler out r s =
     (if auth_password (uh_auth h) = [] then next_handler out r s
      else case rq_cookie r of
        None \<Rightarrow> (no_session_response r, s)
      | Some token \<Rightarrow>
          (case session_validate token (out_now out) (ui_sessions s) of
             (valid, store) \<Rightarrow>
               if \<not> valid then (no_session_response r, s\<lparr>ui_sessions := store\<rparr>)
               else next_handler out r (s\<lparr>ui_sessions := store\<rparr>)))"

end
