(* ===== verification/Ui.thy ===== *)
theory Ui
  imports Login Handshake
begin

text \<open>
  The web UI of cmd/client/ui.go: the handler's set-up, the status page, the status API, the
  settings form and the routing of a request to its handler. \<open>zerolog.ParseLevel\<close> is the
  argument \<open>parse_level\<close>; nothing is assumed of it. The Prometheus handler of /metrics only
  reads.
\<close>

section \<open>The handler\<close>

definition is_bind_all_host :: "string \<Rightarrow> bool" where
  "is_bind_all_host host \<longleftrightarrow> trim_space host \<in> set ['''', ''0.0.0.0'', ''::'', ''[::]'']"

definition new_ui_handler :: "environment \<Rightarrow> auth_config \<Rightarrow> string \<Rightarrow> ui_handler" where
  "new_ui_handler env auth listen_addr =
     (let override = env ''PLEXTUNNEL_UI_ORIGIN''
      in case split_host_port listen_addr of
           None \<Rightarrow>
             \<lparr>uh_listen_addr = listen_addr,
              uh_origin_override = (if override = [] then ''http://'' @ listen_addr else override),
              uh_listen_host = [], uh_listen_port = [], uh_bind_all = False, uh_auth = auth\<rparr>
         | Some (host, port) \<Rightarrow>
             \<lparr>uh_listen_addr = listen_addr, uh_origin_override = override,
              uh_listen_host = host, uh_listen_port = port, uh_bind_all = is_bind_all_host host,
              uh_auth = auth\<rparr>)"

definition mask_token :: "string \<Rightarrow> string" where
  "mask_token token =
     (let t = trim_space token
      in if size t \<le> 4 then ''****'' else ''****'' @ drop (size t - 4) t)"

section \<open>The pages\<close>

definition handle_index :: handler where
  "handle_index out r s =
     (if rq_method r \<noteq> ''GET'' then (http_error 405, s)
      else
        let (cfg, status) = controller_snapshot (out_status out) (ui_runtime s);
            masked = (if cfg_token cfg \<noteq> [] then mask_token (cfg_token cfg) else [])
        in (respond 200 html (Some (StatusPage
              \<lparr>sp_status = status, sp_config = cfg\<lparr>cfg_token := []\<rparr>, sp_token_masked = masked,
               sp_message = trim_space (values_get ''message'' (query_of r)),
               sp_error = trim_space (values_get ''error'' (query_of r))\<rparr>)), s))"

definition handle_status :: handler where
  "handle_status out r s =
     (if rq_method r \<noteq> ''GET'' then (http_error 405, s)
      else
        let (cfg, status) = controller_snapshot (out_status out) (ui_runtime s)
        in (respond 200 json (Some (StatusJson status
              \<lparr>sc_server_url = cfg_server_url cfg, sc_subdomain = cfg_subdomain cfg,
               sc_plex_target = cfg_plex_target cfg, sc_log_level = cfg_log_level cfg,
               sc_max_connections = cfg_max_connections cfg,
               sc_token_set = (cfg_token cfg \<noteq> [])\<rparr>)), s))"

section \<open>The settings\<close>

definition redirect_with_message :: "request \<Rightarrow> string \<Rightarrow> string \<Rightarrow> 'page response" where
  "redirect_with_message r message err =
     (let vals = (if err \<noteq> [] then [(''error'', err)] else [])
               @ (if message \<noteq> [] then [(''message'', message)] else []);
          encoded = values_encode vals
      in http_redirect 303 (if encoded \<noteq> [] then ''/?'' @ encoded else ''/'') r)"

definition settings_body_limit :: nat where
  "settings_body_limit = 32 * 1024"

definition form_text :: "string \<Rightarrow> query_values \<Rightarrow> string" where
  "form_text k form = trim_space (values_get k form)"

text \<open>The submitted values over the current configuration; \<open>Inl\<close> is the message shown.\<close>

definition submitted_config :: "query_values \<Rightarrow> config \<Rightarrow> string + config" where
  "submitted_config form cfg =
     (let token = form_text ''token'' form;
          cfg = (if token \<noteq> [] \<and> token \<noteq> mask_token (cfg_token cfg) then cfg\<lparr>cfg_token := token\<rparr> else cfg);
          cfg = cfg\<lparr>cfg_server_url := form_text ''server_url'' form,
                    cfg_subdomain := form_text ''subdomain'' form,
                    cfg_plex_target := form_text ''plex_target'' form,
                    cfg_log_level := form_text ''log_level'' form\<rparr>;
          raw = form_text ''max_connections'' form
      in if raw = [] then Inr cfg
         else case atoi raw of
           None \<Rightarrow> Inl ''max connections must be between 1 and 32''
         | Some n \<Rightarrow>
             if n < 1 \<or> n > 32 then Inl ''max connections must be between 1 and 32''
             else Inr (cfg\<lparr>cfg_max_connections := n\<rparr>))"

definition http_url :: "string \<Rightarrow> bool" where
  "http_url s \<longleftrightarrow>
     (case url_parse s of None \<Rightarrow> False | Some u \<Rightarrow> url_scheme u = ''http'' \<or> url_scheme u = ''https'')"

definition check_settings :: "(string \<Rightarrow> go_int option) \<Rightarrow> config \<Rightarrow> string + (go_int \<times> config)" where
  "check_settings parse_level cfg =
     (if cfg_token cfg = [] then Inl ''token is required''
      else if cfg_server_url cfg = [] then Inl ''server URL is required''
      else if \<not> http_url (cfg_plex_target cfg) then
        Inl ''plex target must be a valid http:// or https:// URL''
      else if \<not> ws_url (cfg_server_url cfg) then
        Inl ''server URL must be a valid ws:// or wss:// URL''
      else
        let cfg = (if cfg_log_level cfg = [] then cfg\<lparr>cfg_log_level := ''info''\<rparr> else cfg)
        in case parse_level (cfg_log_level cfg) of
             None \<Rightarrow> Inl ''invalid log level''
           | Some level \<Rightarrow> Inr (level, cfg))"

definition handle_settings :: "(string \<Rightarrow> go_int option) \<Rightarrow> ui_handler \<Rightarrow> handler" where
  "handle_settings parse_level h out r s =
     (if rq_method r \<noteq> ''POST'' then (http_error 405, s)
      else if \<not> origin_allowed h r then (http_error 403, s)
      else case parse_form settings_body_limit r of
        None \<Rightarrow> (redirect_with_message r [] ''failed to parse form'', s)
      | Some form \<Rightarrow>
          let (cfg, _) = controller_snapshot (out_status out) (ui_runtime s)
          in case and_then (submitted_config form cfg) (check_settings parse_level) of
               Inl msg \<Rightarrow> (redirect_with_message r [] msg, s)
             | Inr (level, cfg) \<Rightarrow>
                 (redirect_with_message r ''settings applied and client restarted'' [],
                  s\<lparr>ui_log_level := level, ui_runtime := apply_config cfg (ui_runtime s)\<rparr>))"

section \<open>Routing\<close>

definition ui_patterns :: "route_pattern list" where
  "ui_patterns =
     [(''GET'', [''login'']), (''POST'', [''login'']), (''POST'', [''logout'']), (''GET'', ['''']),
      (''POST'', [''settings'']), (''GET'', [''api'', ''status'']), ('''', [''metrics''])]"

definition ui_handler_of :: "(string \<Rightarrow> go_int option) \<Rightarrow> ui_handler \<Rightarrow> string \<Rightarrow> string list \<Rightarrow> handler" where
  "ui_handler_of parse_level h m p =
     (if p = [''login''] then (if m = ''GET'' then handle_login_get h else handle_login_post h)
      else if p = [''logout''] then handle_logout_post h
      else if p = [''''] then require_session h handle_index
      else if p = [''settings''] then require_session h (handle_settings parse_level h)
      else if p = [''api'', ''status''] then require_session h handle_status
      else (\<lambda>out r s. (respond 200 [] (Some MetricsPage), s)))"

definition security_headers :: "(string \<times> string) list" where
  "security_headers =
     [(''X-Frame-Options'', ''DENY''), (''X-Content-Type-Options'', ''nosniff''), (''Cache-Control'', ''no-store'')]"

definition ui_serve :: "(string \<Rightarrow> go_int option) \<Rightarrow> ui_handler \<Rightarrow> handler" where
  "ui_serve parse_level h out r s =
     (case (case mux_route ui_patterns r of
              Moved u \<Rightarrow> (http_redirect 301 u r, s)
            | NoMethod \<Rightarrow> (http_error 405, s)
            | NoPage \<Rightarrow> (http_error 404, s)
            | RoutedTo m p \<Rightarrow> ui_handler_of parse_level h m p out r s) of
        (rs, s) \<Rightarrow> (rs\<lparr>rs_headers := rs_headers rs @ security_headers\<rparr>, s))"

section \<open>Serving a sequence of requests\<close>

fun serve_all :: "('q \<Rightarrow> 's \<Rightarrow> 'r \<times> 's) \<Rightarrow> 'q list \<Rightarrow> 's \<Rightarrow> 'r list \<times> 's" where
  "serve_all f [] s = ([], s)"
| "serve_all f (q # qs) s =
     (let (r, s1) = f q s; (rs, s2) = serve_all f qs s1 in (r # rs, s2))"

text \<open>
  The interface of a service on which requests of some kind do no harm: they keep an invariant,
  relate the state before to the state after, and each gets a response that is good for it.
\<close>

locale harmless_requests =
  fixes f :: "'q \<Rightarrow> 's \<Rightarrow> 'r \<times> 's"
    and harmless :: "'q \<Rightarrow> bool"
    and inv :: "'s \<Rightarrow> bool"
    and keeps :: "'s \<Rightarrow> 's \<Rightarrow> bool"
    and good :: "'q \<Rightarrow> 'r \<Rightarrow> bool"
  assumes keeps_refl: "keeps s s"
    and keeps_trans: "keeps s s1 \<Longrightarrow> keeps s1 s2 \<Longrightarrow> keeps s s2"
    and harmless_step: "inv s \<Longrightarrow> harmless q \<Longrightarrow> f q s = (r, s1) \<Longrightarrow> inv s1 \<and> keeps s s1 \<and> good q r"
begin

lemma harmless_run:
  assumes "inv s" and "\<forall>q \<in> set qs. harmless q" and "serve_all f qs s = (rs, s1)"
  shows "inv s1 \<and> keeps s s1 \<and> list_all2 good qs rs"
  using assms
proof (induction qs arbitrary: s rs)
  case (Cons q qs)
  obtain r s2 where step: "f q s = (r, s2)" by fastforce
  obtain rs2 s3 where rest: "serve_all f qs s2 = (rs2, s3)" by fastforce
  have "inv s2 \<and> keeps s s2 \<and> good q r" using harmless_step [OF Cons.prems(1) _ step] Cons.prems(2) by simp
  moreover from this have "inv s3 \<and> keeps s2 s3 \<and> list_all2 good qs rs2"
    using Cons.IH [of s2 rs2] rest Cons.prems by (simp add: step)
  ultimately show ?case using Cons.prems(3) keeps_trans by (auto simp: step rest)
qed (simp add: keeps_refl)

end

text \<open>The interface of a service whose responses do not depend on what \<open>alike\<close> hides.\<close>

locale hiding_service =
  fixes f :: "'q \<Rightarrow> 's \<Rightarrow> 'r \<times> 's"
    and alike :: "'s \<Rightarrow> 's \<Rightarrow> bool"
  assumes alike_step: "alike s t \<Longrightarrow> fst (f q s) = fst (f q t) \<and> alike (snd (f q s)) (snd (f q t))"
begin

lemma alike_run:
  "alike s t \<Longrightarrow> fst (serve_all f qs s) = fst (serve_all f qs t)
     \<and> alike (snd (serve_all f qs s)) (snd (serve_all f qs t))"
  by (induction qs arbitrary: s t) (use alike_step in \<open>fastforce simp: case_prod_beta Let_def\<close>)+

end

lemma all_responses: "list_all2 (\<lambda>_ r. P r) qs rs \<Longrightarrow> \<forall>r \<in> set rs. P r"
  by (induction rule: list_all2_induct) simp_all

type_synonym ui_request = "surroundings \<times> request"

abbreviation ui_step :: "(string \<Rightarrow> go_int option) \<Rightarrow> ui_handler \<Rightarrow> ui_request \<Rightarrow> ui_state \<Rightarrow> ui_page response \<times> ui_state" where
  "ui_step pl h q \<equiv> ui_serve pl h (fst q) (snd q)"

definition ui_handlers :: "(string \<Rightarrow> go_int option) \<Rightarrow> ui_handler \<Rightarrow> handler set" where
  "ui_handlers pl h = {handle_login_get h, handle_login_post h, handle_logout_post h,
     require_session h handle_index, require_session h (handle_settings pl h), require_session h handle_status}"

text \<open>The metrics page is the one route without a guard.\<close>

definition asks_metrics :: "request \<Rightarrow> bool" where
  "asks_metrics r \<longleftrightarrow> (\<exists>m. mux_route ui_patterns r = RoutedTo m [''metrics''])"

lemma find_in_set: "find P xs = Some x \<Longrightarrow> x \<in> set xs"
  by (induction xs) (auto split: if_splits)

lemma mux_route_pattern: "mux_route ps r = RoutedTo m p \<Longrightarrow> (m, p) \<in> set ps"
  by (auto simp: mux_route_def Let_def dest!: find_in_set split: if_splits option.splits)

lemma ui_handler_of_cases:
  "ui_handler_of pl h m p \<in> ui_handlers pl h \<or> ui_handler_of pl h m p = (\<lambda>out r s. (respond 200 [] (Some MetricsPage), s))"
proof -
  have "ui_handler_of pl h m p \<in> insert (\<lambda>out r s. (respond 200 [] (Some MetricsPage), s)) (ui_handlers pl h)"
    unfolding ui_handler_of_def ui_handlers_def insert_iff by simp
  then show ?thesis by blast
qed

lemma routed_handler:
  assumes "mux_route ui_patterns r = RoutedTo m p"
  shows "if asks_metrics r then ui_handler_of pl h m p = (\<lambda>out r s. (respond 200 [] (Some MetricsPage), s))
    else ui_handler_of pl h m p \<in> ui_handlers pl h"
proof -
  have "asks_metrics r \<longleftrightarrow> p = [''metrics'']" using assms by (simp add: asks_metrics_def)
  moreover have "p = [''login''] \<or> p = [''logout''] \<or> p = [''''] \<or> p = [''settings''] \<or> p = [''api'', ''status'']
      \<or> p = [''metrics'']"
    using mux_route_pattern [OF assms] by (auto simp: ui_patterns_def)
  ultimately show ?thesis by (auto simp: ui_handler_of_def ui_handlers_def)
qed

text \<open>What a request can be answered with: by one of the handlers, by the metrics, or by none.\<close>

lemma ui_serve_cases:
  obtains (Refused) "snd (ui_serve pl h out r s) = s" "\<not> asks_metrics r"
      "rs_page (fst (ui_serve pl h out r s)) = None" "rs_cookies (fst (ui_serve pl h out r s)) = []"
  | (Metrics) "snd (ui_serve pl h out r s) = s" "asks_metrics r"
      "rs_page (fst (ui_serve pl h out r s)) = Some MetricsPage" "rs_cookies (fst (ui_serve pl h out r s)) = []"
  | (Handled) hn where "hn \<in> ui_handlers pl h"
      "snd (ui_serve pl h out r s) = snd (hn out r s)"
      "rs_page (fst (ui_serve pl h out r s)) = rs_page (fst (hn out r s))"
      "rs_cookies (fst (ui_serve pl h out r s)) = rs_cookies (fst (hn out r s))" "\<not> asks_metrics r"
proof (cases "mux_route ui_patterns r")
  case (RoutedTo m p)
  let ?hn = "ui_handler_of pl h m p"
  have eq: "snd (ui_serve pl h out r s) = snd (?hn out r s)"
      "rs_page (fst (ui_serve pl h out r s)) = rs_page (fst (?hn out r s))"
      "rs_cookies (fst (ui_serve pl h out r s)) = rs_cookies (fst (?hn out r s))"
    by (simp_all add: ui_serve_def RoutedTo case_prod_beta)
  show thesis
  proof (cases "asks_metrics r")
    case True
    then have hn: "?hn = (\<lambda>out r s. (respond 200 [] (Some MetricsPage), s))"
      using routed_handler [OF RoutedTo, of pl h] by simp
    show ?thesis by (rule Metrics) (simp_all add: eq hn respond_def True)
  next
    case False
    then have "?hn \<in> ui_handlers pl h" using routed_handler [OF RoutedTo, of pl h] by simp
    then show ?thesis using eq False by (rule Handled)
  qed
qed (rule Refused; simp add: ui_serve_def http_redirect_def http_error_def respond_def asks_metrics_def)+

section \<open>Who can do what\<close>

lemma session_validate_store:
  "session_validate token u st = (ok, st') \<Longrightarrow> sessions st' \<subseteq>\<^sub>m sessions st \<and> (ok \<longrightarrow> sessions st token \<noteq> None)"
  by (auto simp: session_validate_def map_le_def split: if_splits option.splits)

text \<open>A check drops at most the session it was asked about, when its lifetime is over.\<close>

definition drops_expired :: "surroundings \<Rightarrow> request \<Rightarrow> session_store \<Rightarrow> session_store \<Rightarrow> bool" where
  "drops_expired out r st st' \<longleftrightarrow> session_ttl st' = session_ttl st \<and> sessions st' \<subseteq>\<^sub>m sessions st
     \<and> (\<forall>token created. sessions st token = Some created \<longrightarrow> sessions st' token = Some created
          \<or> rq_cookie r = Some token \<and> time_sub (out_now out) created > session_ttl st)"

lemma drops_expired_refl: "drops_expired out r st st"
  by (simp add: drops_expired_def)

lemma session_validate_expired:
  "session_validate token (out_now out) st = (ok, st') \<Longrightarrow> rq_cookie r = Some token \<Longrightarrow> drops_expired out r st st'"
  by (auto simp: session_validate_def drops_expired_def map_le_def split: if_splits option.splits)

lemma require_session_cases:
  obtains (Open) "auth_password (uh_auth h) = []" "require_session h nh out r s = nh out r s"
  | (Shut) st where "require_session h nh out r s = (no_session_response r, s\<lparr>ui_sessions := st\<rparr>)"
      "sessions st \<subseteq>\<^sub>m sessions (ui_sessions s)" "drops_expired out r (ui_sessions s) st"
  | (Entered) token st where "rq_cookie r = Some token" "sessions (ui_sessions s) token \<noteq> None"
      "require_session h nh out r s = nh out r (s\<lparr>ui_sessions := st\<rparr>)" "sessions st \<subseteq>\<^sub>m sessions (ui_sessions s)"
      "drops_expired out r (ui_sessions s) st"
proof (cases "auth_password (uh_auth h) = []")
  case False
  show thesis
  proof (cases "rq_cookie r")
    case None
    then have "require_session h nh out r s = (no_session_response r, s\<lparr>ui_sessions := ui_sessions s\<rparr>)"
      using False by (simp add: require_session_def)
    then show ?thesis by (rule Shut) (simp_all add: drops_expired_refl)
  next
    case (Some token)
    obtain ok st where v: "session_validate token (out_now out) (ui_sessions s) = (ok, st)" by fastforce
    note st = session_validate_store [OF v] session_validate_expired [OF v Some]
    show ?thesis
    proof (cases ok)
      case True
      show ?thesis
        by (rule Entered [OF Some, of st]) (use st True in \<open>auto simp: require_session_def False Some v\<close>)
    next
      case ok: False
      show ?thesis using st by (intro Shut [of st]) (simp_all add: require_session_def False Some v ok)
    qed
  qed
qed (rule Open; simp add: require_session_def)

lemma no_session_plain [simp]:
  "rs_cookies (no_session_response r) = []" "rs_page (no_session_response r) \<in> {None, Some Unauthorized}"
  by (simp_all add: no_session_response_def http_redirect_def respond_def)

lemma response_plain [simp]:
  "rs_cookies (respond n hs p) = []" "rs_page (respond n hs p) = p"
  "rs_cookies (http_redirect n u r) = []" "rs_page (http_redirect n u r) = None"
  "rs_cookies (http_error n) = []" "rs_page (http_error n) = None"
  "rs_cookies (redirect_with_message r m e) = []" "rs_page (redirect_with_message r m e) = None"
  "rs_cookies (redirect_login_error r e next_path) = []" "rs_page (redirect_login_error r e next_path) = None"
  by (simp_all add: http_redirect_def http_error_def respond_def redirect_with_message_def
      redirect_login_error_def Let_def)

lemma set_cookie_sel [simp]:
  "rs_page (set_cookie ck rs) = rs_page rs" "rs_headers (set_cookie ck rs) = rs_headers rs"
  "rs_status (set_cookie ck rs) = rs_status rs"
  by (simp_all add: set_cookie_def)

text \<open>The pages that show the client's state or its gauges and counters.\<close>

fun status_shown :: "ui_page option \<Rightarrow> bool" where
  "status_shown (Some (StatusPage d)) = True"
| "status_shown (Some (StatusJson st cfg)) = True"
| "status_shown (Some MetricsPage) = True"
| "status_shown _ = False"

definition same_client :: "ui_state \<Rightarrow> ui_state \<Rightarrow> bool" where
  "same_client s s1 \<longleftrightarrow> ui_runtime s1 = ui_runtime s \<and> ui_log_level s1 = ui_log_level s"

lemma login_get_effect: "snd (handle_login_get h out r s) = s" "\<not> status_shown (rs_page (fst (handle_login_get h out r s)))"
  "rs_cookies (fst (handle_login_get h out r s)) = []"
  by (simp_all add: handle_login_get_def)

lemma index_effect: "snd (handle_index out r s) = s" "rs_cookies (fst (handle_index out r s)) = []"
  by (simp_all add: handle_index_def case_prod_beta Let_def)

lemma status_effect: "snd (handle_status out r s) = s" "rs_cookies (fst (handle_status out r s)) = []"
  by (simp_all add: handle_status_def case_prod_beta Let_def)

lemma logout_effect:
  "same_client s (snd (handle_logout_post h out r s))" "\<not> status_shown (rs_page (fst (handle_logout_post h out r s)))"
  "sessions (ui_sessions (snd (handle_logout_post h out r s))) \<subseteq>\<^sub>m sessions (ui_sessions s)"
  by (auto simp: handle_logout_post_def same_client_def session_delete_def map_le_def split: option.splits)

definition logs_in :: "ui_handler \<Rightarrow> request \<Rightarrow> bool" where
  "logs_in h r \<longleftrightarrow> (\<exists>form. parse_form login_body_limit r = Some form
     \<and> verify (uh_auth h) (values_get ''username'' form) (values_get ''password'' form))"

lemma login_post_cases:
  obtains (Refused) l where "snd (handle_login_post h out r s) = s\<lparr>ui_limiter := l\<rparr>"
      "rs_page (fst (handle_login_post h out r s)) = None" "rs_cookies (fst (handle_login_post h out r s)) = []"
      "\<not> origin_allowed h r \<Longrightarrow> l = ui_limiter s"
  | (Welcome) l token form where "origin_allowed h r" "logs_in h r" "parse_form login_body_limit r = Some form"
      "snd (handle_login_post h out r s) = s\<lparr>ui_limiter := l,
         ui_sessions := (ui_sessions s)\<lparr>sessions := (sessions (ui_sessions s))(token \<mapsto> out_now out)\<rparr>\<rparr>"
      "fst (handle_login_post h out r s) = set_cookie (session_cookie out (ui_sessions s) token r)
         (http_redirect 303 (safe_next_path (values_get ''next'' form)) r)"
      "fst (login_allow (remote_ip_key (rq_remote_addr r)) (out_now out) (ui_limiter s))"
proof -
  let ?p = "handle_login_post h out r s"
  obtain ok l where l: "login_allow (remote_ip_key (rq_remote_addr r)) (out_now out) (ui_limiter s) = (ok, l)"
    by fastforce
  consider (early) "rq_method r \<noteq> ''POST'' \<or> \<not> origin_allowed h r"
    | (limited) "rq_method r = ''POST''" "origin_allowed h r"
        "\<not> ok \<or> parse_form login_body_limit r = None \<or> \<not> logs_in h r \<or> out_random out = None"
    | (enter) form bytes where "rq_method r = ''POST''" "origin_allowed h r" ok "parse_form login_body_limit r = Some form"
        "verify (uh_auth h) (values_get ''username'' form) (values_get ''password'' form)" "out_random out = Some bytes"
    unfolding logs_in_def by (metis option.exhaust)
  then show thesis
  proof cases
    case early
    show ?thesis by (rule Refused [of "ui_limiter s"]) (use early in \<open>auto simp: handle_login_post_def\<close>)
  next
    case limited
    show ?thesis
      by (rule Refused [of l])
        (use limited in \<open>auto simp: handle_login_post_def l Let_def session_create_def logs_in_def split: option.splits\<close>)
  next
    case (enter form bytes)
    show ?thesis
      by (rule Welcome [where l = l and token = "raw_url_encode bytes" and form = form])
        (use enter in \<open>simp_all add: handle_login_post_def l Let_def session_create_def logs_in_def
           session_cookie_def\<close>)
  qed
qed

section \<open>Sample requests\<close>

definition sample_get :: "string \<Rightarrow> request" where
  "sample_get path =
     \<lparr>rq_method = ''GET'', rq_url = empty_url\<lparr>url_path := path\<rparr>, rq_origin = [], rq_referer = [],
      rq_cookie = None, rq_media_type = Some [], rq_body = Some [], rq_remote_addr = ''10.0.0.7:4711'',
      rq_tls = False\<rparr>"

definition sample_post :: "string \<Rightarrow> string \<Rightarrow> request" where
  "sample_post path body =
     (sample_get path)\<lparr>rq_method := ''POST'', rq_origin := ''http://127.0.0.1:9090'',
        rq_media_type := Some ''application/x-www-form-urlencoded'', rq_body := Some body\<rparr>"

definition sample_auth :: auth_config where
  "sample_auth = \<lparr>auth_username = [], auth_password = ''secret''\<rparr>"

definition sample_handler :: ui_handler where
  "sample_handler =
     \<lparr>uh_listen_addr = ''127.0.0.1:9090'', uh_origin_override = [], uh_listen_host = ''127.0.0.1'',
      uh_listen_port = ''9090'', uh_bind_all = False, uh_auth = sample_auth\<rparr>"

definition sample_surroundings :: surroundings where
  "sample_surroundings = \<lparr>out_now = 1000 * second, out_random = Some (replicate 32 7), out_status = (\<lambda>_. zero_status)\<rparr>"

definition sample_ui :: "config \<Rightarrow> ui_state" where
  "sample_ui cfg = \<lparr>ui_runtime = start_locked (new_runtime cfg), ui_sessions = new_session_store (168 * hour),
     ui_limiter = new_login_rate_limiter, ui_log_level = 1\<rparr>"

lemma sample_handler_new: "new_ui_handler (\<lambda>_. []) sample_auth ''127.0.0.1:9090'' = sample_handler"
proof -
  have "split_host_port ''127.0.0.1:9090'' = Some (''127.0.0.1'', ''9090'')" by code_simp
  moreover have "\<not> is_bind_all_host ''127.0.0.1''" by code_simp
  ultimately show ?thesis by (simp add: new_ui_handler_def sample_handler_def Let_def)
qed

lemma sample_get_form: "parse_form n (sample_get p) = Some []"
proof -
  have "parse_query [] = ([], True)" by code_simp
  then show ?thesis by (simp add: parse_form_def post_form_def sample_get_def empty_url_def)
qed

lemma sample_get_login: "\<not> logs_in sample_handler (sample_get p)"
proof -
  have "\<not> verify sample_auth [] []" by code_simp
  then show ?thesis
    by (simp add: logs_in_def sample_get_form sample_handler_def values_get_def)
qed

lemma sample_origin: "request_origin (sample_post p b) = Some (''http'', ''127.0.0.1:9090'')"
proof -
  have "url_origin ''http://127.0.0.1:9090'' = Some (''http'', ''127.0.0.1:9090'')" by code_simp
  then show ?thesis by (simp add: request_origin_def sample_post_def)
qed

lemma sample_origin_allowed: "origin_allowed sample_handler (sample_post p b)" "\<not> origin_allowed sample_handler (sample_get p)"
proof -
  have "join_host_port ''127.0.0.1'' ''9090'' = ''127.0.0.1:9090''" by code_simp
  then show "origin_allowed sample_handler (sample_post p b)"
    by (simp add: origin_allowed_def sample_origin sample_handler_def Let_def)
  show "\<not> origin_allowed sample_handler (sample_get p)"
    by (simp add: origin_allowed_def request_origin_def sample_get_def)
qed

lemma sample_post_form:
  "parse_form n (sample_post p b) = (if size b \<le> n \<and> snd (parse_query b) then Some (fst (parse_query b)) else None)"
proof -
  have "parse_query [] = ([], True)" by code_simp
  then show ?thesis
    by (simp add: parse_form_def post_form_def sample_post_def sample_get_def empty_url_def split: prod.split)
qed


definition blank_config :: config where
  "blank_config = initial_config (\<lambda>_. [])"

abbreviation sample_run :: "request list \<Rightarrow> ui_page response list \<times> ui_state" where
  "sample_run rs \<equiv> serve_all (ui_step (\<lambda>_. Some 1) sample_handler)
     (map (Pair sample_surroundings) rs) (sample_ui blank_config)"

end
