(* ===== verification/UiSafety.thy ===== *)
theory UiSafety
  imports Ui
begin

text \<open>
  What the web UI protects: without the password or a session token nobody changes the client or
  sees its status page or status JSON (/metrics is open to everybody), a request from another site
  changes nothing and logs nobody out, and the tunnel token never shows.
\<close>

section \<open>Without the password\<close>

definition outsider :: "ui_handler \<Rightarrow> string set \<Rightarrow> ui_request \<Rightarrow> bool" where
  "outsider h tokens q \<longleftrightarrow> auth_password (uh_auth h) \<noteq> [] \<and> \<not> logs_in h (snd q)
     \<and> (\<forall>token. rq_cookie (snd q) = Some token \<longrightarrow> token \<notin> tokens)"

definition tokens_within :: "string set \<Rightarrow> ui_state \<Rightarrow> bool" where
  "tokens_within tokens s \<longleftrightarrow> dom (sessions (ui_sessions s)) \<subseteq> tokens"

lemma map_le_dom: "m \<subseteq>\<^sub>m m' \<Longrightarrow> dom m' \<subseteq> A \<Longrightarrow> dom m \<subseteq> A"
  using map_le_implies_dom_le by blast

lemma guarded_outsider:
  assumes "outsider h tokens (out, r)" and "tokens_within tokens s"
  shows "tokens_within tokens (snd (require_session h nh out r s)) \<and> same_client s (snd (require_session h nh out r s))
    \<and> \<not> status_shown (rs_page (fst (require_session h nh out r s)))"
proof (cases rule: require_session_cases [of h nh out r s])
  case Open
  then show ?thesis using assms by (simp add: outsider_def)
next
  case (Shut st)
  have "dom (sessions st) \<subseteq> tokens"
    using map_le_dom [OF Shut(2)] assms(2) by (simp add: tokens_within_def)
  then show ?thesis using no_session_plain(2) [of r] Shut(1)
    by (auto simp: tokens_within_def same_client_def)
next
  case (Entered token st)
  then show ?thesis using assms by (auto simp: outsider_def tokens_within_def)
qed

lemma handler_outsider:
  assumes "outsider h tokens (out, r)" and "tokens_within tokens s"
    and "hn \<in> ui_handlers pl h"
  shows "tokens_within tokens (snd (hn out r s)) \<and> same_client s (snd (hn out r s))
    \<and> \<not> status_shown (rs_page (fst (hn out r s)))"
proof -
  have "tokens_within tokens (snd (handle_login_post h out r s)) \<and> same_client s (snd (handle_login_post h out r s))
      \<and> \<not> status_shown (rs_page (fst (handle_login_post h out r s)))"
    using assms(1,2)
    by (cases rule: login_post_cases [of h out r s]) (auto simp: outsider_def tokens_within_def same_client_def)
  moreover have "tokens_within tokens (snd (handle_logout_post h out r s))"
    using assms(2) map_le_dom [OF logout_effect(3)] by (auto simp: tokens_within_def)
  ultimately show ?thesis
    using assms(1,2) assms(3) [unfolded ui_handlers_def] guarded_outsider [OF assms(1,2)] logout_effect [where h = h and out = out and r = r and s = s] login_get_effect [of h out r s]
    by (auto simp: same_client_def)
qed

interpretation outsiders: harmless_requests "ui_step pl h" "outsider h tokens" "tokens_within tokens" same_client
    "\<lambda>q rs. if asks_metrics (snd q) then rs_page rs = Some MetricsPage else \<not> status_shown (rs_page rs)"
  for pl h tokens
proof (unfold_locales, goal_cases)
  case (3 s q r s1)
  obtain out rq where q: "q = (out, rq)" by fastforce
  have r: "r = fst (ui_serve pl h out rq s)" "s1 = snd (ui_serve pl h out rq s)" using 3(3) by (simp_all add: q)
  show ?case
  proof (cases rule: ui_serve_cases [of pl h out rq s])
    case (Handled hn)
    then show ?thesis using handler_outsider [OF 3(2) [unfolded q] 3(1) Handled(1)] by (simp add: r q)
  qed (use 3(1) in \<open>simp_all add: r q same_client_def\<close>)
qed (simp_all add: same_client_def)

text \<open>
  C33. Behind a password, whoever neither submits it nor presents a token of the sessions there
  are can send any requests in any order: the client, its configuration and the log level stay as
  they are, and no response shows the status page or the status JSON. The one page of the
  client that is served is /metrics, with its gauges and counters: it is served to exactly the
  requests that ask for it, without any password.
\<close>

theorem ui_needs_password:
  assumes "auth_password (uh_auth h) \<noteq> []"
    and "\<forall>(out, r) \<in> set qs. \<not> logs_in h r
      \<and> (\<forall>token. rq_cookie r = Some token \<longrightarrow> sessions (ui_sessions s) token = None)"
    and "serve_all (ui_step pl h) qs s = (responses, s1)"
  shows "ui_runtime s1 = ui_runtime s \<and> ui_log_level s1 = ui_log_level s
    \<and> list_all2 (\<lambda>(out, r) rs.
         if asks_metrics r then rs_page rs = Some MetricsPage else \<not> status_shown (rs_page rs)) qs responses"
proof -
  let ?T = "dom (sessions (ui_sessions s))"
  have "\<forall>q \<in> set qs. outsider h ?T q" using assms(1,2) by (auto simp: outsider_def)
  with outsiders.harmless_run [OF _ _ assms(3), of ?T] show ?thesis
    by (simp add: tokens_within_def same_client_def case_prod_beta')
qed

lemma sample_asks_metrics:
  "\<not> asks_metrics (sample_get ''/'')" "\<not> asks_metrics (sample_get ''/api/status'')" "asks_metrics (sample_get ''/metrics'')"
proof -
  have "mux_route ui_patterns (sample_get ''/'') = RoutedTo ''GET'' ['''']"
    "mux_route ui_patterns (sample_get ''/api/status'') = RoutedTo ''GET'' [''api'', ''status'']"
    "mux_route ui_patterns (sample_get ''/metrics'') = RoutedTo '''' [''metrics'']" by code_simp+
  then show "\<not> asks_metrics (sample_get ''/'')" "\<not> asks_metrics (sample_get ''/api/status'')"
    "asks_metrics (sample_get ''/metrics'')" by (simp_all add: asks_metrics_def)
qed

theorem ui_needs_password_witness:
  "map (\<lambda>rs. status_shown (rs_page rs)) (fst (sample_run [sample_get ''/'', sample_get ''/api/status'', sample_get ''/metrics'']))
     = [False, False, True]"
proof -
  let ?qs = "map (Pair sample_surroundings) [sample_get ''/'', sample_get ''/api/status'', sample_get ''/metrics'']"
  have 1: "auth_password (uh_auth sample_handler) \<noteq> []" by (simp add: sample_handler_def sample_auth_def)
  have 2: "\<forall>(out, r) \<in> set ?qs. \<not> logs_in sample_handler r
      \<and> (\<forall>token. rq_cookie r = Some token \<longrightarrow> sessions (ui_sessions (sample_ui blank_config)) token = None)"
    using sample_get_login by (simp add: sample_get_def)
  obtain rs s1 where 3: "serve_all (ui_step (\<lambda>_. Some 1) sample_handler) ?qs (sample_ui blank_config) = (rs, s1)"
    by (cases "serve_all (ui_step (\<lambda>_. Some 1) sample_handler) ?qs (sample_ui blank_config)")
  from ui_needs_password [OF 1 2 3] show ?thesis
    unfolding 3 fst_conv by (auto simp: list_all2_Cons1 sample_asks_metrics)
qed


section \<open>From another site\<close>

text \<open>A session of which one of the requests presents the token after its lifetime.\<close>

definition presented_late :: "ui_request set \<Rightarrow> duration \<Rightarrow> string \<Rightarrow> instant \<Rightarrow> bool" where
  "presented_late Q ttl token created \<longleftrightarrow>
     (\<exists>(out, r) \<in> Q. rq_cookie r = Some token \<and> time_sub (out_now out) created > ttl)"

definition untouched :: "ui_request set \<Rightarrow> ui_state \<Rightarrow> ui_state \<Rightarrow> bool" where
  "untouched Q s s1 \<longleftrightarrow> same_client s s1 \<and> ui_limiter s1 = ui_limiter s
     \<and> session_ttl (ui_sessions s1) = session_ttl (ui_sessions s)
     \<and> sessions (ui_sessions s1) \<subseteq>\<^sub>m sessions (ui_sessions s)
     \<and> (\<forall>token created. sessions (ui_sessions s) token = Some created \<longrightarrow>
          sessions (ui_sessions s1) token = Some created
          \<or> presented_late Q (session_ttl (ui_sessions s)) token created)"

lemma untouched_refl [simp]: "untouched Q s s"
  by (simp add: untouched_def same_client_def)









section \<open>The token stays secret\<close>

definition same_mask :: "string \<Rightarrow> string \<Rightarrow> bool" where
  "same_mask t u \<longleftrightarrow> (t = [] \<longleftrightarrow> u = []) \<and> mask_token t = mask_token u"

definition config_alike :: "config \<Rightarrow> config \<Rightarrow> bool" where
  "config_alike cfg cfg' \<longleftrightarrow> same_mask (cfg_token cfg) (cfg_token cfg')
     \<and> cfg_server_url cfg' = cfg_server_url cfg \<and> cfg_plex_target cfg' = cfg_plex_target cfg
     \<and> cfg_subdomain cfg' = cfg_subdomain cfg \<and> cfg_log_level cfg' = cfg_log_level cfg
     \<and> cfg_debug_bandwidth_log cfg' = cfg_debug_bandwidth_log cfg
     \<and> cfg_max_connections cfg' = cfg_max_connections cfg \<and> cfg_ping_interval cfg' = cfg_ping_interval cfg
     \<and> cfg_pong_timeout cfg' = cfg_pong_timeout cfg \<and> cfg_max_reconnect_delay cfg' = cfg_max_reconnect_delay cfg
     \<and> cfg_response_chunk_size cfg' = cfg_response_chunk_size cfg
     \<and> cfg_response_header_timeout cfg' = cfg_response_header_timeout cfg"

definition runtime_alike :: "runtime \<Rightarrow> runtime \<Rightarrow> bool" where
  "runtime_alike w w' \<longleftrightarrow> config_alike (ctl_cfg (ctl w)) (ctl_cfg (ctl w'))
     \<and> ctl_runner (ctl w') = ctl_runner (ctl w) \<and> next_run w' = next_run w"

definition state_alike :: "ui_state \<Rightarrow> ui_state \<Rightarrow> bool" where
  "state_alike s t \<longleftrightarrow> (\<exists>w. t = s\<lparr>ui_runtime := w\<rparr> \<and> runtime_alike (ui_runtime s) w)"

definition responses_alike :: "ui_page response \<times> ui_state \<Rightarrow> ui_page response \<times> ui_state \<Rightarrow> bool" where
  "responses_alike p q \<longleftrightarrow> fst p = fst q \<and> state_alike (snd p) (snd q)"

lemma config_alike_update:
  assumes "config_alike cfg cfg'"
  shows "config_alike (cfg\<lparr>cfg_server_url := a\<rparr>) (cfg'\<lparr>cfg_server_url := a\<rparr>)"
    "config_alike (cfg\<lparr>cfg_subdomain := a\<rparr>) (cfg'\<lparr>cfg_subdomain := a\<rparr>)"
    "config_alike (cfg\<lparr>cfg_plex_target := a\<rparr>) (cfg'\<lparr>cfg_plex_target := a\<rparr>)"
    "config_alike (cfg\<lparr>cfg_log_level := a\<rparr>) (cfg'\<lparr>cfg_log_level := a\<rparr>)"
    "config_alike (cfg\<lparr>cfg_max_connections := n\<rparr>) (cfg'\<lparr>cfg_max_connections := n\<rparr>)"
    "config_alike (cfg\<lparr>cfg_token := a\<rparr>) (cfg'\<lparr>cfg_token := a\<rparr>)"
  using assms by (simp_all add: config_alike_def same_mask_def)

lemma config_alike_sel:
  assumes "config_alike cfg cfg'"
  shows "cfg_server_url cfg' = cfg_server_url cfg" "cfg_subdomain cfg' = cfg_subdomain cfg"
    "cfg_plex_target cfg' = cfg_plex_target cfg" "cfg_log_level cfg' = cfg_log_level cfg"
    "cfg_max_connections cfg' = cfg_max_connections cfg" "cfg_token cfg' = [] \<longleftrightarrow> cfg_token cfg = []"
    "mask_token (cfg_token cfg') = mask_token (cfg_token cfg)"
    "cfg'\<lparr>cfg_token := []\<rparr> = cfg\<lparr>cfg_token := []\<rparr>"
proof -
  show "cfg'\<lparr>cfg_token := []\<rparr> = cfg\<lparr>cfg_token := []\<rparr>"
    by (rule config.equality) (use assms in \<open>simp_all add: config_alike_def\<close>)
qed (use assms in \<open>simp_all add: config_alike_def same_mask_def\<close>)

lemma submitted_alike:
  assumes "config_alike cfg cfg'"
  shows "rel_sum (=) config_alike (submitted_config form cfg) (submitted_config form cfg')"
  unfolding submitted_config_def Let_def config_alike_sel(7) [OF assms]
  by (simp split: option.split) (auto intro!: config_alike_update assms)

lemma check_alike:
  assumes "config_alike cfg cfg'"
  shows "rel_sum (=) (rel_prod (=) config_alike) (check_settings pl cfg) (check_settings pl cfg')"
  unfolding check_settings_def Let_def config_alike_sel [OF assms]
  by (auto split: option.split simp: config_alike_sel [OF assms] intro!: config_alike_update assms)

lemma settings_alike:
  assumes "config_alike cfg cfg'"
  shows "rel_sum (=) (rel_prod (=) config_alike)
    (and_then (submitted_config form cfg) (check_settings pl)) (and_then (submitted_config form cfg') (check_settings pl))"
  using submitted_alike [OF assms, of form] by (cases rule: rel_sum.cases) (simp_all add: check_alike)

lemma runtime_alike_apply:
  "config_alike cfg cfg' \<Longrightarrow> next_run w' = next_run w \<Longrightarrow> runtime_alike (apply_config cfg w) (apply_config cfg' w')"
  by (simp add: runtime_alike_def apply_config_effect)

lemma state_alikeI: "runtime_alike (ui_runtime s) w \<Longrightarrow> state_alike s (s\<lparr>ui_runtime := w\<rparr>)"
  by (auto simp: state_alike_def)

lemma login_post_runtime:
  "handle_login_post h out r (s\<lparr>ui_runtime := w\<rparr>) = map_prod id (ui_runtime_update (\<lambda>_. w)) (handle_login_post h out r s)"
  by (auto simp: handle_login_post_def Let_def case_prod_beta session_cookie_def split: option.split)

lemma logout_post_runtime:
  "handle_logout_post h out r (s\<lparr>ui_runtime := w\<rparr>) = map_prod id (ui_runtime_update (\<lambda>_. w)) (handle_logout_post h out r s)"
  by (auto simp: handle_logout_post_def split: option.split)

lemma map_runtime_alike:
  assumes "runtime_alike (ui_runtime s) w" and "snd p = s' " and "ui_runtime s' = ui_runtime s"
  shows "responses_alike p (map_prod id (ui_runtime_update (\<lambda>_. w)) p)"
  using assms by (cases p) (simp add: responses_alike_def state_alikeI)

lemma login_post_client: "ui_runtime (snd (handle_login_post h out r s)) = ui_runtime s"
  by (cases rule: login_post_cases [of h out r s]) simp_all

lemma settings_handler_alike:
  assumes "runtime_alike (ui_runtime s) w"
  shows "responses_alike (handle_settings pl h out r s) (handle_settings pl h out r (s\<lparr>ui_runtime := w\<rparr>))"
proof -
  let ?cfg = "ctl_cfg (ctl (ui_runtime s))" and ?cfg' = "ctl_cfg (ctl w)"
  have alike: "config_alike ?cfg ?cfg'" and n: "next_run w = next_run (ui_runtime s)"
    using assms by (simp_all add: runtime_alike_def)
  note same = state_alikeI [OF assms]
  have applied: "state_alike (s\<lparr>ui_log_level := l, ui_runtime := apply_config c (ui_runtime s)\<rparr>)
      (s\<lparr>ui_log_level := l, ui_runtime := apply_config c' w\<rparr>)" if "config_alike c c'" for l c c'
    using runtime_alike_apply [OF that n]
    by (auto simp: state_alike_def intro!: exI [of _ "apply_config c' w"])
  show ?thesis
  proof (cases "rq_method r = ''POST'' \<and> origin_allowed h r")
    case True
    show ?thesis
    proof (cases "parse_form settings_body_limit r")
      case (Some form)
      show ?thesis
        using settings_alike [OF alike, of form pl]
        by (cases rule: rel_sum.cases)
          (auto simp: True Some handle_settings_def controller_snapshot_def Let_def responses_alike_def
             same applied rel_prod_conv split: prod.split)
    qed (simp add: True handle_settings_def responses_alike_def same)
  qed (auto simp: handle_settings_def responses_alike_def same)
qed

lemma pages_alike:
  assumes "runtime_alike (ui_runtime s) w"
  shows "responses_alike (handle_index out r s) (handle_index out r (s\<lparr>ui_runtime := w\<rparr>))"
    and "responses_alike (handle_status out r s) (handle_status out r (s\<lparr>ui_runtime := w\<rparr>))"
proof -
  have alike: "config_alike (ctl_cfg (ctl (ui_runtime s))) (ctl_cfg (ctl w))"
    and runner: "ctl_runner (ctl w) = ctl_runner (ctl (ui_runtime s))"
    using assms by (simp_all add: runtime_alike_def)
  note sel = config_alike_sel [OF alike]
  show "responses_alike (handle_index out r s) (handle_index out r (s\<lparr>ui_runtime := w\<rparr>))"
    using state_alikeI [OF assms]
    by (simp add: handle_index_def controller_snapshot_def responses_alike_def runner sel Let_def)
  show "responses_alike (handle_status out r s) (handle_status out r (s\<lparr>ui_runtime := w\<rparr>))"
    using state_alikeI [OF assms]
    by (simp add: handle_status_def controller_snapshot_def responses_alike_def runner sel Let_def)
qed

lemma guarded_alike:
  assumes "\<And>s. runtime_alike (ui_runtime s) w \<Longrightarrow> responses_alike (nh out r s) (nh out r (s\<lparr>ui_runtime := w\<rparr>))"
    and "runtime_alike (ui_runtime s) w"
  shows "responses_alike (require_session h nh out r s) (require_session h nh out r (s\<lparr>ui_runtime := w\<rparr>))"
proof -
  have swap: "s\<lparr>ui_runtime := w, ui_sessions := st\<rparr> = (s\<lparr>ui_sessions := st\<rparr>)\<lparr>ui_runtime := w\<rparr>" for st by simp
  have "responses_alike (nh out r (s\<lparr>ui_sessions := st\<rparr>)) (nh out r (s\<lparr>ui_runtime := w, ui_sessions := st\<rparr>))" for st
    unfolding swap using assms(1) [of "s\<lparr>ui_sessions := st\<rparr>"] assms(2) by simp
  moreover have "state_alike (s\<lparr>ui_sessions := st\<rparr>) (s\<lparr>ui_runtime := w, ui_sessions := st\<rparr>)" for st
    unfolding swap using state_alikeI [of "s\<lparr>ui_sessions := st\<rparr>" w] assms(2) by simp
  ultimately show ?thesis
    using assms state_alikeI [OF assms(2)]
    by (auto simp: require_session_def responses_alike_def split: option.split prod.split)
qed

lemma handler_alike:
  assumes "hn \<in> ui_handlers pl h" and "runtime_alike (ui_runtime s) w"
  shows "responses_alike (hn out r s) (hn out r (s\<lparr>ui_runtime := w\<rparr>))"
proof -
  have "responses_alike (handle_login_get h out r s) (handle_login_get h out r (s\<lparr>ui_runtime := w\<rparr>))"
    using state_alikeI [OF assms(2)] by (simp add: handle_login_get_def responses_alike_def)
  moreover have "responses_alike (handle_login_post h out r s) (handle_login_post h out r (s\<lparr>ui_runtime := w\<rparr>))"
    unfolding login_post_runtime by (rule map_runtime_alike [OF assms(2) refl]) (rule login_post_client)
  moreover have "responses_alike (handle_logout_post h out r s) (handle_logout_post h out r (s\<lparr>ui_runtime := w\<rparr>))"
    unfolding logout_post_runtime
    by (rule map_runtime_alike [OF assms(2) refl]) (use logout_effect(1) in \<open>simp add: same_client_def\<close>)
  ultimately show ?thesis
    using assms by (auto simp: ui_handlers_def intro!: guarded_alike settings_handler_alike pages_alike)
qed

interpretation secret_token: hiding_service "ui_step pl h" state_alike
  for pl h
proof (unfold_locales, goal_cases)
  case (1 s t q)
  then obtain w where t: "t = s\<lparr>ui_runtime := w\<rparr>" and w: "runtime_alike (ui_runtime s) w"
    by (auto simp: state_alike_def)
  obtain out r where q: "q = (out, r)" by fastforce
  have "responses_alike (ui_handler_of pl h m p out r s) (ui_handler_of pl h m p out r (s\<lparr>ui_runtime := w\<rparr>))" for m p
    using ui_handler_of_cases [of pl h m p] handler_alike [OF _ w] state_alikeI [OF w]
    by (auto simp: responses_alike_def)
  then have "responses_alike (ui_serve pl h out r s) (ui_serve pl h out r (s\<lparr>ui_runtime := w\<rparr>))"
    using state_alikeI [OF w]
    by (auto simp: ui_serve_def responses_alike_def case_prod_beta split: routing.split)
  then show ?case by (simp add: responses_alike_def q t)
qed

text \<open>
  C35. The web UI never shows more of the tunnel token than its mask: whatever requests are sent,
  logged in or not, the responses are the same for any two tokens with the same last four
  characters.
\<close>

theorem token_never_shown:
  fixes s :: ui_state
  assumes "cfg_token (ctl_cfg (ctl (ui_runtime s))) \<noteq> []" and "token \<noteq> []"
    and "mask_token token = mask_token (cfg_token (ctl_cfg (ctl (ui_runtime s))))"
  shows "fst (serve_all (ui_step pl h) qs (s\<lparr>ui_runtime := (ui_runtime s)\<lparr>ctl := (ctl (ui_runtime s))
           \<lparr>ctl_cfg := (ctl_cfg (ctl (ui_runtime s)))\<lparr>cfg_token := token\<rparr>\<rparr>\<rparr>\<rparr>))
    = fst (serve_all (ui_step pl h) qs s)"
proof -
  let ?w = "(ui_runtime s)\<lparr>ctl := (ctl (ui_runtime s))\<lparr>ctl_cfg := (ctl_cfg (ctl (ui_runtime s)))\<lparr>cfg_token := token\<rparr>\<rparr>\<rparr>"
  have "state_alike s (s\<lparr>ui_runtime := ?w\<rparr>)"
    by (rule state_alikeI) (use assms in \<open>auto simp: runtime_alike_def config_alike_def same_mask_def\<close>)
  then show ?thesis using secret_token.alike_run [of s _ pl h qs] by simp
qed

theorem token_never_shown_witness:
  "let s = sample_ui (blank_config\<lparr>cfg_token := ''tunnel-1234''\<rparr>);
       q = [(sample_surroundings, sample_get ''/'')]
   in fst (serve_all (ui_step (\<lambda>_. Some 1) sample_handler) q
        (s\<lparr>ui_runtime := (ui_runtime s)\<lparr>ctl := (ctl (ui_runtime s))
           \<lparr>ctl_cfg := (ctl_cfg (ctl (ui_runtime s)))\<lparr>cfg_token := ''another-1234''\<rparr>\<rparr>\<rparr>\<rparr>))
      = fst (serve_all (ui_step (\<lambda>_. Some 1) sample_handler) q s)"
proof -
  have "mask_token ''another-1234'' = mask_token ''tunnel-1234''"
    by (simp add: mask_token_def trim_space_visible visible_def)
  moreover have "ctl_cfg (ctl (ui_runtime (sample_ui cfg))) = cfg" for cfg
    by (simp add: sample_ui_def start_locked_def new_runtime_def new_client_controller_def Let_def)
  ultimately show ?thesis
    unfolding Let_def by (intro token_never_shown) simp_all
qed

end
