(* ===== verification/UiBehaviour.thy ===== *)
theory UiBehaviour
  imports Ui
begin

text \<open>
  What the handlers of the web UI do: which submissions of the settings form take effect and
  how, that the configuration stays within its bounds, what a login hands out and where it
  leads, and which origins are allowed.
\<close>

section \<open>What the settings form does\<close>

text \<open>
  The configuration a form stands for, declaratively: \<open>new\<close> is \<open>old\<close> with the submitted
  values, and \<open>level\<close> is its log level.
\<close>

definition settings_ask_for ::
  "(string \<Rightarrow> go_int option) \<Rightarrow> query_values \<Rightarrow> config \<Rightarrow> go_int \<Rightarrow> config \<Rightarrow> bool" where
  "settings_ask_for pl form old level new \<longleftrightarrow>
     cfg_token new = (if form_text ''token'' form \<in> {[], mask_token (cfg_token old)} then cfg_token old
                      else form_text ''token'' form)
     \<and> cfg_token new \<noteq> []
     \<and> cfg_server_url new = form_text ''server_url'' form \<and> ws_url (cfg_server_url new)
     \<and> cfg_subdomain new = form_text ''subdomain'' form
     \<and> cfg_plex_target new = form_text ''plex_target'' form \<and> http_url (cfg_plex_target new)
     \<and> cfg_log_level new = (if form_text ''log_level'' form = [] then ''info'' else form_text ''log_level'' form)
     \<and> pl (cfg_log_level new) = Some level
     \<and> (if form_text ''max_connections'' form = [] then cfg_max_connections new = cfg_max_connections old
        else within 1 32 (atoi (form_text ''max_connections'' form)) = Some (cfg_max_connections new))
     \<and> cfg_debug_bandwidth_log new = cfg_debug_bandwidth_log old
     \<and> cfg_ping_interval new = cfg_ping_interval old
     \<and> cfg_pong_timeout new = cfg_pong_timeout old
     \<and> cfg_max_reconnect_delay new = cfg_max_reconnect_delay old
     \<and> cfg_response_chunk_size new = cfg_response_chunk_size old
     \<and> cfg_response_header_timeout new = cfg_response_header_timeout old"

lemma ws_url_Nil [simp]: "\<not> ws_url []"
  by code_simp

lemma check_settings_Inr:
  "check_settings pl cfg = Inr (level, cfg') \<longleftrightarrow>
     cfg_token cfg \<noteq> [] \<and> ws_url (cfg_server_url cfg) \<and> http_url (cfg_plex_target cfg)
     \<and> cfg' = cfg\<lparr>cfg_log_level := (if cfg_log_level cfg = [] then ''info'' else cfg_log_level cfg)\<rparr>
     \<and> pl (cfg_log_level cfg') = Some level"
  by (cases "cfg_server_url cfg = []") (auto simp: check_settings_def Let_def split: option.split)

lemma submitted_config_Inr:
  "submitted_config form old = Inr cfg \<longleftrightarrow>
     (\<exists>n. cfg = old\<lparr>cfg_token := (if form_text ''token'' form \<in> {[], mask_token (cfg_token old)} then cfg_token old
                                  else form_text ''token'' form),
              cfg_server_url := form_text ''server_url'' form, cfg_subdomain := form_text ''subdomain'' form,
              cfg_plex_target := form_text ''plex_target'' form, cfg_log_level := form_text ''log_level'' form,
              cfg_max_connections := n\<rparr>
        \<and> (if form_text ''max_connections'' form = [] then n = cfg_max_connections old
           else within 1 32 (atoi (form_text ''max_connections'' form)) = Some n))"
  by (auto simp: submitted_config_def Let_def within_def split: option.splits)

lemma settings_result:
  "and_then (submitted_config form old) (check_settings pl) = Inr (level, new)
     \<longleftrightarrow> settings_ask_for pl form old level new"
proof
  assume "and_then (submitted_config form old) (check_settings pl) = Inr (level, new)"
  then obtain cfg where "submitted_config form old = Inr cfg" "check_settings pl cfg = Inr (level, new)"
    by (auto simp: and_then_Inr_iff)
  then show "settings_ask_for pl form old level new"
    unfolding submitted_config_Inr check_settings_Inr settings_ask_for_def by (elim exE conjE) simp
next
  assume ask: "settings_ask_for pl form old level new"
  let ?cfg = "old\<lparr>cfg_token := cfg_token new, cfg_server_url := cfg_server_url new,
      cfg_subdomain := cfg_subdomain new, cfg_plex_target := cfg_plex_target new,
      cfg_log_level := form_text ''log_level'' form, cfg_max_connections := cfg_max_connections new\<rparr>"
  have "submitted_config form old = Inr ?cfg"
    unfolding submitted_config_Inr
    by (intro exI [of _ "cfg_max_connections new"]) (use ask in \<open>simp add: settings_ask_for_def\<close>)
  moreover have "check_settings pl ?cfg = Inr (level, new)"
    unfolding check_settings_Inr
  proof (intro conjI)
    show "new = ?cfg\<lparr>cfg_log_level := if cfg_log_level ?cfg = [] then ''info'' else cfg_log_level ?cfg\<rparr>"
      by (rule config.equality) (use ask in \<open>simp_all add: settings_ask_for_def\<close>)
  qed (use ask in \<open>auto simp: settings_ask_for_def split: if_splits\<close>)
  ultimately show "and_then (submitted_config form old) (check_settings pl) = Inr (level, new)" by simp
qed

text \<open>
  C36. The settings form: a valid submission from the UI's own origin makes the configuration
  exactly the submitted one, sets the log level, ends the running client and starts a new one
  with that configuration; every other submission leaves everything as it is and is answered
  with a redirect.
\<close>

theorem settings_exact:
  fixes s :: ui_state and out :: surroundings and pl :: "string \<Rightarrow> go_int option"
  assumes "rq_method r = ''POST''" and "origin_allowed h r"
    and "parse_form settings_body_limit r = Some form"
  defines "old \<equiv> ctl_cfg (ctl (ui_runtime s))" and "s1 \<equiv> snd (handle_settings pl h out r s)"
  shows "if \<exists>level new. settings_ask_for pl form old level new
    then \<exists>new. settings_ask_for pl form old (ui_log_level s1) new
      \<and> ctl_cfg (ctl (ui_runtime s1)) = new
      \<and> ctl_runner (ctl (ui_runtime s1)) = Some (next_run (ui_runtime s))
      \<and> run_cfg (ui_runtime s1) (next_run (ui_runtime s)) = new
      \<and> (\<forall>d. ctl_done (ctl (ui_runtime s)) = Some d \<longrightarrow> d \<in> finished (ui_runtime s1))
    else s1 = s \<and> rs_status (fst (handle_settings pl h out r s)) = 303"
proof (cases "and_then (submitted_config form old) (check_settings pl)")
  case (Inl msg)
  then have "\<not> settings_ask_for pl form old level new" for level new
    using settings_result [of form old pl level new] by simp
  moreover have "s1 = s \<and> rs_status (fst (handle_settings pl h out r s)) = 303"
    using assms(1-3) Inl
    by (simp add: s1_def handle_settings_def controller_snapshot_def old_def redirect_with_message_def
        http_redirect_def respond_def Let_def)
  ultimately show ?thesis by simp
next
  case (Inr p)
  then obtain level new where p: "and_then (submitted_config form old) (check_settings pl) = Inr (level, new)"
    by (cases p) auto
  then have ask: "settings_ask_for pl form old level new" by (simp add: settings_result)
  have "s1 = s\<lparr>ui_log_level := level, ui_runtime := apply_config new (ui_runtime s)\<rparr>"
    using assms(1-3) p by (simp add: s1_def handle_settings_def controller_snapshot_def old_def Let_def)
  then have "ui_log_level s1 = level" "ui_runtime s1 = apply_config new (ui_runtime s)" by simp_all
  then show ?thesis using ask apply_config_effect [where cfg = new and w = "ui_runtime s"] by auto
qed

definition sample_form :: query_values where
  "sample_form = [(''token'', ''****1234''), (''server_url'', ''wss://x''), (''plex_target'', ''http://y'')]"

definition sample_settings :: request where
  "sample_settings = sample_post ''/settings'' ''token=****1234&server_url=wss%3A%2F%2Fx&plex_target=http%3A%2F%2Fy''"

lemma sample_settings_form: "parse_form settings_body_limit sample_settings = Some sample_form"
proof -
  let ?b = "''token=****1234&server_url=wss%3A%2F%2Fx&plex_target=http%3A%2F%2Fy''"
  have "parse_query ?b = (sample_form, True)" by code_simp
  then show ?thesis
    unfolding sample_settings_def sample_post_form by (simp add: settings_body_limit_def)
qed

lemma sample_form_texts:
  "form_text ''token'' sample_form = ''****1234''" "form_text ''server_url'' sample_form = ''wss://x''"
  "form_text ''subdomain'' sample_form = []" "form_text ''plex_target'' sample_form = ''http://y''"
  "form_text ''log_level'' sample_form = []" "form_text ''max_connections'' sample_form = []"
  by (simp_all add: form_text_def values_get_def sample_form_def trim_space_visible visible_def)

definition sample_new_config :: config where
  "sample_new_config = blank_config\<lparr>cfg_token := ''tunnel-1234'', cfg_server_url := ''wss://x'',
     cfg_subdomain := [], cfg_plex_target := ''http://y'', cfg_log_level := ''info''\<rparr>"

theorem settings_exact_witness:
  "let s = sample_ui (blank_config\<lparr>cfg_token := ''tunnel-1234''\<rparr>);
       s1 = snd (handle_settings (\<lambda>_. Some 1) sample_handler sample_surroundings sample_settings s)
   in \<exists>new. cfg_token new = ''tunnel-1234'' \<and> cfg_server_url new = ''wss://x''
        \<and> ctl_cfg (ctl (ui_runtime s1)) = new \<and> run_cfg (ui_runtime s1) 1 = new \<and> 0 \<in> finished (ui_runtime s1)"
proof -
  let ?s = "sample_ui (blank_config\<lparr>cfg_token := ''tunnel-1234''\<rparr>)"
  have start: "ctl_cfg (ctl (ui_runtime ?s)) = blank_config\<lparr>cfg_token := ''tunnel-1234''\<rparr>"
    "ctl_done (ctl (ui_runtime ?s)) = Some 0" "next_run (ui_runtime ?s) = 1"
    by (simp_all add: sample_ui_def start_locked_def new_runtime_def new_client_controller_def Let_def)
  have facts: "ws_url ''wss://x''" "http_url ''http://y''" by code_simp+
  have mask: "mask_token ''tunnel-1234'' = ''****1234''"
    by (simp add: mask_token_def trim_space_visible visible_def)
  have ask: "settings_ask_for (\<lambda>_. Some 1) sample_form (ctl_cfg (ctl (ui_runtime ?s))) 1 sample_new_config"
    unfolding settings_ask_for_def start sample_form_texts by (simp add: facts mask sample_new_config_def)
  have post: "rq_method sample_settings = ''POST''" by (simp add: sample_settings_def sample_post_def)
  have allowed: "origin_allowed sample_handler sample_settings"
    unfolding sample_settings_def by (rule sample_origin_allowed)
  obtain new where new: "settings_ask_for (\<lambda>_. Some 1) sample_form (ctl_cfg (ctl (ui_runtime ?s)))
        (ui_log_level (snd (handle_settings (\<lambda>_. Some 1) sample_handler sample_surroundings sample_settings ?s))) new"
      "ctl_cfg (ctl (ui_runtime (snd (handle_settings (\<lambda>_. Some 1) sample_handler sample_surroundings sample_settings ?s)))) = new"
      "run_cfg (ui_runtime (snd (handle_settings (\<lambda>_. Some 1) sample_handler sample_surroundings sample_settings ?s))) 1 = new"
      "0 \<in> finished (ui_runtime (snd (handle_settings (\<lambda>_. Some 1) sample_handler sample_surroundings sample_settings ?s)))"
    using settings_exact [OF post allowed sample_settings_form, of "\<lambda>_. Some 1" ?s sample_surroundings] ask
    unfolding start(2,3) by (auto split: if_splits)
  then show ?thesis
    unfolding Let_def settings_ask_for_def start sample_form_texts by (intro exI [of _ new]) (simp add: facts mask)
qed

section \<open>The configuration stays valid\<close>

definition config_ok :: "config \<Rightarrow> bool" where
  "config_ok cfg \<longleftrightarrow> cfg_token cfg \<noteq> [] \<and> ws_url (cfg_server_url cfg)
     \<and> 0 \<le> cfg_max_connections cfg \<and> cfg_max_connections cfg \<le> 32
     \<and> 1024 \<le> cfg_response_chunk_size cfg \<and> cfg_response_chunk_size cfg \<le> 4 * 1024 * 1024"

definition client_ok :: "ui_state \<Rightarrow> bool" where
  "client_ok s \<longleftrightarrow> config_ok (ctl_cfg (ctl (ui_runtime s)))
     \<and> (\<forall>r < next_run (ui_runtime s). config_ok (run_cfg (ui_runtime s) r))"

lemma settings_config_ok: "settings_ask_for pl form old level new \<Longrightarrow> config_ok old \<Longrightarrow> config_ok new"
  by (auto simp: settings_ask_for_def config_ok_def within_def split: if_splits option.splits)

lemma settings_client_ok:
  assumes "client_ok s"
  shows "client_ok (snd (handle_settings pl h out r s))"
proof -
  have same: "ctl_cfg (ctl w) = fst (controller_snapshot st w)" for w st by (simp add: controller_snapshot_def)
  have "client_ok (s\<lparr>ui_log_level := level, ui_runtime := apply_config new (ui_runtime s)\<rparr>)"
    if "config_ok new" for level new
    unfolding client_ok_def
    using assms that by (auto simp: client_ok_def apply_config_effect less_Suc_eq)
  moreover have "config_ok new"
    if "and_then (submitted_config form (fst (controller_snapshot (out_status out) (ui_runtime s)))) (check_settings pl) = Inr (level, new)"
    for form level new
    using settings_config_ok [OF that [unfolded settings_result]] assms by (simp add: client_ok_def controller_snapshot_def)
  ultimately show ?thesis
    using assms by (auto simp: handle_settings_def Let_def case_prod_beta split: option.splits sum.splits)
qed

lemma client_ok_same: "same_client s s1 \<Longrightarrow> client_ok s1 = client_ok s"
  by (simp add: client_ok_def same_client_def)

lemma guarded_client_ok:
  assumes "\<And>u. client_ok u \<Longrightarrow> client_ok (snd (nh out r u))" and "client_ok s"
  shows "client_ok (snd (require_session h nh out r s))"
proof -
  have sess: "client_ok (s\<lparr>ui_sessions := st\<rparr>)" for st using assms(2) by (simp add: client_ok_def)
  show ?thesis
    by (cases rule: require_session_cases [of h nh out r s]) (simp_all add: sess assms)
qed

interpretation config_keeper: harmless_requests "ui_step pl h" "\<lambda>_. True" client_ok "\<lambda>_ _. True" "\<lambda>_ _. True"
  for pl h
proof (unfold_locales, goal_cases)
  case (3 s q r s1)
  obtain out rq where q: "q = (out, rq)" by fastforce
  have s1: "s1 = snd (ui_serve pl h out rq s)" using 3(3) by (simp add: q)
  show ?case
  proof (cases rule: ui_serve_cases [of pl h out rq s])
    case (Handled hn)
    have "client_ok (snd (handle_login_post h out rq s))"
      using 3(1) by (cases rule: login_post_cases [of h out rq s]) (simp_all add: client_ok_def)
    then have "client_ok (snd (hn out rq s))"
      using Handled(1) 3(1) client_ok_same [OF logout_effect(1)]
      by (auto simp: ui_handlers_def login_get_effect index_effect status_effect
          intro!: guarded_client_ok settings_client_ok)
    then show ?thesis by (simp add: s1 Handled)
  qed (simp_all add: s1 3(1))
qed simp_all

text \<open>
  C37. Started with a configuration that LoadConfig accepts, the client only ever runs with
  configurations that keep its bounds, whatever is submitted to the UI: a token, a ws:// or
  wss:// server, 0 to 32 connections and chunks of 1 KiB to 4 MiB.
\<close>

theorem ui_keeps_config_valid:
  assumes "load_config env pd = Inr cfg" and "ui_runtime s = start_locked (new_runtime cfg)"
    and "serve_all (ui_step pl h) qs s = (responses, s1)"
  shows "config_ok (ctl_cfg (ctl (ui_runtime s1)))
    \<and> (\<forall>r < next_run (ui_runtime s1). config_ok (run_cfg (ui_runtime s1) r))"
proof -
  have "config_ok cfg" using load_config_bounds [OF assms(1)] by (simp add: config_ok_def)
  then have "client_ok s"
    by (simp add: client_ok_def assms(2) start_locked_fresh start_locked_def new_runtime_def
        new_client_controller_def Let_def)
  with config_keeper.harmless_run [OF this _ assms(3)] show ?thesis by (simp add: client_ok_def)
qed

theorem ui_keeps_config_valid_witness:
  "config_ok (ctl_cfg (ctl (ui_runtime (snd (serve_all (ui_step (\<lambda>_. Some 1) sample_handler)
     [(sample_surroundings, sample_settings)] (sample_ui sample_config))))))"
proof -
  obtain rs s1 where run: "serve_all (ui_step (\<lambda>_. Some 1) sample_handler)
      [(sample_surroundings, sample_settings)] (sample_ui sample_config) = (rs, s1)" by fastforce
  show ?thesis
    unfolding run snd_conv
    using ui_keeps_config_valid [OF sample_config_loads _ run] by (simp add: sample_ui_def)
qed

section \<open>Where a login leads\<close>

lemma split_byte_elems: "e \<in> set (split_byte c s) \<Longrightarrow> c \<notin> set e"
  by (induction c s arbitrary: e rule: split_byte.induct) (auto split: if_splits list.splits)

lemma fold_clean_elem:
  assumes "\<forall>e \<in> set es. CHR ''/'' \<notin> set e" and "\<forall>e \<in> set acc. e \<noteq> [] \<and> CHR ''/'' \<notin> set e"
  shows "\<forall>e \<in> set (fold clean_elem es acc). e \<noteq> [] \<and> CHR ''/'' \<notin> set e"
  using assms
proof (induction es arbitrary: acc)
  case (Cons e es)
  have es: "\<forall>e \<in> set es. CHR ''/'' \<notin> set e" using Cons.prems(1) by simp
  have "set (clean_elem e acc) \<subseteq> set acc \<union> ({e} - {[]})"
    unfolding clean_elem_def using in_set_butlastD [of _ acc] by simp blast
  then have "\<forall>e \<in> set (clean_elem e acc). e \<noteq> [] \<and> CHR ''/'' \<notin> set e"
    using Cons.prems by (simp add: subset_eq) blast
  from Cons.IH [OF es this] show ?case unfolding fold.simps o_apply .
qed simp

lemma clean_elems_ok: "\<forall>e \<in> set (clean_elems p). e \<noteq> [] \<and> CHR ''/'' \<notin> set e"
  unfolding clean_elems_def by (rule fold_clean_elem) (simp_all add: split_byte_elems)

text \<open>A target that starts with exactly one slash.\<close>

definition one_slash :: "string \<Rightarrow> bool" where
  "one_slash p \<longleftrightarrow> prefix ''/'' p \<and> \<not> prefix ''//'' p"

lemma rooted_one_slash: "\<forall>e \<in> set es. e \<noteq> [] \<and> CHR ''/'' \<notin> set e \<Longrightarrow> one_slash (rooted es @ t) \<or> es = [] \<and> prefix ''/'' t"
proof (induction es rule: rooted.induct)
  case (2 e)
  then show ?case by (cases e) (auto simp: one_slash_def)
next
  case (3 e e' es)
  then show ?case by (cases e) (auto simp: one_slash_def)
qed (auto simp: one_slash_def)

lemma clean_path_one_slash: "\<not> prefix ''/'' t \<Longrightarrow> one_slash (clean_path p @ t)"
proof -
  assume t: "\<not> prefix ''/'' t"
  let ?es = "clean_elems p"
  have ok: "\<forall>e \<in> set ?es. e \<noteq> [] \<and> CHR ''/'' \<notin> set e" by (rule clean_elems_ok)
  show ?thesis
  proof (cases "?es = []")
    case True
    then show ?thesis using rooted_one_slash [OF ok, of t] t by (simp add: clean_path_def keep_slash_def)
  next
    case False
    then have "one_slash (rooted ?es @ t)" "one_slash (rooted ?es @ ''/'' @ t)"
      using rooted_one_slash [OF ok, of t] rooted_one_slash [OF ok, of "''/'' @ t"] by auto
    then show ?thesis by (simp add: clean_path_def keep_slash_def)
  qed
qed

lemma redirect_target_one_slash:
  assumes "one_slash u"
  shows "one_slash (redirect_target u)"
proof -
  obtain p q found where cut: "cut CHR ''?'' u = (p, q, found)" by (cases "cut CHR ''?'' u")
  have "one_slash (clean_path p @ (if found then CHR ''?'' # q else []))"
    by (rule clean_path_one_slash) simp
  then show ?thesis
    using assms by (simp add: redirect_target_def cut split: option.split)
qed

lemma hex_escape_one_slash: "one_slash u \<Longrightarrow> one_slash (hex_escape_non_ascii u)"
proof -
  assume l: "one_slash u"
  then obtain v where u: "u = CHR ''/'' # v" by (auto simp: one_slash_def prefix_def)
  show ?thesis
  proof (cases v)
    case Nil
    then show ?thesis by (simp add: u hex_escape_non_ascii_def one_slash_def)
  next
    case (Cons c w)
    then show ?thesis using l by (auto simp: u hex_escape_non_ascii_def one_slash_def)
  qed
qed

lemma safe_next_one_slash: "one_slash (safe_next_path p)"
  by (auto simp: safe_next_path_def one_slash_def Let_def)

lemma redirect_location: "map_of (rs_headers (http_redirect n u r)) ''Location'' = Some (hex_escape_non_ascii (redirect_target u))"
  by (simp add: http_redirect_def respond_def)

text \<open>
  C38. A POST to the login hands out a session cookie exactly when it comes from an allowed origin
  within the attempt limit, its credentials are the right ones and random bytes can be drawn;
  any other one leaves the sessions as they are. The cookie's token is the encoding of the 32
  random bytes drawn for it, it is valid from now on, all other sessions stay, and the cookie has
  the protection flags. The redirect leads to a target that starts with exactly one slash,
  so never to one of the form \<open>//host\<close> (a slash and a backslash, which browsers take for the
  same, are not excluded: lemma \<open>backslash_redirects\<close>).
\<close>

theorem login_hands_out_session:
  "let (rs, s') = handle_login_post h out r s in
    (rs_cookies rs \<noteq> [] \<longleftrightarrow> rq_method r = ''POST'' \<and> origin_allowed h r
       \<and> fst (login_allow (remote_ip_key (rq_remote_addr r)) (out_now out) (ui_limiter s))
       \<and> logs_in h r \<and> out_random out \<noteq> None)
    \<and> (if rs_cookies rs = [] then ui_sessions s' = ui_sessions s
       else \<exists>ck bytes location. rs_cookies rs = [ck] \<and> out_random out = Some bytes
         \<and> ck_name ck = ''plextunnel_session'' \<and> ck_value ck = raw_url_encode bytes
         \<and> ck_http_only ck \<and> ck_same_site_strict ck \<and> (ck_secure ck \<longleftrightarrow> rq_tls r)
         \<and> sessions (ui_sessions s') = (sessions (ui_sessions s))(ck_value ck \<mapsto> out_now out)
         \<and> response_header ''Location'' rs = Some location \<and> one_slash location)"
proof -
  let ?p = "handle_login_post h out r s"
  obtain ok l where l: "login_allow (remote_ip_key (rq_remote_addr r)) (out_now out) (ui_limiter s) = (ok, l)"
    by fastforce
  let ?enters = "rq_method r = ''POST'' \<and> origin_allowed h r \<and> ok \<and> logs_in h r \<and> out_random out \<noteq> None"
  show ?thesis
  proof (cases ?enters)
    case True
    then obtain form bytes where form: "parse_form login_body_limit r = Some form"
        "verify (uh_auth h) (values_get ''username'' form) (values_get ''password'' form)"
        and bytes: "out_random out = Some bytes"
      by (auto simp: logs_in_def)
    let ?ck = "session_cookie out (ui_sessions s) (raw_url_encode bytes) r"
      and ?to = "safe_next_path (values_get ''next'' form)"
    have p: "fst ?p = set_cookie ?ck (http_redirect 303 ?to r)"
        "sessions (ui_sessions (snd ?p)) = (sessions (ui_sessions s))(raw_url_encode bytes \<mapsto> out_now out)"
      using True form bytes by (simp_all add: handle_login_post_def l session_create_def session_cookie_def Let_def)
    have "one_slash (hex_escape_non_ascii (redirect_target ?to))"
      by (intro hex_escape_one_slash redirect_target_one_slash safe_next_one_slash)
    moreover have "response_header ''Location'' (fst ?p) = Some (hex_escape_non_ascii (redirect_target ?to))"
      by (simp add: p response_header_def redirect_location)
    moreover have "rs_cookies (fst ?p) = [?ck]" by (simp add: p set_cookie_def)
    ultimately show ?thesis
      using True p(2) bytes
      by (auto simp: case_prod_beta l session_cookie_def session_cookie_name_def Let_def)
  next
    case False
    have "rs_cookies (fst ?p) = [] \<and> ui_sessions (snd ?p) = ui_sessions s"
    proof (cases "rq_method r = ''POST'' \<and> origin_allowed h r \<and> ok")
      case True
      then show ?thesis
        using False
        by (cases "parse_form login_body_limit r"; cases "out_random out")
          (auto simp: handle_login_post_def l logs_in_def session_create_def Let_def)
    qed (auto simp: handle_login_post_def l)
    then show ?thesis using False by (auto simp: case_prod_beta l)
  qed
qed

lemma sample_login:
  "fst (login_allow k (1000 * second) new_login_rate_limiter)"
  "logs_in sample_handler (sample_post ''/login'' ''password=secret&next=%2Fapi'')"
proof -
  show "fst (login_allow k (1000 * second) new_login_rate_limiter)"
    by (simp add: login_allow_def new_login_rate_limiter_def bucket_allow_def empty_bucket_def
        is_zero_time_def zero_time_def unit_defs Let_def)
  have "parse_query ''password=secret&next=%2Fapi'' = ([(''password'', ''secret''), (''next'', ''/api'')], True)"
    by code_simp
  moreover have "verify sample_auth [] ''secret''" by code_simp
  ultimately show "logs_in sample_handler (sample_post ''/login'' ''password=secret&next=%2Fapi'')"
    by (simp add: logs_in_def sample_post_form login_body_limit_def sample_handler_def values_get_def)
qed

theorem login_hands_out_session_witness:
  "let r = sample_post ''/login'' ''password=secret&next=%2Fapi'';
       p = handle_login_post sample_handler sample_surroundings r (sample_ui blank_config)
   in \<exists>ck. rs_cookies (fst p) = [ck] \<and> ck_http_only ck
        \<and> sessions (ui_sessions (snd p)) (ck_value ck) = Some (1000 * second)"
proof -
  let ?r = "sample_post ''/login'' ''password=secret&next=%2Fapi''"
  have "rq_method ?r = ''POST''" by (simp add: sample_post_def)
  then show ?thesis
    using login_hands_out_session [of sample_handler sample_surroundings ?r "sample_ui blank_config"]
      sample_login sample_origin_allowed(1)
    by (auto simp: sample_surroundings_def sample_ui_def case_prod_beta Let_def split: if_splits)
qed


section \<open>The origin check\<close>

lemma to_lower_colon: "\<forall>c \<in> set s. is_alnum c \<or> c \<in> set ''+-.'' \<Longrightarrow> CHR '':'' \<notin> set (to_lower s)"
proof (induction s rule: to_lower.induct)
  case (2 c s)
  have c: "is_alnum c \<or> c \<in> set ''+-.''" using 2 by simp
  then have "code c < 128" "lower_byte c \<noteq> CHR '':''"
    by (auto simp: byte_class_defs lower_byte_def dest: arg_cong [where f = code])
  then show ?case using 2 by auto
qed simp

lemma get_scheme_chars:
  assumes "get_scheme s = Some (sch, rest)"
  shows "\<forall>c \<in> set sch. is_alnum c \<or> c \<in> set ''+-.''"
proof -
  let ?P = "\<lambda>c. is_alnum c \<or> c \<in> set ''+-.''"
  have "take (size (takeWhile ?P s)) s = takeWhile ?P s" by (metis takeWhile_eq_take)
  then have "sch = [] \<or> sch = takeWhile ?P s"
    using assms by (auto simp: get_scheme_def Let_def split: if_splits)
  then show ?thesis by (auto dest: set_takeWhileD)
qed

lemma set_path_scheme: "set_path p u = Some u' \<Longrightarrow> url_scheme u' = url_scheme u"
  by (auto simp: set_path_def)

lemma parse_no_fragment_scheme:
  assumes "parse_no_fragment s = Some u"
  shows "CHR '':'' \<notin> set (url_scheme u)"
proof (cases "get_scheme s")
  case None
  then show ?thesis using assms by (auto simp: parse_no_fragment_def empty_url_def split: if_splits)
next
  case (Some p)
  obtain sch rest0 where p: "get_scheme s = Some (sch, rest0)" using Some by (cases p) auto
  obtain rest v where q: "take_query rest0 (empty_url\<lparr>url_scheme := to_lower sch\<rparr>) = (rest, v)" by fastforce
  then have v: "url_scheme v = to_lower sch"
    by (auto simp: take_query_def split: if_splits prod.splits)
  have "url_scheme u = url_scheme v \<or> u = empty_url\<lparr>url_path := ''*''\<rparr>"
    using assms by (auto simp: parse_no_fragment_def p q parse_rest_def Let_def
        dest!: set_path_scheme split: if_splits option.splits prod.splits)
  then show ?thesis
    using to_lower_colon [OF get_scheme_chars [OF p]] v by (auto simp: empty_url_def)
qed

lemma url_parse_scheme: "url_parse s = Some u \<Longrightarrow> CHR '':'' \<notin> set (url_scheme u)"
  by (auto simp: url_parse_def set_fragment_def split: prod.splits option.splits if_splits
      dest: parse_no_fragment_scheme)

lemma origin_inject:
  assumes "CHR '':'' \<notin> set a" and "CHR '':'' \<notin> set b"
  shows "a @ ''://'' @ x = b @ ''://'' @ y \<longleftrightarrow> a = b \<and> x = y"
proof
  assume eq: "a @ ''://'' @ x = b @ ''://'' @ y"
  have "takeWhile (\<lambda>c. c \<noteq> CHR '':'') (a @ ''://'' @ x) = a"
    using assms(1) by (subst takeWhile_append2) auto
  moreover have "takeWhile (\<lambda>c. c \<noteq> CHR '':'') (b @ ''://'' @ y) = b"
    using assms(2) by (subst takeWhile_append2) auto
  ultimately show "a = b \<and> x = y" using eq by simp
qed simp

lemma request_origin_scheme: "request_origin r = Some (scheme, host) \<Longrightarrow> CHR '':'' \<notin> set scheme"
  by (auto simp: request_origin_def url_origin_def dest: url_parse_scheme split: if_splits option.splits)

text \<open>
  C39. A UI bound to one address, with no PLEXTUNNEL_UI_ORIGIN, accepts exactly the requests whose
  Origin, or Referer when there is no Origin, has the scheme http and that host and port.
\<close>

theorem origin_check_exact:
  assumes "split_host_port addr = Some (host, port)" and "host \<noteq> []" and "port \<noteq> []"
    and "\<not> is_bind_all_host host" and "env ''PLEXTUNNEL_UI_ORIGIN'' = []"
  shows "origin_allowed (new_ui_handler env auth addr) r \<longleftrightarrow>
    request_origin r = Some (''http'', join_host_port host port)"
proof (cases "request_origin r")
  case (Some p)
  obtain scheme rhost where p: "p = (scheme, rhost)" by fastforce
  note inj = origin_inject [OF request_origin_scheme [OF Some [unfolded p]], of "''http''" rhost]
  show ?thesis
    using assms inj by (simp add: Some p origin_allowed_def new_ui_handler_def)
qed (simp add: origin_allowed_def)

theorem origin_check_exact_witness:
  "origin_allowed (new_ui_handler (\<lambda>_. []) sample_auth ''127.0.0.1:9090'') (sample_post ''/login'' [])
   \<and> \<not> origin_allowed (new_ui_handler (\<lambda>_. []) sample_auth ''127.0.0.1:9090'') (sample_get ''/'')"
proof -
  have *: "split_host_port ''127.0.0.1:9090'' = Some (''127.0.0.1'', ''9090'')" "\<not> is_bind_all_host ''127.0.0.1''"
    "join_host_port ''127.0.0.1'' ''9090'' = ''127.0.0.1:9090''" by code_simp+
  show ?thesis
    using origin_check_exact [OF *(1) _ _ *(2), of "\<lambda>_. []" sample_auth]
    by (simp add: sample_origin *(3) request_origin_def [of "sample_get ''/''"]) (simp add: sample_get_def)
qed

section \<open>What the checks miss\<close>

text \<open>
  A next path of a slash and a backslash, or a slash, a tab and a slash, passes safeNextPath and
  http.Redirect unchanged; browsers read both as \<open>//host\<close>.
\<close>

lemma backslash_redirects:
  "redirect_target (safe_next_path (CHR ''/'' # CHR 0x5C # ''evil.test'')) = CHR ''/'' # CHR 0x5C # ''evil.test''"
  "redirect_target (safe_next_path (CHR ''/'' # CHR 0x09 # ''/evil.test'')) = CHR ''/'' # CHR 0x09 # ''/evil.test''"
proof -
  have s: "safe_next_path (CHR ''/'' # CHR 0x5C # ''evil.test'') = CHR ''/'' # CHR 0x5C # ''evil.test''"
    "safe_next_path (CHR ''/'' # CHR 0x09 # ''/evil.test'') = CHR ''/'' # CHR 0x09 # ''/evil.test''"
    by (simp_all add: safe_next_path_def trim_space_visible visible_def Let_def)
  show "redirect_target (safe_next_path (CHR ''/'' # CHR 0x5C # ''evil.test'')) = CHR ''/'' # CHR 0x5C # ''evil.test''"
    unfolding s by code_simp
  show "redirect_target (safe_next_path (CHR ''/'' # CHR 0x09 # ''/evil.test'')) = CHR ''/'' # CHR 0x09 # ''/evil.test''"
    unfolding s by code_simp
qed

text \<open>
  The form shows the configured number of connections, 0 by default, and refuses it when it is
  submitted as it is; it accepts every subdomain, also what LoadConfig refuses.
\<close>

lemma default_connections_refused:
  assumes "form_text ''max_connections'' form = ''0''"
  shows "submitted_config form old = Inl ''max connections must be between 1 and 32''"
proof -
  have "atoi ''0'' = Some 0" by code_simp
  with assms show ?thesis by (simp add: submitted_config_def Let_def)
qed

lemma subdomain_not_checked:
  "check_settings pl (cfg\<lparr>cfg_subdomain := s\<rparr>)
     = map_sum id (map_prod id (cfg_subdomain_update (\<lambda>_. s))) (check_settings pl cfg)"
  by (simp add: check_settings_def Let_def split: option.split)

end
