(* ===== verification/MainProg.thy ===== *)
theory MainProg
  imports Ui
begin

text \<open>
  The start of the program, cmd/client/main.go: loading the configuration, starting the client,
  and setting up the web UI from its environment variables. What the process then waits for (a
  signal, a failing listener) and the Stop that ends it are in theory Service; the draining of
  open requests in the server's Shutdown is the HTTP library's.
\<close>

section \<open>Is the UI bound to this machine only?\<close>

definition is_loopback_ui_listen :: "string \<Rightarrow> bool" where
  "is_loopback_ui_listen addr =
     (let host = trim_space addr
      in if host = [] \<or> prefix '':'' host then False
         else
           let host = trim_brackets (case split_host_port host of None \<Rightarrow> host | Some (h, _) \<Rightarrow> h)
           in if equal_fold_ascii host ''localhost'' then True
              else case parse_ip host of None \<Rightarrow> False | Some ip \<Rightarrow> ip_is_loopback ip)"

section \<open>Starting\<close>

record serving =
  sv_handler :: ui_handler
  sv_state :: ui_state
  sv_warned :: bool

datatype startup = ConfigError config_error | LogLevelError | SessionTtlError
  | UiServing serving | UiDisabled runtime go_int

definition session_ttl_setting :: "environment \<Rightarrow> duration_parser \<Rightarrow> duration option" where
  "session_ttl_setting env pd =
     (let raw = trim_space (env ''PLEXTUNNEL_UI_SESSION_TTL'')
      in if raw = [] then Some (7 * 24 * hour) else pd raw)"

definition main_start :: "environment \<Rightarrow> duration_parser \<Rightarrow> (string \<Rightarrow> go_int option) \<Rightarrow> startup" where
  "main_start env pd parse_level =
     (case load_config env pd of
        Inl e \<Rightarrow> ConfigError e
      | Inr cfg \<Rightarrow>
          (case parse_level (cfg_log_level cfg) of
             None \<Rightarrow> LogLevelError
           | Some level \<Rightarrow>
               let w = start_locked (new_runtime cfg);
                   listen = getenv_default env ''PLEXTUNNEL_UI_LISTEN'' ''127.0.0.1:9090'';
                   password = env ''PLEXTUNNEL_UI_PASSWORD'';
                   username = trim_space (env ''PLEXTUNNEL_UI_USERNAME'')
               in case session_ttl_setting env pd of
                    None \<Rightarrow> SessionTtlError
                  | Some ttl \<Rightarrow>
                      if listen = [] then UiDisabled w level
                      else UiServing
                        \<lparr>sv_handler = new_ui_handler env
                           \<lparr>auth_username = username, auth_password = password\<rparr> listen,
                         sv_state = \<lparr>ui_runtime = w, ui_sessions = new_session_store ttl,
                           ui_limiter = new_login_rate_limiter, ui_log_level = level\<rparr>,
                         sv_warned = (\<not> is_loopback_ui_listen listen \<and> password = [])\<rparr>))"

section \<open>What it serves\<close>

lemma main_start_serving:
  assumes "main_start env pd pl = UiServing m"
  obtains cfg level ttl where "load_config env pd = Inr cfg" "pl (cfg_log_level cfg) = Some level"
    "session_ttl_setting env pd = Some ttl"
    "sv_handler m = new_ui_handler env
       \<lparr>auth_username = trim_space (env ''PLEXTUNNEL_UI_USERNAME''), auth_password = env ''PLEXTUNNEL_UI_PASSWORD''\<rparr>
       (getenv_default env ''PLEXTUNNEL_UI_LISTEN'' ''127.0.0.1:9090'')"
    "sv_state m = \<lparr>ui_runtime = start_locked (new_runtime cfg), ui_sessions = new_session_store ttl,
       ui_limiter = new_login_rate_limiter, ui_log_level = level\<rparr>"
  using assms by (auto simp: main_start_def Let_def split: sum.splits option.splits if_splits)

lemma getenv_default_nonempty: "d \<noteq> [] \<Longrightarrow> getenv_default env key d \<noteq> []"
  by (simp add: getenv_default_def Let_def)

lemma new_ui_handler_auth: "uh_auth (new_ui_handler env auth addr) = auth"
  by (simp add: new_ui_handler_def Let_def split: option.split prod.split)

text \<open>
  C40. The program starts exactly when its configuration loads and log level and session lifetime
  parse, and then it always serves the web UI: an empty PLEXTUNNEL_UI_LISTEN does not disable
  it, the UI then listens on 127.0.0.1:9090.
\<close>

theorem ui_always_served:
  "if \<exists>cfg level ttl. load_config env pd = Inr cfg \<and> pl (cfg_log_level cfg) = Some level
        \<and> session_ttl_setting env pd = Some ttl
   then \<exists>m. main_start env pd pl = UiServing m
        \<and> uh_listen_addr (sv_handler m) \<noteq> []
        \<and> (trim_space (env ''PLEXTUNNEL_UI_LISTEN'') = [] \<longrightarrow> uh_listen_addr (sv_handler m) = ''127.0.0.1:9090'')
   else main_start env pd pl \<in> range ConfigError \<union> {LogLevelError, SessionTtlError}"
proof -
  let ?listen = "getenv_default env ''PLEXTUNNEL_UI_LISTEN'' ''127.0.0.1:9090''"
  have listen: "?listen \<noteq> []" by (rule getenv_default_nonempty) simp
  have addr: "uh_listen_addr (new_ui_handler env a l) = l" for a l
    by (simp add: new_ui_handler_def Let_def split: option.split prod.split)
  have blank: "trim_space (env ''PLEXTUNNEL_UI_LISTEN'') = [] \<Longrightarrow> ?listen = ''127.0.0.1:9090''"
    by (simp add: getenv_default_def)
  show ?thesis
  proof (cases "load_config env pd")
    case (Inr cfg)
    then show ?thesis
      using listen blank
      by (cases "pl (cfg_log_level cfg)"; cases "session_ttl_setting env pd") (simp_all add: main_start_def addr Let_def)
  qed (simp add: main_start_def)
qed

theorem ui_always_served_witness:
  "\<exists>m. main_start sample_env (\<lambda>_. None) (\<lambda>_. Some 1) = UiServing m
     \<and> uh_listen_addr (sv_handler m) = ''127.0.0.1:9090''"
proof -
  have "trim_space (sample_env ''PLEXTUNNEL_UI_LISTEN'') = []" "trim_space (sample_env ''PLEXTUNNEL_UI_SESSION_TTL'') = []"
    by (simp_all add: sample_env_def)
  then show ?thesis
    using ui_always_served [of sample_env "\<lambda>_. None" "\<lambda>_. Some 1"] sample_config_loads
    by (auto simp: session_ttl_setting_def)
qed

text \<open>The default address is a loopback address; the wildcard is none.\<close>

lemma is_loopback_visible:
  assumes "visible (hd s)" and "visible (last s)" and "s \<noteq> []" and "\<not> prefix '':'' s"
    and "split_host_port s = Some (h, p)" and "trim_brackets h = h'"
  shows "is_loopback_ui_listen s \<longleftrightarrow> equal_fold_ascii h' ''localhost''
    \<or> (case parse_ip h' of None \<Rightarrow> False | Some ip \<Rightarrow> ip_is_loopback ip)"
  using assms by (simp add: is_loopback_ui_listen_def trim_space_visible)

lemma loopback_samples:
  "is_loopback_ui_listen ''127.0.0.1:9090''" "is_loopback_ui_listen ''[::1]:80''"
  "\<not> is_loopback_ui_listen ''0.0.0.0:9090''" "\<not> is_loopback_ui_listen '':9090''"
proof -
  have split: "split_host_port ''127.0.0.1:9090'' = Some (''127.0.0.1'', ''9090'')" "trim_brackets ''127.0.0.1'' = ''127.0.0.1''"
    "split_host_port ''[::1]:80'' = Some (''::1'', ''80'')" "trim_brackets ''::1'' = ''::1''"
    "split_host_port ''0.0.0.0:9090'' = Some (''0.0.0.0'', ''9090'')" "trim_brackets ''0.0.0.0'' = ''0.0.0.0''"
    by code_simp+
  have ip: "case parse_ip ''127.0.0.1'' of None \<Rightarrow> False | Some ip \<Rightarrow> ip_is_loopback ip"
    "case parse_ip ''::1'' of None \<Rightarrow> False | Some ip \<Rightarrow> ip_is_loopback ip"
    "\<not> (case parse_ip ''0.0.0.0'' of None \<Rightarrow> False | Some ip \<Rightarrow> ip_is_loopback ip)"
    "\<not> equal_fold_ascii ''0.0.0.0'' ''localhost''"
    by code_simp+
  show "is_loopback_ui_listen ''127.0.0.1:9090''"
    using is_loopback_visible [OF _ _ _ _ split(1,2)] ip(1) by (simp add: visible_def)
  show "is_loopback_ui_listen ''[::1]:80''"
    using is_loopback_visible [OF _ _ _ _ split(3,4)] ip(2) by (simp add: visible_def)
  show "\<not> is_loopback_ui_listen ''0.0.0.0:9090''"
    using is_loopback_visible [OF _ _ _ _ split(5,6)] ip(3,4) by (simp add: visible_def)
  show "\<not> is_loopback_ui_listen '':9090''"
    by (simp add: is_loopback_ui_listen_def trim_space_visible visible_def)
qed

end
