(* ===== verification/Session.thy ===== *)
theory Session
  imports PoolSpec Handshake KeepAlive Proxy Backoff Status
begin

text \<open>
  A tunnel session of pkg/client/client.go: the pool controller, the goroutine of each slot
  (maintainPoolSlot) with its read loop, the requests and ping loops it starts, and the loop of
  Run over sessions. A goroutine is a phase, the place where it waits or is about to test its
  context, and the list of what it has to do before it gets there. A step is one call of a
  method of the pool with the calls made under the pool's lock, or one access to something else
  that is shared (an atomic, the status, the error channel, a context, a connection), and the
  steps of all goroutines interleave. What the network, the timers and the requests do are the
  events of a step.
\<close>

section \<open>State\<close>

definition max_concurrent_streams :: go_int where
  "max_concurrent_streams = 128"

text \<open>
  The client that outlives its sessions: the breaker, the occupied stream slots, the gauge of
  active streams and the status. \<open>cl_waiting\<close>, \<open>cl_running\<close> and \<open>cl_leaving\<close> count the request
  goroutines of former sessions that have not yet counted themselves in the gauge, that are
  counted in it, and that have left it and still have their stream slot.
\<close>

record client_state =
  cl_circuit :: circuit_breaker
  cl_in_flight :: go_int
  cl_active_streams :: go_int
  cl_published :: published
  cl_waiting :: nat
  cl_running :: nat
  cl_leaving :: nat

datatype slot_phase =
    Staggered duration
  | LoopTop "conn_id option"
  | Joining
  | JoinFailed client_error
  | Repairing duration
  | Holding conn_id
  | Adding conn_id
  | Reading ref
  | ReadDone ref
  | Removing ref
  | Gone

text \<open>
  Where the goroutine of a request is that its connection's stream counter counts: before the gauge
  is incremented, between that and its decrement, and after it.
\<close>

datatype request_stage = StreamCounted | GaugeCounted | GaugeLeft

text \<open>A running ping loop: its context, the slot's context if that is its parent, its connection.\<close>

record ping_proc =
  pg_ctx :: cancel_id
  pg_parent :: "cancel_id option"
  pg_ref :: ref

text \<open>What a goroutine does between two phases, one access to shared state each.\<close>

datatype slot_action =
    SyncPool \<comment> \<open>syncPoolStatus: reads the pool\<close>
  | PublishPool connection_pool \<comment> \<open>and publishes what it read\<close>
  | Perform pool_effect
  | StartPoolPing ref
  | StartConnPing ref
  | StorePong ref
  | IfControl ref \<comment> \<open>clears the control connection's failures if it is that one\<close>
  | ClearFailures
  | GoPing ping_proc
  | ResizePool go_int
  | StartSlots go_int go_int \<comment> \<open>the loop of resize from an index to its bound\<close>
  | UnlockController
  | SendReply conn_id message
  | PublishMax go_int
  | Report client_error

record slot_proc =
  pr_index :: go_int
  pr_ctx :: cancel_id
  pr_attempt :: go_int
  pr_phase :: slot_phase
  pr_todo :: "slot_action list"

text \<open>
  Contexts are numbers, \<open>se_cancelled\<close> those that were cancelled; all of them end with the
  session's own (\<open>se_over\<close>). \<open>se_err\<close> is the channel the goroutines report to, which holds
  one error. \<open>se_accepted\<close> has the connection of each request whose goroutine has not yet counted
  it in the connection's streams, \<open>se_requests\<close> those that are counted there, with the place where
  their goroutine is, and \<open>se_leaving\<close> counts those that have
  taken it off again and still have their stream slot; the connections of \<open>se_closing\<close> are about to
  be closed by goroutines that wait for nothing else. \<open>se_locked\<close> is the controller's mutex;
  runSession starts the goroutines of the slots from \<open>se_next_slot\<close> up to \<open>se_granted\<close>.
\<close>

record session =
  se_client :: client_state
  se_world :: pool_world
  se_locked :: bool
  se_control :: conn_id
  se_next_slot :: go_int
  se_granted :: go_int
  se_failures :: go_int
  se_err :: "client_error option"
  se_over :: bool
  se_cancelled :: "cancel_id set"
  se_fresh :: cancel_id
  se_closed :: "conn_id set"
  se_closing :: "ref list"
  se_procs :: "slot_proc list"
  se_pings :: "ping_proc list"
  se_accepted :: "ref list"
  se_requests :: "(ref \<times> request_stage) list"
  se_leaving :: nat
  se_sent :: "(conn_id \<times> message) list"

definition new_client :: client_state where
  "new_client =
     \<lparr>cl_circuit = new_circuit_breaker circuit_breaker_default_threshold circuit_breaker_default_cooldown,
      cl_in_flight = 0, cl_active_streams = 0,
      cl_published = \<lparr>pub_status = zero_status, pub_connected_metric = 0\<rparr>,
      cl_waiting = 0, cl_running = 0, cl_leaving = 0\<rparr>"

definition ctx_done :: "cancel_id \<Rightarrow> session \<Rightarrow> bool" where
  "ctx_done c s \<longleftrightarrow> se_over s \<or> c \<in> se_cancelled s"

definition close_conn :: "conn_id \<Rightarrow> session \<Rightarrow> session" where
  "close_conn c s = s\<lparr>se_closed := insert c (se_closed s)\<rparr>"

definition send_err :: "client_error \<Rightarrow> session \<Rightarrow> session" where
  "send_err e s = (case se_err s of None \<Rightarrow> s\<lparr>se_err := Some e\<rparr> | Some _ \<Rightarrow> s)"

text \<open>What the pool's methods call besides changing the pool.\<close>

fun apply_effect :: "pool_effect \<Rightarrow> session \<Rightarrow> session" where
  "apply_effect (CancelCall c) s = s\<lparr>se_cancelled := insert c (se_cancelled s)\<rparr>"
| "apply_effect (CloseConn c) s = close_conn c s"
| "apply_effect (DrainAndClose rs) s = s\<lparr>se_closing := se_closing s @ rs\<rparr>"

definition with_pool :: "pool_effect list \<times> pool_world \<Rightarrow> session \<Rightarrow> session" where
  "with_pool ew s = fold apply_effect (fst ew) (s\<lparr>se_world := snd ew\<rparr>)"

definition publish :: "(published \<Rightarrow> published) \<Rightarrow> session \<Rightarrow> session" where
  "publish f s = s\<lparr>se_client := (se_client s)\<lparr>cl_published := f (cl_published (se_client s))\<rparr>\<rparr>"

section \<open>Ping loops\<close>

text \<open>
  The first step of starting a ping loop makes its context and puts its cancel into the pool;
  the result has the steps that follow. The loop that is replaced is cancelled outside the
  pool's lock.
\<close>

definition start_pool_ping_loop :: "ref \<Rightarrow> session \<Rightarrow> slot_action list \<times> session" where
  "start_pool_ping_loop r s =
     (let c = se_fresh s; (es, w) = replace_ping_loop c (se_world s)
      in (map Perform es
            @ [StorePong r, ClearFailures, GoPing \<lparr>pg_ctx = c, pg_parent = None, pg_ref = r\<rparr>],
          s\<lparr>se_fresh := Suc c, se_world := w\<rparr>))"

definition start_conn_ping_loop :: "cancel_id \<Rightarrow> ref \<Rightarrow> session \<Rightarrow> slot_action list \<times> session" where
  "start_conn_ping_loop slot_ctx r s =
     (let c = se_fresh s
      in ([StorePong r, GoPing \<lparr>pg_ctx = c, pg_parent = Some slot_ctx, pg_ref = r\<rparr>],
          s\<lparr>se_fresh := Suc c,
            se_world := set_conn_ping_cancel (pc_index (heap (se_world s) r)) c (se_world s)\<rparr>))"

text \<open>At its end a ping loop goes on to close its connection if it failed and was not told to end.\<close>

definition ping_loop_ended :: "ping_proc \<Rightarrow> client_error option \<Rightarrow> session \<Rightarrow> session" where
  "ping_loop_ended pg e s =
     (if e \<noteq> None \<and> \<not> ctx_done (pg_ctx pg) s
         \<and> (case pg_parent pg of None \<Rightarrow> True | Some c \<Rightarrow> \<not> ctx_done c s)
      then s\<lparr>se_closing := se_closing s @ [pg_ref pg]\<rparr> else s)"

section \<open>The pool controller\<close>

definition slot_begin :: "go_int \<Rightarrow> cancel_id \<Rightarrow> conn_id option \<Rightarrow> slot_proc" where
  "slot_begin index ctx conn =
     \<lparr>pr_index = index, pr_ctx = ctx, pr_attempt = 0,
      pr_phase = (if conn = None \<and> index > 0 then Staggered (wrap64 (index * pool_join_stagger))
                  else LoopTop conn),
      pr_todo = []\<rparr>"

definition start_slot :: "go_int \<Rightarrow> conn_id option \<Rightarrow> session \<Rightarrow> session" where
  "start_slot index conn s =
     (let c = se_fresh s
      in s\<lparr>se_fresh := Suc c, se_world := set_slot_cancel index c (se_world s),
           se_procs := se_procs s @ [slot_begin index c conn]\<rparr>)"

text \<open>
  resize waits for the controller's mutex and changes the pool; the step does nothing while the
  mutex is taken. The cancels of the goroutines that go away, the new ping loop and the new
  goroutines come before the mutex is released, the status after it.
\<close>

definition session_resize :: "go_int \<Rightarrow> session \<Rightarrow> slot_action list \<times> session" where
  "session_resize n s =
     (if se_locked s then ([ResizePool n], s)
      else
        let ((old_max, new_max, promoted), es, w) = pool_resize n (se_world s)
        in if new_max = old_max then ([], s)
           else
             (map Perform es
                @ (case promoted of None \<Rightarrow> [] | Some r \<Rightarrow> [StartPoolPing r])
                @ [StartSlots old_max new_max, UnlockController, SyncPool, PublishMax new_max],
              s\<lparr>se_world := w, se_locked := True\<rparr>))"

section \<open>The actions of a goroutine\<close>

text \<open>What an action does, and the actions it puts before the rest.\<close>

fun slot_act :: "instant \<Rightarrow> cancel_id \<Rightarrow> slot_action \<Rightarrow> session \<Rightarrow> slot_action list \<times> session" where
  "slot_act now ctx SyncPool s = ([PublishPool (cpool (se_world s))], s)"
| "slot_act now ctx (PublishPool pool) s = ([], publish (sync_pool_status pool) s)"
| "slot_act now ctx (Perform e) s = ([], apply_effect e s)"
| "slot_act now ctx (StartPoolPing r) s = start_pool_ping_loop r s"
| "slot_act now ctx (StartConnPing r) s = start_conn_ping_loop ctx r s"
| "slot_act now ctx (StorePong r) s = ([], s\<lparr>se_world := last_pong_store r now (se_world s)\<rparr>)"
| "slot_act now ctx (IfControl r) s =
     (if is_control_slot (pc_index (heap (se_world s) r)) (cpool (se_world s)) then [ClearFailures] else [], s)"
| "slot_act now ctx ClearFailures s = ([], s\<lparr>se_failures := 0\<rparr>)"
| "slot_act now ctx (GoPing pg) s = ([], s\<lparr>se_pings := se_pings s @ [pg]\<rparr>)"
| "slot_act now ctx (ResizePool n) s = session_resize n s"
| "slot_act now ctx (StartSlots i n) s =
     (if i < n then ([StartSlots (i + 1) n], start_slot i None s) else ([], s))"
| "slot_act now ctx UnlockController s = ([], s\<lparr>se_locked := False\<rparr>)"
| "slot_act now ctx (SendReply c m) s = ([], s\<lparr>se_sent := se_sent s @ [(c, m)]\<rparr>)"
| "slot_act now ctx (PublishMax n) s = ([], publish (update_status (st_max_connections_update (\<lambda>_. n))) s)"
| "slot_act now ctx (Report e) s = ([], send_err e s)"

section \<open>The read loop\<close>

datatype read_result = ReadMore "slot_action list" | ReadFails client_error

text \<open>
  A request takes one of the stream slots or is refused. Its goroutine counts it in the
  connection's streams and then in the gauge; at its end it takes it off the gauge, off the streams
  and gives the slot back, each in a step of its own. (The count of responses by status is
  theory Proxy's.)
\<close>

definition accept_request :: "ref \<Rightarrow> message \<Rightarrow> session \<Rightarrow> slot_action list \<times> session" where
  "accept_request r msg s =
     (if cl_in_flight (se_client s) \<ge> max_concurrent_streams then
        ([SendReply (pc_conn (heap (se_world s) r)) (error_message (m_id msg) 503 ''client overloaded'')], s)
      else
        ([], s\<lparr>se_client := (se_client s)\<lparr>cl_in_flight := cl_in_flight (se_client s) + 1\<rparr>,
               se_accepted := se_accepted s @ [r]\<rparr>))"

definition remove_nth :: "nat \<Rightarrow> 'a list \<Rightarrow> 'a list" where
  "remove_nth k xs = take k xs @ drop (Suc k) xs"

definition add_active :: "go_int \<Rightarrow> client_state \<Rightarrow> client_state" where
  "add_active d cl = cl\<lparr>cl_active_streams := cl_active_streams cl + d\<rparr>"

text \<open>connRef.streams.Add(1)\<close>

definition request_starts :: "nat \<Rightarrow> session \<Rightarrow> session" where
  "request_starts k s =
     (if k \<ge> size (se_accepted s) then s
      else
        let r = se_accepted s ! k
        in s\<lparr>se_accepted := remove_nth k (se_accepted s), se_requests := se_requests s @ [(r, StreamCounted)],
             se_world := streams_add r 1 (se_world s)\<rparr>)"

text \<open>activeStreamsMetric.Inc(), and the deferred Dec()\<close>

definition request_counted :: "nat \<Rightarrow> session \<Rightarrow> session" where
  "request_counted k s =
     (if k \<ge> size (se_requests s) then s
      else case se_requests s ! k of
        (r, StreamCounted) \<Rightarrow>
          s\<lparr>se_requests := (se_requests s)[k := (r, GaugeCounted)], se_client := add_active 1 (se_client s)\<rparr>
      | _ \<Rightarrow> s)"

definition request_ends :: "nat \<Rightarrow> session \<Rightarrow> session" where
  "request_ends k s =
     (if k \<ge> size (se_requests s) then s
      else case se_requests s ! k of
        (r, GaugeCounted) \<Rightarrow>
          s\<lparr>se_requests := (se_requests s)[k := (r, GaugeLeft)], se_client := add_active (- 1) (se_client s)\<rparr>
      | _ \<Rightarrow> s)"

text \<open>The deferred connRef.streams.Add(-1)\<close>

definition request_uncounted :: "nat \<Rightarrow> session \<Rightarrow> session" where
  "request_uncounted k s =
     (if k \<ge> size (se_requests s) then s
      else case se_requests s ! k of
        (r, GaugeLeft) \<Rightarrow>
          s\<lparr>se_requests := remove_nth k (se_requests s), se_world := streams_add r (- 1) (se_world s),
            se_leaving := Suc (se_leaving s)\<rparr>
      | _ \<Rightarrow> s)"

text \<open>The deferred release of the stream slot\<close>

definition request_leaves :: "session \<Rightarrow> session" where
  "request_leaves s =
     (if se_leaving s = 0 then s
      else
        s\<lparr>se_leaving := se_leaving s - 1,
          se_client := (se_client s)\<lparr>cl_in_flight := cl_in_flight (se_client s) - 1\<rparr>\<rparr>)"

text \<open>
  The same for the requests of former sessions, whose counters of streams nobody reads any more.
\<close>

fun earlier_request :: "nat \<Rightarrow> client_state \<Rightarrow> client_state" where
  "earlier_request 0 cl =
     (if cl_waiting cl = 0 then cl
      else (add_active 1 cl)\<lparr>cl_waiting := cl_waiting cl - 1, cl_running := Suc (cl_running cl)\<rparr>)"
| "earlier_request (Suc 0) cl =
     (if cl_running cl = 0 then cl
      else (add_active (- 1) cl)\<lparr>cl_running := cl_running cl - 1, cl_leaving := Suc (cl_leaving cl)\<rparr>)"
| "earlier_request _ cl =
     (if cl_leaving cl = 0 then cl
      else cl\<lparr>cl_in_flight := cl_in_flight cl - 1, cl_leaving := cl_leaving cl - 1\<rparr>)"

text \<open>The client as a session leaves it.\<close>

definition requests_at :: "request_stage \<Rightarrow> session \<Rightarrow> nat" where
  "requests_at st s = size (filter (\<lambda>q. snd q = st) (se_requests s))"

definition leave_session :: "session \<Rightarrow> client_state" where
  "leave_session s =
     (let cl = se_client s
      in cl\<lparr>cl_waiting := cl_waiting cl + size (se_accepted s) + requests_at StreamCounted s,
            cl_running := cl_running cl + requests_at GaugeCounted s,
            cl_leaving := cl_leaving cl + requests_at GaugeLeft s + se_leaving s\<rparr>)"

text \<open>
  One message on connection \<open>r\<close>; \<open>send_error\<close> is what Send returns for a pong.
\<close>

definition read_message ::
  "protocol \<Rightarrow> ref \<Rightarrow> string option \<Rightarrow> message \<Rightarrow> session \<Rightarrow> read_result \<times> session" where
  "read_message pr r send_error msg s =
     (case m_kind msg of
        MsgHTTPRequest \<Rightarrow> (case accept_request r msg s of (as, s) \<Rightarrow> (ReadMore as, s))
      | MsgPing \<Rightarrow>
          (case send_error of
             Some e \<Rightarrow> (ReadFails (SendPongFailed e), s)
           | None \<Rightarrow>
               (ReadMore [], s\<lparr>se_sent := se_sent s @ [(pc_conn (heap (se_world s) r), new_message MsgPong)]\<rparr>))
      | MsgPong \<Rightarrow> (ReadMore [StorePong r, IfControl r], s)
      | MsgError \<Rightarrow> (ReadMore [], s)
      | MsgRegisterAck \<Rightarrow>
          (if m_protocol_version msg \<noteq> protocol_version pr
           then (ReadFails (ProtocolVersionMismatch (m_protocol_version msg)), s)
           else if \<not> acks_leased_pool pr msg then (ReadFails LeasedPoolMissing, s)
           else (ReadMore [], s))
      | MsgMaxConnectionsUpdate \<Rightarrow>
          (ReadMore
             [ResizePool (if m_max_connections msg > max_pool_connections then max_pool_connections
                          else m_max_connections msg)], s)
      | _ \<Rightarrow> (ReadMore [], s))"

text \<open>
  A failed Receive: a timeout is retried after a tenth of a second unless the context has ended
  by then; the step is at the end of that wait.
\<close>

definition read_failure :: "bool \<Rightarrow> bool \<Rightarrow> string \<Rightarrow> read_result" where
  "read_failure timed_out done e =
     (if timed_out \<and> \<not> done then ReadMore [] else ReadFails (ReadLoopFailed e))"

section \<open>The goroutine of a slot\<close>

datatype slot_event =
    Advance instant duration \<comment> \<open>does what is next; the clock and the jitter\<close>
  | TimerFired
  | DoneSeen
  | JoinEnds "client_error + conn_id"
  | Received message "string option"
  | ReceiveFails bool string

definition repair_delay :: "go_arch \<Rightarrow> slot_proc \<Rightarrow> duration \<Rightarrow> slot_proc" where
  "repair_delay arch p jitter =
     p\<lparr>pr_phase := Repairing (backoff_delay arch (pr_attempt p) pool_repair_max_lag jitter),
       pr_attempt := wrap64 (pr_attempt p + 1)\<rparr>"

text \<open>The goroutine returns after some last actions.\<close>

definition ends :: "slot_action list \<Rightarrow> slot_proc \<Rightarrow> slot_proc" where
  "ends as p = p\<lparr>pr_phase := Gone, pr_todo := as\<rparr>"

definition slot_top :: "conn_id option \<Rightarrow> slot_proc \<Rightarrow> session \<Rightarrow> slot_proc" where
  "slot_top conn p s =
     (if ctx_done (pr_ctx p) s then ends [] p
      else p\<lparr>pr_phase := (case conn of None \<Rightarrow> Joining | Some c \<Rightarrow> Holding c)\<rparr>)"

definition slot_joined :: "client_error + conn_id \<Rightarrow> slot_proc \<Rightarrow> session \<Rightarrow> slot_proc" where
  "slot_joined result p s =
     (case result of
        Inr c \<Rightarrow> p\<lparr>pr_attempt := 0, pr_phase := Holding c\<rparr>
      | Inl e \<Rightarrow> if ctx_done (pr_ctx p) s then ends [] p else p\<lparr>pr_phase := JoinFailed e\<rparr>)"

definition slot_join_failed :: "go_arch \<Rightarrow> client_error \<Rightarrow> duration \<Rightarrow> slot_proc \<Rightarrow> session \<Rightarrow> slot_proc" where
  "slot_join_failed arch e jitter p s =
     (if active_count (cpool (se_world s)) = 0 then ends [Report (AllConnectionsLost (Some e))] p
      else repair_delay arch p jitter)"

definition slot_add :: "conn_id \<Rightarrow> instant \<Rightarrow> slot_proc \<Rightarrow> session \<Rightarrow> slot_proc \<times> session" where
  "slot_add c now p s =
     (case pool_add now (pr_index p) c (se_world s) of
        ((None, _), w) \<Rightarrow> (ends [Perform (CloseConn c)] p, s\<lparr>se_world := w\<rparr>)
      | ((Some r, is_control), w) \<Rightarrow>
          (p\<lparr>pr_phase := Reading r,
             pr_todo := [SyncPool, if is_control then StartPoolPing r else StartConnPing r]\<rparr>,
           s\<lparr>se_world := w\<rparr>))"

definition slot_remove ::
  "go_arch \<Rightarrow> ref \<Rightarrow> duration \<Rightarrow> slot_proc \<Rightarrow> session \<Rightarrow> slot_proc \<times> session" where
  "slot_remove arch r jitter p s =
     (let ((remaining, promoted, control_lost), ew) = pool_remove (pr_index p) (se_world s);
          s = with_pool ew s;
          as = [SyncPool, Perform (CloseConn (pc_conn (heap (se_world s) r)))]
            @ (case promoted of
                 None \<Rightarrow> []
               | Some q \<Rightarrow> if control_lost then [StartPoolPing q, SyncPool] else [])
      in if control_lost \<and> promoted = None \<and> remaining > 0 then (ends (as @ [Report ControlLost]) p, s)
         else if remaining = 0 then (ends (as @ [Report (AllConnectionsLost None)]) p, s)
         else ((repair_delay arch p jitter)\<lparr>pr_todo := as\<rparr>, s))"

fun slot_phase_step ::
  "protocol \<Rightarrow> go_arch \<Rightarrow> slot_event \<Rightarrow> slot_proc \<Rightarrow> session \<Rightarrow> slot_proc \<times> session" where
  "slot_phase_step pr arch (Advance now jitter) p s =
     (case pr_phase p of
        LoopTop conn \<Rightarrow> (slot_top conn p s, s)
      | JoinFailed e \<Rightarrow> (slot_join_failed arch e jitter p s, s)
      | Holding c \<Rightarrow>
          (if ctx_done (pr_ctx p) s then ends [Perform (CloseConn c)] p else p\<lparr>pr_phase := Adding c\<rparr>, s)
      | Adding c \<Rightarrow> slot_add c now p s
      | ReadDone r \<Rightarrow> (if ctx_done (pr_ctx p) s then ends [] p else p\<lparr>pr_phase := Removing r\<rparr>, s)
      | Removing r \<Rightarrow> slot_remove arch r jitter p s
      | _ \<Rightarrow> (p, s))"
| "slot_phase_step pr arch TimerFired p s =
     (case pr_phase p of
        Staggered d \<Rightarrow> (p\<lparr>pr_phase := LoopTop None\<rparr>, s)
      | Repairing d \<Rightarrow> (p\<lparr>pr_phase := LoopTop None\<rparr>, s)
      | _ \<Rightarrow> (p, s))"
| "slot_phase_step pr arch DoneSeen p s =
     (case pr_phase p of
        Staggered d \<Rightarrow> (if ctx_done (pr_ctx p) s then ends [] p else p, s)
      | Repairing d \<Rightarrow> (if ctx_done (pr_ctx p) s then ends [] p else p, s)
      | _ \<Rightarrow> (p, s))"
| "slot_phase_step pr arch (JoinEnds result) p s =
     (case pr_phase p of
        Joining \<Rightarrow> (slot_joined result p s, s)
      | _ \<Rightarrow> (p, s))"
| "slot_phase_step pr arch (Received msg send_error) p s =
     (case pr_phase p of
        Reading r \<Rightarrow>
          (case read_message pr r send_error msg s of
             (ReadMore as, s) \<Rightarrow> (p\<lparr>pr_todo := as\<rparr>, s)
           | (ReadFails e, s) \<Rightarrow> (p\<lparr>pr_phase := ReadDone r\<rparr>, s))
      | _ \<Rightarrow> (p, s))"
| "slot_phase_step pr arch (ReceiveFails timed_out e) p s =
     (case pr_phase p of
        Reading r \<Rightarrow>
          (case read_failure timed_out (ctx_done (pr_ctx p) s) e of
             ReadMore as \<Rightarrow> (p, s)
           | ReadFails e \<Rightarrow> (p\<lparr>pr_phase := ReadDone r\<rparr>, s))
      | _ \<Rightarrow> (p, s))"

text \<open>A goroutine first does what it has to do, and then takes the event its phase waits for.\<close>

definition slot_step ::
  "protocol \<Rightarrow> go_arch \<Rightarrow> slot_event \<Rightarrow> slot_proc \<Rightarrow> session \<Rightarrow> slot_proc \<times> session" where
  "slot_step pr arch ev p s =
     (case pr_todo p of
        [] \<Rightarrow> slot_phase_step pr arch ev p s
      | a # as \<Rightarrow>
          (case ev of
             Advance now jitter \<Rightarrow>
               (case slot_act now (pr_ctx p) a s of (new, s) \<Rightarrow> (p\<lparr>pr_todo := new @ as\<rparr>, s))
           | _ \<Rightarrow> (p, s)))"

section \<open>A session\<close>

definition session_published :: "string \<Rightarrow> message \<Rightarrow> instant \<Rightarrow> connection_status \<Rightarrow> connection_status" where
  "session_published addr ack now st =
     st\<lparr>st_connected := True, st_server := addr, st_subdomain := m_subdomain ack,
        st_session_id := m_session_id ack, st_max_connections := m_max_connections ack,
        st_active_connections := 0, st_control_connection := 0, st_last_connected_at := now,
        st_last_error := [], st_reconnect_attempt := 0\<rparr>"

text \<open>
  runSession after the registration: the pool has at most 32 slots, the goroutines to start are
  as many as the server granted. \<open>h\<close> is what the store holds where nothing was allocated yet.
\<close>

definition new_session ::
  "(ref \<Rightarrow> pool_conn) \<Rightarrow> string \<Rightarrow> message \<Rightarrow> conn_id \<Rightarrow> client_state \<Rightarrow> session" where
  "new_session h addr ack control cl =
     \<lparr>se_client = cl,
      se_world = \<lparr>cpool = session_pool addr ack, heap = h, next_ref = 0\<rparr>,
      se_locked = False, se_control = control, se_next_slot = 0, se_granted = m_max_connections ack,
      se_failures = 0, se_err = None, se_over = False, se_cancelled = {}, se_fresh = 0,
      se_closed = {}, se_closing = [], se_procs = [], se_pings = [], se_accepted = [],
      se_requests = [], se_leaving = 0, se_sent = []\<rparr>"

definition start_session ::
  "(ref \<Rightarrow> pool_conn) \<Rightarrow> string \<Rightarrow> message \<Rightarrow> conn_id \<Rightarrow> instant \<Rightarrow> client_state \<Rightarrow> session" where
  "start_session h addr ack control now cl =
     publish (update_status (session_published addr ack now)) (new_session h addr ack control cl)"

text \<open>One round of the loop that starts the goroutines; startSlot waits for the controller's mutex.\<close>

definition started :: "session \<Rightarrow> bool" where
  "started s \<longleftrightarrow> se_next_slot s \<ge> se_granted s"

definition start_next_slot :: "session \<Rightarrow> session" where
  "start_next_slot s =
     (if started s \<or> se_locked s then s
      else
        let i = se_next_slot s
        in (start_slot i (if i = 0 then Some (se_control s) else None) s)\<lparr>se_next_slot := i + 1\<rparr>)"

text \<open>The end of runSession closes the pool and cancels the session's context.\<close>

definition end_session :: "session \<Rightarrow> session" where
  "end_session s = (with_pool (pool_close (se_world s)) s)\<lparr>se_over := True\<rparr>"

datatype session_event =
    StartsNextSlot
  | SlotEvent nat slot_event
  | RequestStarts nat
  | RequestCounted nat
  | RequestEnds nat
  | RequestUncounted nat
  | RequestLeaves
  | EarlierRequest nat \<comment> \<open>a request of a former session starts, ends or leaves\<close>
  | EarlierPublishes connection_pool \<comment> \<open>a goroutine of a former session publishes its pool\<close>
  | EarlierPublishesMax go_int
  | PingLoopEnds nat "client_error option"
  | ConnCloses nat
  | ContextEnds \<comment> \<open>the context of Run\<close>
  | SessionEnds

fun session_step :: "protocol \<Rightarrow> go_arch \<Rightarrow> session_event \<Rightarrow> session \<Rightarrow> session" where
  "session_step pr arch StartsNextSlot s = start_next_slot s"
| "session_step pr arch (SlotEvent i ev) s =
     (if i \<ge> size (se_procs s) then s
      else case slot_step pr arch ev (se_procs s ! i) s of (p, s) \<Rightarrow> s\<lparr>se_procs := (se_procs s)[i := p]\<rparr>)"
| "session_step pr arch (RequestStarts k) s = request_starts k s"
| "session_step pr arch (RequestCounted k) s = request_counted k s"
| "session_step pr arch (RequestEnds k) s = request_ends k s"
| "session_step pr arch (RequestUncounted k) s = request_uncounted k s"
| "session_step pr arch RequestLeaves s = request_leaves s"
| "session_step pr arch (EarlierRequest k) s = s\<lparr>se_client := earlier_request k (se_client s)\<rparr>"
| "session_step pr arch (EarlierPublishes pool) s = publish (sync_pool_status pool) s"
| "session_step pr arch (EarlierPublishesMax n) s = publish (update_status (st_max_connections_update (\<lambda>_. n))) s"
| "session_step pr arch (PingLoopEnds k e) s =
     (if k \<ge> size (se_pings s) then s
      else (ping_loop_ended (se_pings s ! k) e s)\<lparr>se_pings := remove_nth k (se_pings s)\<rparr>)"
| "session_step pr arch (ConnCloses k) s =
     (if k \<ge> size (se_closing s) then s
      else (close_conn (pc_conn (heap (se_world s) (se_closing s ! k))) s)\<lparr>se_closing := remove_nth k (se_closing s)\<rparr>)"
| "session_step pr arch ContextEnds s = s\<lparr>se_over := True\<rparr>"
| "session_step pr arch SessionEnds s = end_session s"

section \<open>Run\<close>

text \<open>
  One round of the loop of Run: when its context ends, if it does (during the session the select
  may take it or an error that is there too); what the network answers to the registration; what
  happens in the session; the clock and the jitter.
\<close>

datatype context_end = EndsBefore | EndsDuring bool | EndsWaiting | Alive

record run_round =
  rd_ends :: context_end
  rd_net :: handshake_net
  rd_control :: conn_id
  rd_registered_at :: instant
  rd_events :: "session_event list"
  rd_failed_at :: instant
  rd_jitter :: duration

text \<open>
  The select at the end of runSession, which it comes to after the goroutines are started: what
  it returns, if it does.
\<close>

fun session_select :: "context_end \<Rightarrow> session \<Rightarrow> client_error option option" where
  "session_select (EndsDuring sees_context) s =
     (if sees_context then Some None
      else case se_err s of None \<Rightarrow> Some None | Some e \<Rightarrow> Some (Some e))"
| "session_select _ s = map_option Some (se_err s)"

fun ends_during :: "context_end \<Rightarrow> bool" where
  "ends_during (EndsDuring sees_context) = True"
| "ends_during _ = False"

definition run_session ::
  "protocol \<Rightarrow> go_arch \<Rightarrow> config \<Rightarrow> (ref \<Rightarrow> pool_conn) \<Rightarrow> run_round \<Rightarrow> client_state
     \<Rightarrow> client_error option option \<times> client_state" where
  "run_session pr arch cfg h r cl =
     (case fst (register_control pr cfg (rd_net r)) of
        Inl e \<Rightarrow> (Some (Some e), cl)
      | Inr ack \<Rightarrow>
          let addr = (case net_dial (rd_net r) of Inl _ \<Rightarrow> [] | Inr a \<Rightarrow> a);
              s = run (session_step pr arch) (rd_events r)
                    (start_session h addr ack (rd_control r) (rd_registered_at r) cl)
          in (case (if started s then session_select (rd_ends r) s else None) of
                None \<Rightarrow> (None, leave_session s)
              | Some result \<Rightarrow> (Some result, leave_session (end_session s))))"

definition run_started :: "connection_status \<Rightarrow> connection_status" where
  "run_started st = st\<lparr>st_connected := False, st_reconnect_attempt := 0, st_last_error := []\<rparr>"

definition session_failed :: "string \<Rightarrow> go_int \<Rightarrow> instant \<Rightarrow> connection_status \<Rightarrow> connection_status" where
  "session_failed msg attempt now st =
     st\<lparr>st_connected := False, st_last_error := msg, st_reconnect_attempt := wrap64 (attempt + 1),
        st_last_disconnected_at := now\<rparr>"

definition publish_client :: "(connection_status \<Rightarrow> connection_status) \<Rightarrow> client_state \<Rightarrow> client_state" where
  "publish_client f cl = cl\<lparr>cl_published := update_status f (cl_published cl)\<rparr>"

text \<open>
  The delays waited, the client that is left and whether Run has returned; \<open>err_text\<close> is
  \<open>error.Error\<close>.
\<close>

fun client_loop ::
  "protocol \<Rightarrow> go_arch \<Rightarrow> (client_error \<Rightarrow> string) \<Rightarrow> config \<Rightarrow> (ref \<Rightarrow> pool_conn) \<Rightarrow> run_round list
     \<Rightarrow> go_int \<Rightarrow> client_state \<Rightarrow> duration list \<times> client_state \<times> bool" where
  "client_loop pr arch err_text cfg h [] attempt cl = ([], cl, False)"
| "client_loop pr arch err_text cfg h (r # rs) attempt cl =
     (if rd_ends r = EndsBefore then ([], cl, True)
      else case run_session pr arch cfg h r cl of
        (None, cl) \<Rightarrow> ([], cl, False)
      | (Some result, cl) \<Rightarrow>
          if ends_during (rd_ends r) then ([], cl, True)
          else (case result of
              None \<Rightarrow> client_loop pr arch err_text cfg h rs 0 cl
            | Some e \<Rightarrow>
                let delay = backoff_delay arch attempt (cfg_max_reconnect_delay cfg) (rd_jitter r);
                    cl = publish_client (session_failed (err_text e) attempt (rd_failed_at r)) cl
                in if rd_ends r = EndsWaiting then ([delay], cl, True)
                   else let (ds, end_state) = client_loop pr arch err_text cfg h rs (wrap64 (attempt + 1)) cl
                        in (delay # ds, end_state)))"

definition client_run ::
  "protocol \<Rightarrow> go_arch \<Rightarrow> (client_error \<Rightarrow> string) \<Rightarrow> config \<Rightarrow> (ref \<Rightarrow> pool_conn) \<Rightarrow> run_round list
     \<Rightarrow> client_state \<Rightarrow> duration list \<times> client_state \<times> bool" where
  "client_run pr arch err_text cfg h rs cl =
     client_loop pr arch err_text cfg h rs 0 (publish_client run_started cl)"

end
