(* ===== verification/SessionInv.thy ===== *)
theory SessionInv
  imports Session
begin

text \<open>
  The invariant of a running session and the small steps that keep it: the pool's own
  invariant, contexts that are never shared, stream counters that count, and a first slot that
  cannot end in silence.
\<close>

section \<open>The invariant\<close>

definition conn_ping_ids :: "pool_world \<Rightarrow> cancel_id set" where
  "conn_ping_ids w = {c. \<exists>r < next_ref w. pc_ping_cancel (heap w r) = Some c}"

definition ping_ids :: "pool_world \<Rightarrow> cancel_id set" where
  "ping_ids w = set_option (ping_cancel (cpool w)) \<union> conn_ping_ids w"

definition slot_ctxs :: "session \<Rightarrow> cancel_id set" where
  "slot_ctxs s = pr_ctx ` set (se_procs s)"

fun phase_ref :: "slot_phase \<Rightarrow> ref set" where
  "phase_ref (Reading r) = {r}"
| "phase_ref (ReadDone r) = {r}"
| "phase_ref (Removing r) = {r}"
| "phase_ref _ = {}"

text \<open>
  An action that is still to be done cancels no context of the first slot, whose number is 0, and
  starts no goroutine for it.
\<close>

fun action_ok :: "session \<Rightarrow> slot_action \<Rightarrow> bool" where
  "action_ok s (Perform (CancelCall c)) \<longleftrightarrow>
     c < se_fresh s \<and> (\<forall>p \<in> set (se_procs s). pr_ctx p = c \<longrightarrow> 0 < pr_index p)"
| "action_ok s (StartSlots i n) \<longleftrightarrow> 0 < i"
| "action_ok s _ \<longleftrightarrow> True"

text \<open>The slot cancels of the pool are the contexts of goroutines of those slots.\<close>

definition owned_by :: "session \<Rightarrow> cancel_id \<Rightarrow> nat \<Rightarrow> bool" where
  "owned_by s c i \<longleftrightarrow> (\<exists>p \<in> set (se_procs s). pr_ctx p = c \<and> pr_index p = int i)"

definition contexts_ok :: "session \<Rightarrow> bool" where
  "contexts_ok s \<longleftrightarrow> distinct (map pr_ctx (se_procs s)) \<and> slot_ctxs s \<subseteq> {..<se_fresh s}
     \<and> ping_ids (se_world s) \<subseteq> {..<se_fresh s} - slot_ctxs s \<and> se_cancelled s \<subseteq> {..<se_fresh s}
     \<and> (\<forall>i < size (slot_cancels (cpool (se_world s))). \<forall>c.
          slot_cancels (cpool (se_world s)) ! i = Some c \<longrightarrow> owned_by s c i)
     \<and> (\<forall>p \<in> set (se_procs s). 0 \<le> pr_index p \<and> (\<forall>a \<in> set (pr_todo p). action_ok s a))"

text \<open>The stream slots are those of the request goroutines, and the gauge counts their streams.\<close>

definition client_ok :: "client_state \<Rightarrow> bool" where
  "client_ok cl \<longleftrightarrow> cl_in_flight cl = int (cl_waiting cl + cl_running cl + cl_leaving cl)
     \<and> cl_active_streams cl = int (cl_running cl) \<and> cl_in_flight cl \<le> max_concurrent_streams"

definition same_counts :: "client_state \<Rightarrow> client_state \<Rightarrow> bool" where
  "same_counts c d \<longleftrightarrow> cl_in_flight c = cl_in_flight d \<and> cl_active_streams c = cl_active_streams d
     \<and> cl_waiting c = cl_waiting d \<and> cl_running c = cl_running d \<and> cl_leaving c = cl_leaving d"

lemma same_counts_refl [simp]: "same_counts c c" "same_counts c (c\<lparr>cl_published := p\<rparr>)"
  by (simp_all add: same_counts_def)

definition streams_ok :: "session \<Rightarrow> bool" where
  "streams_ok s \<longleftrightarrow>
     (\<forall>r < next_ref (se_world s). pc_streams (heap (se_world s) r) = int (count_list (map fst (se_requests s)) r))
     \<and> fst ` set (se_requests s) \<union> set (se_accepted s) \<subseteq> {..<next_ref (se_world s)}
     \<and> (\<forall>p \<in> set (se_procs s). phase_ref (pr_phase p) \<subseteq> {..<next_ref (se_world s)})
     \<and> client_ok (leave_session s)"

text \<open>
  The first goroutine is that of slot 0; it ends only with an error reported, or about to be
  reported as the last thing it does, or with the session.
\<close>

definition reports :: "slot_proc \<Rightarrow> bool" where
  "reports p \<longleftrightarrow> (\<exists>e. Report e \<in> set (pr_todo p))"

definition first_ok :: "session \<Rightarrow> bool" where
  "first_ok s \<longleftrightarrow> 0 \<le> se_next_slot s \<and> (se_procs s = [] \<longleftrightarrow> se_next_slot s = 0)
     \<and> (se_procs s \<noteq> [] \<longrightarrow>
          pr_index (hd (se_procs s)) = 0
          \<and> (se_over s \<or> pr_ctx (hd (se_procs s)) \<notin> se_cancelled s)
          \<and> (pr_phase (hd (se_procs s)) = Gone \<longrightarrow> se_over s \<or> se_err s \<noteq> None \<or> reports (hd (se_procs s))))"

definition session_ok :: "session \<Rightarrow> bool" where
  "session_ok s \<longleftrightarrow> pool_ok (se_world s) \<and> contexts_ok s \<and> streams_ok s \<and> first_ok s"

lemmas session_ok_defs = session_ok_def contexts_ok_def streams_ok_def first_ok_def

text \<open>An action stays fit while goroutines are only added, with new contexts.\<close>

lemma action_ok_mono:
  assumes "action_ok s a" "se_fresh s \<le> se_fresh t"
    and "\<And>p. p \<in> set (se_procs t) \<Longrightarrow> (\<exists>q \<in> set (se_procs s). pr_ctx q = pr_ctx p \<and> pr_index q = pr_index p) \<or> se_fresh s \<le> pr_ctx p"
  shows "action_ok t a"
proof (cases "(s, a)" rule: action_ok.cases)
  case (1 s c)
  then show ?thesis using assms by fastforce
qed (use assms in auto)

section \<open>Small steps\<close>

text \<open>Changes the invariant does not see.\<close>

definition unseen :: "session \<Rightarrow> session \<Rightarrow> bool" where
  "unseen s t \<longleftrightarrow> se_world t = se_world s \<and> se_over t = se_over s \<and> se_cancelled t = se_cancelled s
     \<and> se_fresh t = se_fresh s \<and> se_procs t = se_procs s \<and> se_next_slot t = se_next_slot s
     \<and> se_accepted t = se_accepted s \<and> se_requests t = se_requests s \<and> se_leaving t = se_leaving s \<and> same_counts (se_client s) (se_client t)
     \<and> (se_err s \<noteq> None \<longrightarrow> se_err t \<noteq> None)"

lemma action_ok_cong:
  assumes "se_fresh t = se_fresh s" "se_procs t = se_procs s"
  shows "action_ok t a = action_ok s a"
  using assms by (cases "(s, a)" rule: action_ok.cases) simp_all

lemma left_counts:
  assumes "same_counts (se_client s) (se_client t)" "size (se_accepted t) = size (se_accepted s)"
    "se_requests t = se_requests s" "se_leaving t = se_leaving s"
  shows "client_ok (leave_session t) = client_ok (leave_session s)"
  using assms by (simp add: client_ok_def leave_session_def requests_at_def Let_def same_counts_def)

lemma unseen_ok: "unseen s t \<Longrightarrow> session_ok s \<Longrightarrow> session_ok t"
  using action_ok_cong [of t s] left_counts [of s t]
  by (auto simp: unseen_def session_ok_defs slot_ctxs_def owned_by_def)

lemma unseen_refl [simp]: "unseen s s"
  by (simp add: unseen_def)

lemma unseen_steps [simp]:
  "unseen s (close_conn c s)" "unseen s (send_err e s)" "unseen s (publish f s)"
  "unseen s (s\<lparr>se_failures := n\<rparr>)" "unseen s (s\<lparr>se_pings := ps\<rparr>)" "unseen s (s\<lparr>se_sent := ms\<rparr>)"
  "unseen s (s\<lparr>se_closing := rs\<rparr>)" "unseen s (ping_loop_ended pg pe s)" "unseen s (s\<lparr>se_locked := l\<rparr>)"
  by (auto simp: unseen_def close_conn_def send_err_def publish_def ping_loop_ended_def
      split: option.split)

definition cancels :: "pool_effect list \<Rightarrow> cancel_id set" where
  "cancels es = {c. CancelCall c \<in> set es}"

lemma cancels_simps [simp]:
  "cancels [] = {}" "cancels (CancelCall c # es) = insert c (cancels es)" "cancels (CloseConn k # es) = cancels es"
  "cancels (DrainAndClose rs # es) = cancels es" "cancels (es @ fs) = cancels es \<union> cancels fs"
  "cancels (opt_cancel x) = set_option x"
  by (auto simp: cancels_def split: option.splits)

lemma apply_effects:
  "se_cancelled (fold apply_effect es s) = se_cancelled s \<union> cancels es
   \<and> se_world (fold apply_effect es s) = se_world s \<and> se_over (fold apply_effect es s) = se_over s
   \<and> se_fresh (fold apply_effect es s) = se_fresh s \<and> se_procs (fold apply_effect es s) = se_procs s
   \<and> se_accepted (fold apply_effect es s) = se_accepted s \<and> se_requests (fold apply_effect es s) = se_requests s
   \<and> se_leaving (fold apply_effect es s) = se_leaving s
   \<and> se_client (fold apply_effect es s) = se_client s \<and> se_err (fold apply_effect es s) = se_err s
   \<and> se_failures (fold apply_effect es s) = se_failures s \<and> se_next_slot (fold apply_effect es s) = se_next_slot s
   \<and> se_granted (fold apply_effect es s) = se_granted s \<and> se_locked (fold apply_effect es s) = se_locked s"
proof (induction es arbitrary: s)
  case (Cons e es)
  show ?case by (cases e) (auto simp: Cons.IH close_conn_def)
qed simp

lemma with_pool_sel [simp]:
  "se_cancelled (with_pool ew s) = se_cancelled s \<union> cancels (fst ew)" "se_world (with_pool ew s) = snd ew"
  "se_over (with_pool ew s) = se_over s" "se_fresh (with_pool ew s) = se_fresh s"
  "se_procs (with_pool ew s) = se_procs s" "se_accepted (with_pool ew s) = se_accepted s"
  "se_requests (with_pool ew s) = se_requests s" "se_leaving (with_pool ew s) = se_leaving s" "se_client (with_pool ew s) = se_client s"
  "se_err (with_pool ew s) = se_err s" "se_failures (with_pool ew s) = se_failures s"
  "se_next_slot (with_pool ew s) = se_next_slot s" "se_granted (with_pool ew s) = se_granted s"
  "se_locked (with_pool ew s) = se_locked s"
  by (simp_all add: with_pool_def apply_effects)

text \<open>
  A pool operation that keeps the slot cancels below \<open>n\<close> and cancels those that go away, and
  otherwise only ping loops.
\<close>

definition slot_cancels_from :: "nat \<Rightarrow> pool_world \<Rightarrow> cancel_id set" where
  "slot_cancels_from n w =
     {c. \<exists>i. n \<le> i \<and> i < size (slot_cancels (cpool w)) \<and> slot_cancels (cpool w) ! i = Some c}"

definition pool_op :: "nat \<Rightarrow> pool_world \<Rightarrow> pool_effect list \<times> pool_world \<Rightarrow> bool" where
  "pool_op n w ew \<longleftrightarrow> pool_ok (snd ew) \<and> next_ref (snd ew) = next_ref w
     \<and> (\<forall>r. pc_streams (heap (snd ew) r) = pc_streams (heap w r)) \<and> ping_ids (snd ew) \<subseteq> ping_ids w
     \<and> 0 < n \<and> n \<le> size (slot_cancels (cpool (snd ew)))
     \<and> (\<forall>i < size (slot_cancels (cpool (snd ew))). slot_cancels (cpool (snd ew)) ! i
          = (if i < n \<and> i < size (slot_cancels (cpool w)) then slot_cancels (cpool w) ! i else None))
     \<and> cancels (fst ew) \<subseteq> ping_ids w \<union> slot_cancels_from n w
     \<and> slot_cancels_from n w \<subseteq> cancels (fst ew)"

lemma owner_exists:
  "contexts_ok s \<Longrightarrow> c \<in> slot_cancels_from n (se_world s) \<Longrightarrow> \<exists>p \<in> set (se_procs s). pr_ctx p = c \<and> int n \<le> pr_index p"
  unfolding contexts_ok_def owned_by_def slot_cancels_from_def by fastforce

lemma same_context: "contexts_ok s \<Longrightarrow> p \<in> set (se_procs s) \<Longrightarrow> q \<in> set (se_procs s) \<Longrightarrow> pr_ctx p = pr_ctx q \<Longrightarrow> p = q"
  by (auto simp: contexts_ok_def distinct_map dest: inj_onD)

text \<open>The contexts that such an operation cancels are fit to be cancelled later, too.\<close>

lemma pool_op_cancels:
  assumes ok: "session_ok s" and op: "pool_op n (se_world s) ew" and c: "c \<in> cancels (fst ew)"
  shows "action_ok s (Perform (CancelCall c))"
proof -
  have con: "contexts_ok s" using ok by (simp add: session_ok_def)
  have n: "0 < n" and cases: "c \<in> ping_ids (se_world s) \<or> c \<in> slot_cancels_from n (se_world s)"
    using op c unfolding pool_op_def by blast+
  from cases show ?thesis
  proof
    assume "c \<in> ping_ids (se_world s)"
    then have "c < se_fresh s" "c \<notin> slot_ctxs s" using con by (auto simp: contexts_ok_def)
    then show ?thesis by (auto simp: slot_ctxs_def)
  next
    assume "c \<in> slot_cancels_from n (se_world s)"
    then obtain p where p: "p \<in> set (se_procs s)" "pr_ctx p = c" "int n \<le> pr_index p"
      using owner_exists con by blast
    then have "c \<in> slot_ctxs s" by (auto simp: slot_ctxs_def)
    then have "c < se_fresh s" using con by (auto simp: contexts_ok_def)
    moreover have "0 < pr_index q" if "q \<in> set (se_procs s)" "pr_ctx q = c" for q
    proof -
      have "q = p" using same_context [OF con that(1) p(1)] p(2) that(2) by simp
      then show ?thesis using p(3) n by simp
    qed
    ultimately show ?thesis by simp
  qed
qed

lemma cancel_ok:
  assumes ok: "session_ok s" and c: "\<And>c. c \<in> C \<Longrightarrow> action_ok s (Perform (CancelCall c))"
    and t: "se_cancelled t = se_cancelled s \<union> C" "se_world t = se_world s" "se_over t = se_over s"
      "se_fresh t = se_fresh s" "se_procs t = se_procs s" "se_next_slot t = se_next_slot s"
      "se_accepted t = se_accepted s" "se_requests t = se_requests s" "se_leaving t = se_leaving s" "se_client t = se_client s" "se_err t = se_err s"
  shows "session_ok t"
proof -
  have "pr_ctx (hd (se_procs s)) \<notin> C" if "se_procs s \<noteq> []"
  proof
    assume "pr_ctx (hd (se_procs s)) \<in> C"
    then have "0 < pr_index (hd (se_procs s))" using c that by fastforce
    then show False using ok that by (simp add: session_ok_def first_ok_def)
  qed
  then have "first_ok t" using ok by (auto simp: session_ok_def first_ok_def t)
  moreover have "c < se_fresh s" if "c \<in> C" for c using c [OF that] by simp
  then have "contexts_ok t"
    using ok action_ok_cong [of t s] by (auto simp: session_ok_def contexts_ok_def slot_ctxs_def owned_by_def t)
  ultimately show ?thesis using ok left_counts [of s t] by (auto simp: session_ok_def streams_ok_def t)
qed

lemma pool_op_world_ok:
  assumes ok: "session_ok s" and op: "pool_op n (se_world s) ew"
  shows "session_ok (s\<lparr>se_world := snd ew\<rparr>)"
proof -
  let ?t = "s\<lparr>se_world := snd ew\<rparr>"
  note op' = op [unfolded pool_op_def] and ok' = ok [unfolded session_ok_def]
  have "owned_by ?t c i" if "i < size (slot_cancels (cpool (snd ew)))" "slot_cancels (cpool (snd ew)) ! i = Some c" for i c
  proof -
    have "i < size (slot_cancels (cpool (se_world s)))" "slot_cancels (cpool (se_world s)) ! i = Some c"
      using op' that by (auto split: if_splits)
    then show ?thesis using ok' by (simp add: contexts_ok_def owned_by_def)
  qed
  then have "contexts_ok ?t"
    using ok' op' action_ok_cong [of ?t s] by (auto simp: contexts_ok_def slot_ctxs_def)
  then show ?thesis using ok' op' left_counts [of s ?t] by (simp add: session_ok_def streams_ok_def first_ok_def)
qed

lemma with_pool_ok:
  assumes ok: "session_ok s" and op: "pool_op n (se_world s) ew"
  shows "session_ok (with_pool ew s)"
proof (rule cancel_ok [OF pool_op_world_ok [OF ok op]])
  fix c assume "c \<in> cancels (fst ew)"
  then show "action_ok (s\<lparr>se_world := snd ew\<rparr>) (Perform (CancelCall c))"
    using pool_op_cancels [OF ok op] action_ok_cong [of "s\<lparr>se_world := snd ew\<rparr>" s] by simp
qed simp_all

lemma fresh_not_used:
  "session_ok s \<Longrightarrow> se_fresh s \<notin> slot_ctxs s \<and> se_fresh s \<notin> ping_ids (se_world s) \<and> se_fresh s \<notin> se_cancelled s"
  by (auto simp: session_ok_def contexts_ok_def)

lemma start_slot_sel [simp]:
  "se_procs (start_slot i c s) = se_procs s @ [slot_begin i (se_fresh s) c]" "se_fresh (start_slot i c s) = Suc (se_fresh s)"
  "se_world (start_slot i c s) = set_slot_cancel i (se_fresh s) (se_world s)" "se_over (start_slot i c s) = se_over s"
  "se_cancelled (start_slot i c s) = se_cancelled s" "se_err (start_slot i c s) = se_err s"
  "se_accepted (start_slot i c s) = se_accepted s" "se_requests (start_slot i c s) = se_requests s" "se_leaving (start_slot i c s) = se_leaving s"
  "se_client (start_slot i c s) = se_client s" "se_failures (start_slot i c s) = se_failures s"
  "se_next_slot (start_slot i c s) = se_next_slot s" "se_granted (start_slot i c s) = se_granted s"
  "se_locked (start_slot i c s) = se_locked s"
  by (simp_all add: start_slot_def Let_def)

lemma slot_begin_sel [simp]:
  "pr_index (slot_begin i c k) = i" "pr_ctx (slot_begin i c k) = c" "phase_ref (pr_phase (slot_begin i c k)) = {}"
  "pr_phase (slot_begin i c k) \<noteq> Gone" "pr_todo (slot_begin i c k) = []"
  by (simp_all add: slot_begin_def)

lemma set_slot_cancel_sel:
  "ping_ids (set_slot_cancel i c w) = ping_ids w" "next_ref (set_slot_cancel i c w) = next_ref w"
  "heap (set_slot_cancel i c w) = heap w"
  "size (slot_cancels (cpool (set_slot_cancel i c w))) = size (slot_cancels (cpool w))"
  "0 \<le> i \<Longrightarrow> slot_cancels (cpool (set_slot_cancel i c w)) =
     (if i < int (size (slot_cancels (cpool w))) then (slot_cancels (cpool w))[nat i := Some c] else slot_cancels (cpool w))"
  by (auto simp: set_slot_cancel_def ping_ids_def conn_ping_ids_def)

lemma start_slot_ok:
  assumes ok: "session_ok s" and i: "0 \<le> i" and first: "se_procs s = [] \<longrightarrow> i = 0" and j: "0 < j"
  shows "session_ok ((start_slot i c s)\<lparr>se_next_slot := j\<rparr>)"
proof -
  let ?t = "(start_slot i c s)\<lparr>se_next_slot := j\<rparr>" and ?n = "size (slot_cancels (cpool (se_world s)))" and ?f = "se_fresh s"
  note ok' = ok [unfolded session_ok_def] and fresh = fresh_not_used [OF ok]
  have sel: "se_world ?t = set_slot_cancel i ?f (se_world s)" "se_procs ?t = se_procs s @ [slot_begin i ?f c]"
      "se_fresh ?t = Suc ?f" "se_cancelled ?t = se_cancelled s" "se_over ?t = se_over s" "se_err ?t = se_err s"
      "se_accepted ?t = se_accepted s" "se_requests ?t = se_requests s" "se_leaving ?t = se_leaving s" "se_client ?t = se_client s" "se_next_slot ?t = j"
    by simp_all
  have sc: "slot_cancels (cpool (set_slot_cancel i ?f (se_world s))) = (if i < int ?n then (slot_cancels (cpool (se_world s)))[nat i := Some ?f]
      else slot_cancels (cpool (se_world s)))"
    using i by (simp add: set_slot_cancel_sel)
  have "pool_ok (se_world ?t)" using ok' small_steps_same_pool(2) same_pool_ok by (metis sel(1))
  moreover have "owned_by ?t d k"
    if k: "k < size (slot_cancels (cpool (se_world ?t)))" "slot_cancels (cpool (se_world ?t)) ! k = Some d" for k d
  proof (cases "k = nat i \<and> i < int ?n")
    case True
    then have "d = ?f" "int k = i" using k i by (auto simp: sel(1) sc)
    then show ?thesis by (simp add: owned_by_def sel(2))
  next
    case False
    then have "k < ?n" "slot_cancels (cpool (se_world s)) ! k = Some d"
      using k i by (auto simp: sel(1) sc nth_list_update split: if_splits)
    then show ?thesis using ok' by (simp add: contexts_ok_def owned_by_def sel(2))
  qed
  moreover have "action_ok ?t a" if "p \<in> set (se_procs ?t)" "a \<in> set (pr_todo p)" for p a
  proof -
    have "p \<in> set (se_procs s)" using that by auto
    then have "action_ok s a" using ok' that(2) by (auto simp: contexts_ok_def)
    then show ?thesis by (rule action_ok_mono) auto
  qed
  ultimately have "pool_ok (se_world ?t)" "contexts_ok ?t"
    using ok' fresh i
    by (auto simp: contexts_ok_def slot_ctxs_def set_slot_cancel_sel sel less_Suc_eq)
  moreover have "streams_ok ?t" using ok' left_counts [of s ?t] by (auto simp: streams_ok_def set_slot_cancel_sel sel)
  moreover have "first_ok ?t"
    using ok' first fresh j by (cases "se_procs s") (auto simp: first_ok_def sel)
  ultimately show ?thesis by (simp add: session_ok_def)
qed

section \<open>The pool's operations\<close>

lemma conn_ping_ids_cpool [simp]: "conn_ping_ids (w\<lparr>cpool := p\<rparr>) = conn_ping_ids w"
  by (simp add: conn_ping_ids_def)

lemma take_ping_cancel_ids: "conn_ping_ids (snd (take_ping_cancel r w)) \<subseteq> conn_ping_ids w"
  by (auto simp: take_ping_cancel_def conn_ping_ids_def split: option.splits if_splits)

lemma take_ping_cancel_later:
  "pc_ping_cancel (heap (snd (take_ping_cancel r w)) q) = Some c \<Longrightarrow> pc_ping_cancel (heap w q) = Some c"
  by (auto simp: take_ping_cancel_def split: option.splits if_splits)

lemma take_ping_cancels_ids:
  "conn_ping_ids (snd (take_ping_cancels cs w)) \<subseteq> conn_ping_ids w
   \<and> (\<forall>q. pc_streams (heap (snd (take_ping_cancels cs w)) q) = pc_streams (heap w q))"
proof (induction cs arbitrary: w)
  case (Cons c cs)
  show ?case
  proof (cases c)
    case (Some r)
    with Cons.IH [of "snd (take_ping_cancel r w)"] take_ping_cancel_ids [of r w] show ?thesis
      by (simp add: Let_def case_prod_beta) blast
  qed (simp add: Cons.IH)
qed simp

lemma occupied_ref: "pool_ok w \<Longrightarrow> Some r \<in> set (conns (cpool w)) \<Longrightarrow> r < next_ref w"
  using pool_okD(5) by (fastforce simp: in_set_conv_nth)

lemma occupied_ping_id:
  "pool_ok w \<Longrightarrow> Some r \<in> set (conns (cpool w)) \<Longrightarrow> pc_ping_cancel (heap w r) = Some c \<Longrightarrow> c \<in> conn_ping_ids w"
  using occupied_ref by (auto simp: conn_ping_ids_def)

lemma find_idle_occupied:
  "\<not> find_idle h cs 0 < 0 \<Longrightarrow> cs ! nat (find_idle h cs 0) = Some q \<Longrightarrow> Some q \<in> set cs"
  using promotion_Some [of h cs] nth_mem by (fastforce simp: find_idle_promotion split: option.splits)

lemma pool_remove_ping_ids:
  assumes "pool_ok w"
  shows "ping_ids (snd (snd (pool_remove i w))) \<subseteq> ping_ids w"
    and "cancels (fst (snd (pool_remove i w))) \<subseteq> ping_ids w"
    and "slot_cancels (cpool (snd (snd (pool_remove i w)))) = slot_cancels (cpool w)"
proof -
  show "slot_cancels (cpool (snd (snd (pool_remove i w)))) = slot_cancels (cpool w)"
    by (simp add: pool_remove_def Let_def case_prod_beta split: option.split)
  show "ping_ids (snd (snd (pool_remove i w))) \<subseteq> ping_ids w"
    by (auto simp: pool_remove_def Let_def case_prod_beta ping_ids_def dest!: subsetD [OF take_ping_cancel_ids] split: option.splits if_splits) 
  have "c \<in> conn_ping_ids w" if "Some q \<in> set ((conns (cpool w))[j := None])" "pc_ping_cancel (heap w q) = Some c" for q j c
    using occupied_ping_id [OF assms] that set_update_subset_insert by fast
  moreover have "Some r \<in> set (conns (cpool w))" if "\<not> (i < 0 \<or> pool_len (cpool w) \<le> i)" "conns (cpool w) ! nat i = Some r" for r
    using that nth_mem [of "nat i" "conns (cpool w)"] by (simp add: pool_len_def nat_less_iff)
  ultimately show "cancels (fst (snd (pool_remove i w))) \<subseteq> ping_ids w"
    using occupied_ping_id [OF assms]
    by (auto simp: pool_remove_def Let_def case_prod_beta ping_ids_def dest!: find_idle_occupied take_ping_cancel_later split: option.splits if_splits) 
qed

lemma pool_remove_op:
  assumes "pool_ok w"
  shows "pool_op (size (slot_cancels (cpool w))) w (snd (pool_remove i w))"
proof -
  have "0 < size (slot_cancels (cpool w))" using pool_okD(1,3,4) [OF assms] by (auto simp: pool_len_def)
  then show ?thesis
    using pool_remove_ping_ids [OF assms, of i] pool_remove_ok [OF assms, of i]
    by (auto simp: pool_op_def slot_cancels_from_def)
qed

lemma cancels_concat: "cancels (concat ess) = (\<Union>es \<in> set ess. cancels es)"
  by (auto simp: cancels_def)

lemma strip_slots_ids: "conn_ping_ids (snd (strip_slots js w)) \<subseteq> conn_ping_ids w"
proof (induction js arbitrary: w)
  case (Cons j js)
  have "conn_ping_ids (snd (strip_slot j w)) \<subseteq> conn_ping_ids w"
    using take_ping_cancel_ids by (simp add: strip_slot_def Let_def case_prod_beta split: option.split)
  with Cons.IH [of "snd (strip_slot j w)"] show ?case by (simp add: Let_def case_prod_beta)
qed simp

lemma relocate_control_ids: "conn_ping_ids (snd (relocate_control n w)) \<subseteq> conn_ping_ids w"
  by (auto simp: relocate_control_def Let_def case_prod_beta dest!: subsetD [OF take_ping_cancel_ids] split: option.splits if_splits)

lemma pool_resize_op:
  assumes "pool_ok w"
  shows "pool_op (nat (min (clamp_max n) (pool_size w))) w (snd (pool_resize n w))"
proof -
  note ok = pool_okD [OF assms]
  have n: "1 \<le> clamp_max n" "clamp_max n \<le> max_pool_connections" using clamp_max_range by auto
  have len: "size (slot_cancels (cpool w)) = nat (pool_size w)"
    using ok by (simp add: pool_size_def pool_len_def)
  consider (same) "clamp_max n = pool_size w" | (grow) "pool_size w < clamp_max n" | (shrink) "clamp_max n < pool_size w"
    by linarith
  then show ?thesis
  proof cases
    case same
    then show ?thesis
      using assms n len by (simp add: pool_op_def pool_resize_same pool_size_def slot_cancels_from_def)
  next
    case grow
    have "ping_ids (w\<lparr>cpool := grow_pool (clamp_max n) (cpool w)\<rparr>) = ping_ids w"
      by (simp add: ping_ids_def grow_pool_def Let_def)
    then show ?thesis
      using grow n ok len pool_resize_ok [OF assms, of n]
      by (auto simp: pool_op_def pool_resize_grow pool_size_def slot_cancels_from_def grow_pool_def Let_def nth_append)
  next
    case shrink
    note shrink' = shrink [unfolded pool_size_def]
    have sc: "slot_cancels (cpool (snd (snd (pool_resize n w)))) = take (nat (clamp_max n)) (slot_cancels (cpool w))"
      using pool_resize_shrink_cpool [OF shrink'] by simp
    have "conn_ping_ids (snd (snd (pool_resize n w))) \<subseteq> conn_ping_ids w"
      using shrink' strip_slots_ids [of _ "snd (relocate_control (clamp_max n) w)"] relocate_control_ids [of "clamp_max n" w]
      by (simp add: pool_resize_def Let_def case_prod_beta) blast
    then have ids: "ping_ids (snd (snd (pool_resize n w))) \<subseteq> ping_ids w"
      using pool_resize_shrink_cpool [OF shrink'] by (auto simp: ping_ids_def)
    have pings: "cancels (slot_ping_cancel w i) \<subseteq> conn_ping_ids w" if "i < size (conns (cpool w))" for i
    proof (cases "conns (cpool w) ! i")
      case (Some r)
      then have "Some r \<in> set (conns (cpool w))" using that by (auto simp: in_set_conv_nth)
      then show ?thesis using Some occupied_ping_id [OF assms] by (auto simp: slot_ping_cancel_def)
    qed (simp add: slot_ping_cancel_def)
    have promoted: "pc_ping_cancel (heap w q) = Some c \<Longrightarrow> c \<in> conn_ping_ids w"
      if "snd (snd (fst (pool_resize n w))) = Some q" for q c
    proof -
      have "fst (fst (relocate_control (clamp_max n) w)) = Some q"
        using that shrink by (simp add: pool_resize_promoted)
      then obtain k where "find_index (\<lambda>c. c \<noteq> None) (take (nat (clamp_max n)) (conns (cpool w))) = Some k"
          "q = the (conns (cpool w) ! k)"
        unfolding relocate_control_promoted by (metis (no_types, lifting) map_option_eq_Some option.distinct(1))
      then have "slots w (int k) = Some q" using first_occupied_slot by blast
      then have "Some q \<in> set (conns (cpool w))" by (auto simp: slots_Some pool_len_def in_set_conv_nth)
      then show "pc_ping_cancel (heap w q) = Some c \<Longrightarrow> c \<in> conn_ping_ids w"
        using occupied_ping_id [OF assms] by blast
    qed
    have above: "set (slots_above (clamp_max n) w) = {i. nat (clamp_max n) \<le> i \<and> i < size (conns (cpool w))}"
      using ok len by (auto simp: slots_above_def)
    have slot: "cancels (concat (map (\<lambda>i. opt_cancel (slot_cancels (cpool w) ! i)) (slots_above (clamp_max n) w)))
        = slot_cancels_from (nat (clamp_max n)) w"
      using ok by (auto simp: cancels_concat above slot_cancels_from_def)
    have "cancels (concat (map (slot_ping_cancel w) (slots_above (clamp_max n) w))) \<subseteq> conn_ping_ids w"
      using pings by (auto simp: cancels_concat above)
    then have eff: "cancels (fst (snd (pool_resize n w))) \<subseteq> ping_ids w \<union> slot_cancels_from (nat (clamp_max n)) w"
        "slot_cancels_from (nat (clamp_max n)) w \<subseteq> cancels (fst (snd (pool_resize n w)))"
      using shrink promoted unfolding pool_resize_effects [OF assms]
      by (auto simp: slot ping_ids_def split: option.splits)
    have "min (clamp_max n) (pool_size w) = clamp_max n" using shrink by simp
    then show ?thesis
      using eff ids n len shrink pool_resize_ok [OF assms, of n]
      by (auto simp: pool_op_def sc)
  qed
qed

section \<open>Steps of a session that keep its invariant\<close>

text \<open>A change of the pool that the slot cancels and the streams do not see, and new ping loops.\<close>

definition new_ping :: "session \<Rightarrow> session \<Rightarrow> bool" where
  "new_ping s t \<longleftrightarrow> same_pool (se_world s) (se_world t)
     \<and> slot_cancels (cpool (se_world t)) = slot_cancels (cpool (se_world s))
     \<and> (\<forall>r. pc_streams (heap (se_world t) r) = pc_streams (heap (se_world s) r))
     \<and> ping_ids (se_world t) \<subseteq> insert (se_fresh s) (ping_ids (se_world s))
     \<and> se_fresh s \<le> se_fresh t \<and> (se_fresh s \<in> ping_ids (se_world t) \<longrightarrow> se_fresh s < se_fresh t)
     \<and> se_cancelled t \<subseteq> se_cancelled s \<union> ping_ids (se_world s) \<and> se_cancelled s \<subseteq> se_cancelled t
     \<and> se_over t = se_over s \<and> se_procs t = se_procs s \<and> se_next_slot t = se_next_slot s
     \<and> se_accepted t = se_accepted s \<and> se_requests t = se_requests s \<and> se_leaving t = se_leaving s \<and> same_counts (se_client s) (se_client t)
     \<and> (se_err s \<noteq> None \<longrightarrow> se_err t \<noteq> None)"

lemma new_ping_ok:
  assumes ok: "session_ok s" and new: "new_ping s t"
  shows "session_ok t"
proof -
  note ok' = ok [unfolded session_ok_def] and new' = new [unfolded new_ping_def]
  have "pool_ok (se_world t)" using ok' new' same_pool_ok by blast
  moreover have "contexts_ok t"
  proof -
    have slots: "slot_ctxs t = slot_ctxs s" and mono: "se_fresh s \<le> se_fresh t"
      and ids: "ping_ids (se_world t) \<subseteq> insert (se_fresh s) (ping_ids (se_world s))"
      using new' by (auto simp: slot_ctxs_def)
    have old: "slot_ctxs s \<subseteq> {..<se_fresh s}" "se_cancelled s \<subseteq> {..<se_fresh s}"
        "ping_ids (se_world s) \<subseteq> {..<se_fresh s} - slot_ctxs s"
      using ok' by (auto simp: contexts_ok_def)
    have up: "c < se_fresh t" if "c < se_fresh s" for c using mono that by simp
    have "c < se_fresh t \<and> c \<notin> slot_ctxs t" if c: "c \<in> ping_ids (se_world t)" for c
    proof (cases "c = se_fresh s")
      case True
      then show ?thesis using c new' fresh_not_used [OF ok] slots by simp
    next
      case False
      then have "c \<in> ping_ids (se_world s)" using ids c by blast
      then show ?thesis using old(3) up slots by blast
    qed
    moreover have "slot_ctxs t \<subseteq> {..<se_fresh t}" using slots old(1) up by blast
    moreover have "se_cancelled t \<subseteq> se_cancelled s \<union> ping_ids (se_world s)" using new' by simp
    then have "se_cancelled t \<subseteq> {..<se_fresh t}" using old up by blast
    moreover have "distinct (map pr_ctx (se_procs t))" using ok' new' by (simp add: contexts_ok_def)
    moreover have "owned_by t d k"
      if "k < size (slot_cancels (cpool (se_world t)))" "slot_cancels (cpool (se_world t)) ! k = Some d" for k d
      using that ok' new' by (simp add: contexts_ok_def owned_by_def)
    moreover have "0 \<le> pr_index p \<and> (\<forall>a \<in> set (pr_todo p). action_ok t a)" if "p \<in> set (se_procs t)" for p
    proof -
      have p: "p \<in> set (se_procs s)" using that new' by simp
      have "action_ok t a" if "a \<in> set (pr_todo p)" for a
      proof (rule action_ok_mono)
        show "action_ok s a" using ok' p that by (simp add: contexts_ok_def)
      qed (use new' in auto)
      with p ok' show ?thesis by (simp add: contexts_ok_def)
    qed
    ultimately show ?thesis unfolding contexts_ok_def by blast
  qed
  moreover have "streams_ok t"
    using ok' new' left_counts [of s t] by (simp add: streams_ok_def same_pool_def)
  moreover have "first_ok t"
  proof (cases "se_procs s")
    case (Cons p ps)
    then have "pr_ctx p \<notin> ping_ids (se_world s)" using ok' by (auto simp: contexts_ok_def slot_ctxs_def)
    then show ?thesis using ok' new' by (auto simp: first_ok_def Cons)
  qed (use new' ok' in \<open>simp add: first_ok_def\<close>)
  ultimately show ?thesis by (simp add: session_ok_def)
qed

lemma last_pong_store_sel [simp]:
  "cpool (last_pong_store r now w) = cpool w" "next_ref (last_pong_store r now w) = next_ref w"
  "pc_streams (heap (last_pong_store r now w) q) = pc_streams (heap w q)"
  "pc_index (heap (last_pong_store r now w) q) = pc_index (heap w q)"
  "pc_ping_cancel (heap (last_pong_store r now w) q) = pc_ping_cancel (heap w q)"
  by (simp_all add: last_pong_store_def)

lemma set_conn_ping_cancel_sel [simp]:
  "cpool (set_conn_ping_cancel i c w) = cpool w" "next_ref (set_conn_ping_cancel i c w) = next_ref w"
  "pc_streams (heap (set_conn_ping_cancel i c w) q) = pc_streams (heap w q)"
  "pc_index (heap (set_conn_ping_cancel i c w) q) = pc_index (heap w q)"
  by (simp_all add: set_conn_ping_cancel_def split: option.split)

lemma conn_ping_ids_small [simp]:
  "conn_ping_ids (last_pong_store r now w) = conn_ping_ids w"
  "conn_ping_ids (set_conn_ping_cancel i c w) \<subseteq> insert c (conn_ping_ids w)"
  by (auto simp: conn_ping_ids_def set_conn_ping_cancel_def split: option.splits if_splits)

lemma start_pool_ping_loop_ok:
  assumes "session_ok s" "start_pool_ping_loop r s = (as, t)"
  shows "session_ok t \<and> (\<forall>a \<in> set as. action_ok t a)"
proof
  have t: "t = s\<lparr>se_fresh := Suc (se_fresh s), se_world := snd (replace_ping_loop (se_fresh s) (se_world s))\<rparr>"
    and as: "set as \<subseteq> Perform ` CancelCall ` ping_ids (se_world s) \<union> {StorePong r, ClearFailures} \<union> range GoPing"
    using assms(2)
    by (auto simp: start_pool_ping_loop_def replace_ping_loop_def ping_ids_def Let_def split: option.splits)
  show ok: "session_ok t"
    by (rule new_ping_ok [OF assms(1)])
      (auto simp: t new_ping_def replace_ping_loop_def ping_ids_def same_pool_def)
  have "action_ok t (Perform (CancelCall c))" if "c \<in> ping_ids (se_world s)" for c
    using that assms(1) by (auto simp: t session_ok_def contexts_ok_def slot_ctxs_def less_SucI subset_eq)
  with as show "\<forall>a \<in> set as. action_ok t a" by fastforce
qed

lemma start_conn_ping_loop_ok:
  assumes "session_ok s" "start_conn_ping_loop c r s = (as, t)"
  shows "session_ok t \<and> (\<forall>a \<in> set as. action_ok t a)"
proof -
  have t: "t = s\<lparr>se_fresh := Suc (se_fresh s),
      se_world := set_conn_ping_cancel (pc_index (heap (se_world s) r)) (se_fresh s) (se_world s)\<rparr>"
    and as: "set as \<subseteq> {StorePong r} \<union> range GoPing"
    using assms(2) by (auto simp: start_conn_ping_loop_def Let_def)
  have "session_ok t"
    by (rule new_ping_ok [OF assms(1)])
      (auto simp: t new_ping_def ping_ids_def same_pool_def dest!: subsetD [OF conn_ping_ids_small(2)])
  with as show ?thesis by fastforce
qed

end
