(* ===== verification/SessionSteps.thy ===== *)
theory SessionSteps
  imports SessionInv
begin

text \<open>
  Every step of every goroutine of a session, its start and its end keep the invariant of theory
  SessionInv; the locale \<open>machine\<close> then gives it for every run.
\<close>

section \<open>Starting goroutines\<close>

lemma start_next_slot_ok:
  assumes ok: "session_ok s"
  shows "session_ok (start_next_slot s)"
proof -
  have "0 \<le> se_next_slot s" "se_procs s = [] \<longrightarrow> se_next_slot s = 0" using ok by (simp_all add: session_ok_def first_ok_def)
  then show ?thesis
    using start_slot_ok [OF ok, of "se_next_slot s" "se_next_slot s + 1"] ok
    by (simp add: start_next_slot_def Let_def)
qed

text \<open>The goroutines of a session are only added to.\<close>

definition keeps_procs :: "session \<Rightarrow> session \<Rightarrow> bool" where
  "keeps_procs s t \<longleftrightarrow> (\<exists>ps. se_procs t = se_procs s @ ps)"

lemma keeps_procs_same: "se_procs t = se_procs s \<Longrightarrow> keeps_procs s t"
  by (simp add: keeps_procs_def)

lemma keeps_procs_refl [simp]: "keeps_procs s s"
  by (simp add: keeps_procs_def)

lemma keeps_proc: "keeps_procs s t \<Longrightarrow> i < size (se_procs s) \<Longrightarrow> i < size (se_procs t) \<and> se_procs t ! i = se_procs s ! i"
  by (auto simp: keeps_procs_def nth_append)

section \<open>Requests\<close>

lemma count_list_bound: "count_list xs x \<le> size xs"
  by (simp add: count_list_eq_length_filter)

lemma count_remove_nth:
  "k < size xs \<Longrightarrow> int (count_list (remove_nth k xs) x) = int (count_list xs x) - (if xs ! k = x then 1 else 0)"
proof -
  assume k: "k < size xs"
  have "count_list xs x = count_list (take k xs @ xs ! k # drop (Suc k) xs) x" using k by (simp add: id_take_nth_drop [symmetric])
  then show ?thesis by (simp add: remove_nth_def)
qed

lemma remove_nth_sel:
  "set (remove_nth k xs) \<subseteq> set xs" "k < size xs \<Longrightarrow> Suc (size (remove_nth k xs)) = size xs"
  by (auto simp: remove_nth_def dest: in_set_takeD in_set_dropD)

lemma streams_add_sel [simp]:
  "cpool (streams_add r d w) = cpool w" "next_ref (streams_add r d w) = next_ref w"
  "conn_ping_ids (streams_add r d w) = conn_ping_ids w" "ping_ids (streams_add r d w) = ping_ids w"
  "pc_streams (heap (streams_add r d w) q) = (if q = r then wrap64 (pc_streams (heap w r) + d) else pc_streams (heap w q))"
  "pc_index (heap (streams_add r d w) q) = pc_index (heap w q)"
  "pc_conn (heap (streams_add r d w) q) = pc_conn (heap w q)"
  by (auto simp: streams_add_def conn_ping_ids_def ping_ids_def)

text \<open>A change of the stream counters, the requests and the stream slots only.\<close>

lemma recount_ok:
  assumes ok: "session_ok s" and streams: "streams_ok t"
    and same: "same_pool (se_world s) (se_world t)" "cpool (se_world t) = cpool (se_world s)"
      "ping_ids (se_world t) = ping_ids (se_world s)" "se_procs t = se_procs s" "se_fresh t = se_fresh s"
      "se_cancelled t = se_cancelled s" "se_over t = se_over s" "se_err t = se_err s"
      "se_next_slot t = se_next_slot s"
  shows "session_ok t"
  using ok streams same same_pool_ok action_ok_cong [of t s]
  by (auto simp: session_ok_def contexts_ok_def first_ok_def slot_ctxs_def owned_by_def)

text \<open>How many requests are where.\<close>

definition stage_count :: "request_stage \<Rightarrow> (ref \<times> request_stage) list \<Rightarrow> int" where
  "stage_count st qs = int (size (filter (\<lambda>q. snd q = st) qs))"

lemma requests_at_count: "int (requests_at st s) = stage_count st (se_requests s)"
  by (simp add: requests_at_def stage_count_def)

lemma stage_count_total:
  "stage_count StreamCounted qs + stage_count GaugeCounted qs + stage_count GaugeLeft qs = int (size qs)"
proof (induction qs)
  case (Cons q qs)
  then show ?case by (cases "snd q") (simp_all add: stage_count_def)
qed (simp add: stage_count_def)

lemma stage_count_append: "stage_count st (qs @ [(r, st')]) = stage_count st qs + (if st = st' then 1 else 0)"
  by (simp add: stage_count_def)

lemma stage_count_remove:
  "k < size qs \<Longrightarrow> stage_count st (remove_nth k qs) = stage_count st qs - (if snd (qs ! k) = st then 1 else 0)"
proof -
  assume k: "k < size qs"
  have "stage_count st qs = stage_count st (take k qs @ qs ! k # drop (Suc k) qs)"
    using k by (simp add: id_take_nth_drop [symmetric])
  then show ?thesis by (simp add: remove_nth_def stage_count_def)
qed

lemma stage_count_update:
  "k < size qs \<Longrightarrow> stage_count st (qs[k := (r, st')])
     = stage_count st qs - (if snd (qs ! k) = st then 1 else 0) + (if st = st' then 1 else 0)"
proof -
  assume k: "k < size qs"
  have "stage_count st qs = stage_count st (take k qs @ qs ! k # drop (Suc k) qs)"
    using k by (simp add: id_take_nth_drop [symmetric])
  then show ?thesis using k by (simp add: upd_conv_take_nth_drop stage_count_def)
qed

lemma map_remove_nth: "map f (remove_nth k xs) = remove_nth k (map f xs)"
  by (simp add: remove_nth_def take_map drop_map)

text \<open>The counts of the client that a session leaves.\<close>

lemma left_client_ok:
  "client_ok (leave_session s) \<longleftrightarrow>
     cl_in_flight (se_client s) = int (size (se_accepted s) + size (se_requests s) + se_leaving s
       + cl_waiting (se_client s) + cl_running (se_client s) + cl_leaving (se_client s))
     \<and> cl_active_streams (se_client s) = stage_count GaugeCounted (se_requests s) + int (cl_running (se_client s))
     \<and> cl_in_flight (se_client s) \<le> max_concurrent_streams"
  using stage_count_total [of "se_requests s"]
  by (auto simp: client_ok_def leave_session_def Let_def requests_at_count)

lemma streams_small: "streams_ok s \<Longrightarrow> r < next_ref (se_world s) \<Longrightarrow>
    0 \<le> pc_streams (heap (se_world s) r) \<and> pc_streams (heap (se_world s) r) \<le> int (size (se_requests s)) \<and> int (size (se_requests s)) \<le> 128"
  using count_list_bound [of "map fst (se_requests s)" r]
  by (auto simp: streams_ok_def left_client_ok max_concurrent_streams_def)

lemma request_starts_ok:
  assumes ok: "session_ok s"
  shows "session_ok (request_starts k s)"
proof (cases "k < size (se_accepted s)")
  case k: True
  let ?t = "request_starts k s" and ?r = "se_accepted s ! k"
  have str: "streams_ok s" using ok by (simp add: session_ok_def)
  have r: "?r < next_ref (se_world s)" using str nth_mem [OF k] unfolding streams_ok_def by blast
  have "wrap64 (pc_streams (heap (se_world s) ?r) + 1) = pc_streams (heap (se_world s) ?r) + 1"
    using streams_small [OF str r] by (intro wrap64_id) (simp add: in_int64_iff)
  then have "streams_ok ?t"
    using str k r remove_nth_sel [of k "se_accepted s"]
    by (auto simp: request_starts_def Let_def streams_ok_def left_client_ok stage_count_append)
  then show ?thesis
    using k small_steps_same_pool(4)
    by (intro recount_ok [OF ok]) (auto simp: request_starts_def Let_def)
qed (simp add: request_starts_def ok)

text \<open>The gauge goes up and down with the stage of one request.\<close>

lemma request_stage_ok:
  assumes ok: "session_ok s" and k: "k < size (se_requests s)" "fst (se_requests s ! k) = r"
    and d: "(if st = GaugeCounted then 1 else 0) - (if snd (se_requests s ! k) = GaugeCounted then 1 else 0) = d"
  shows "session_ok (s\<lparr>se_requests := (se_requests s)[k := (r, st)], se_client := add_active d (se_client s)\<rparr>)"
proof (rule recount_ok [OF ok])
  have "map fst ((se_requests s)[k := (r, st)]) = map fst (se_requests s)"
    using k by (simp add: map_update list_update_same_conv)
  moreover from this have "fst ` set ((se_requests s)[k := (r, st)]) = fst ` set (se_requests s)"
    by (metis set_map)
  ultimately show "streams_ok (s\<lparr>se_requests := (se_requests s)[k := (r, st)], se_client := add_active d (se_client s)\<rparr>)"
    using ok stage_count_update [OF k(1), of GaugeCounted r st] d
    by (auto simp: session_ok_def streams_ok_def left_client_ok add_active_def)
qed (simp_all add: same_pool_def)

lemma request_counted_ok: "session_ok s \<Longrightarrow> session_ok (request_counted k s)"
  by (auto simp: request_counted_def split: prod.split request_stage.split intro!: request_stage_ok)

lemma request_ends_ok: "session_ok s \<Longrightarrow> session_ok (request_ends k s)"
  by (auto simp: request_ends_def split: prod.split request_stage.split intro!: request_stage_ok)

lemma request_uncounted_ok:
  assumes ok: "session_ok s"
  shows "session_ok (request_uncounted k s)"
proof (cases "k < size (se_requests s) \<and> snd (se_requests s ! k) = GaugeLeft")
  case True
  then obtain r where k: "k < size (se_requests s)" and q: "se_requests s ! k = (r, GaugeLeft)"
    by (metis prod.collapse)
  let ?t = "request_uncounted k s"
  have t: "?t = s\<lparr>se_requests := remove_nth k (se_requests s), se_world := streams_add r (- 1) (se_world s),
      se_leaving := Suc (se_leaving s)\<rparr>" using k q by (simp add: request_uncounted_def)
  have str: "streams_ok s" using ok by (simp add: session_ok_def)
  have "fst (se_requests s ! k) \<in> fst ` set (se_requests s)" using nth_mem [OF k] by (rule imageI)
  then have r: "r < next_ref (se_world s)" using str q by (auto simp: streams_ok_def)
  have "pc_streams (heap (se_world s) r) = int (count_list (map fst (se_requests s)) r)"
    using str r by (simp add: streams_ok_def)
  then have "wrap64 (int (count_list (map fst (se_requests s)) r) + - 1) = int (count_list (map fst (se_requests s)) r) - 1"
    using streams_small [OF str r] by (subst wrap64_id) (simp_all add: in_int64_iff)
  moreover have "int (count_list (map fst (remove_nth k (se_requests s))) x)
      = int (count_list (map fst (se_requests s)) x) - (if r = x then 1 else 0)" for x
    using count_remove_nth [of k "map fst (se_requests s)" x] k q by (simp add: map_remove_nth)
  moreover have "fst ` set (remove_nth k (se_requests s)) \<subseteq> {..<next_ref (se_world s)}"
    using remove_nth_sel(1) [of k "se_requests s"] str unfolding streams_ok_def
    by (simp add: image_subset_iff subset_eq)
  moreover have "client_ok (leave_session ?t)"
    using str q remove_nth_sel(2) [OF k] stage_count_remove [OF k, of GaugeCounted]
    unfolding t streams_ok_def left_client_ok by simp
  ultimately have "streams_ok ?t"
    using str unfolding t streams_ok_def by simp
  then show ?thesis
    using small_steps_same_pool(4) unfolding t
    by (intro recount_ok [OF ok]) simp_all
qed (auto simp: request_uncounted_def ok split: prod.split request_stage.split)

lemma request_leaves_ok:
  assumes ok: "session_ok s"
  shows "session_ok (request_leaves s)"
proof (rule recount_ok [OF ok])
  show "streams_ok (request_leaves s)"
    using ok by (auto simp: session_ok_def streams_ok_def request_leaves_def left_client_ok)
qed (simp_all add: same_pool_def request_leaves_def)

lemma earlier_request_ends_ok:
  assumes ok: "session_ok s"
  shows "session_ok (session_step pr arch (EarlierRequest k) s)"
proof (rule recount_ok [OF ok])
  show "streams_ok (session_step pr arch (EarlierRequest k) s)"
    using ok
    by (cases "(k, se_client s)" rule: earlier_request.cases)
      (auto simp: session_ok_def streams_ok_def left_client_ok add_active_def)
qed (simp_all add: same_pool_def)

lemma accept_request_ok:
  assumes ok: "session_ok s" and r: "r < next_ref (se_world s)"
  shows "session_ok (snd (accept_request r msg s))"
proof -
  have "streams_ok (snd (accept_request r msg s))"
    using ok r by (auto simp: session_ok_def streams_ok_def accept_request_def left_client_ok)
  then show ?thesis
    by (rule recount_ok [OF ok]) (auto simp: accept_request_def same_pool_def)
qed

section \<open>The goroutine of a slot\<close>

definition put_proc :: "nat \<Rightarrow> slot_proc \<Rightarrow> session \<Rightarrow> session" where
  "put_proc i p s = s\<lparr>se_procs := (se_procs s)[i := p]\<rparr>"

text \<open>What the next phase of the goroutine at position \<open>i\<close> has to satisfy.\<close>

definition next_phase :: "session \<Rightarrow> nat \<Rightarrow> slot_proc \<Rightarrow> bool" where
  "next_phase s i p \<longleftrightarrow> i < size (se_procs s) \<and> pr_index p = pr_index (se_procs s ! i) \<and> pr_ctx p = pr_ctx (se_procs s ! i)
     \<and> phase_ref (pr_phase p) \<subseteq> {..<next_ref (se_world s)} \<and> (\<forall>a \<in> set (pr_todo p). action_ok s a)
     \<and> (i = 0 \<and> pr_phase p = Gone \<longrightarrow> se_over s \<or> se_err s \<noteq> None \<or> reports p)"

lemma put_proc_sel [simp]:
  "se_world (put_proc i p s) = se_world s" "se_over (put_proc i p s) = se_over s"
  "se_cancelled (put_proc i p s) = se_cancelled s" "se_fresh (put_proc i p s) = se_fresh s"
  "se_err (put_proc i p s) = se_err s" "se_accepted (put_proc i p s) = se_accepted s"
  "se_requests (put_proc i p s) = se_requests s" "se_leaving (put_proc i p s) = se_leaving s" "se_client (put_proc i p s) = se_client s"
  "se_next_slot (put_proc i p s) = se_next_slot s" "se_granted (put_proc i p s) = se_granted s"
  "se_locked (put_proc i p s) = se_locked s" "se_procs (put_proc i p s) = (se_procs s)[i := p]"
  by (simp_all add: put_proc_def)

text \<open>The goroutines keep their slots and contexts.\<close>

lemma put_proc_identities:
  assumes "i < size (se_procs s)" "pr_index p = pr_index (se_procs s ! i)" "pr_ctx p = pr_ctx (se_procs s ! i)"
  shows "map (\<lambda>q. (pr_ctx q, pr_index q)) (se_procs (put_proc i p s)) = map (\<lambda>q. (pr_ctx q, pr_index q)) (se_procs s)"
  using assms by (simp add: map_update list_update_same_conv)

lemma same_identities:
  assumes "map (\<lambda>q. (pr_ctx q, pr_index q)) ps = map (\<lambda>q. (pr_ctx q, pr_index q)) qs"
  shows "map pr_ctx ps = map pr_ctx qs"
    and "p \<in> set ps \<Longrightarrow> \<exists>q \<in> set qs. pr_ctx q = pr_ctx p \<and> pr_index q = pr_index p"
    and "q \<in> set qs \<Longrightarrow> \<exists>p \<in> set ps. pr_ctx p = pr_ctx q \<and> pr_index p = pr_index q"
proof -
  show "map pr_ctx ps = map pr_ctx qs" using arg_cong [OF assms, of "map fst"] by (simp add: comp_def)
  have sets: "(\<lambda>q. (pr_ctx q, pr_index q)) ` set ps = (\<lambda>q. (pr_ctx q, pr_index q)) ` set qs"
    using arg_cong [OF assms, of set] by simp
  show "\<exists>q \<in> set qs. pr_ctx q = pr_ctx p \<and> pr_index q = pr_index p" if "p \<in> set ps"
  proof -
    have "(pr_ctx p, pr_index p) \<in> (\<lambda>q. (pr_ctx q, pr_index q)) ` set qs" using that sets by blast
    then show ?thesis by auto
  qed
  show "\<exists>p \<in> set ps. pr_ctx p = pr_ctx q \<and> pr_index p = pr_index q" if "q \<in> set qs"
  proof -
    have "(pr_ctx q, pr_index q) \<in> (\<lambda>q. (pr_ctx q, pr_index q)) ` set ps" using that sets by blast
    then show ?thesis by auto
  qed
qed

lemma put_proc_ok:
  assumes ok: "session_ok s" and p: "next_phase s i p"
  shows "session_ok (put_proc i p s)"
proof -
  let ?t = "put_proc i p s"
  note ok' = ok [unfolded session_ok_def] and p' = p [unfolded next_phase_def]
  note same = same_identities [OF put_proc_identities [of i s p]]
  have identities: "map pr_ctx (se_procs ?t) = map pr_ctx (se_procs s)"
    and old: "\<And>q. q \<in> set (se_procs ?t) \<Longrightarrow> \<exists>r \<in> set (se_procs s). pr_ctx r = pr_ctx q \<and> pr_index r = pr_index q"
    and new: "\<And>q. q \<in> set (se_procs s) \<Longrightarrow> \<exists>r \<in> set (se_procs ?t). pr_ctx r = pr_ctx q \<and> pr_index r = pr_index q"
    using same p' by blast+
  have ctxs: "slot_ctxs ?t = slot_ctxs s"
    using arg_cong [OF identities, of set] by (simp add: slot_ctxs_def)
  have act: "action_ok ?t a" if "action_ok s a" for a
    using that by (rule action_ok_mono) (use old in auto)
  have todo: "action_ok s a" if "q \<in> set (se_procs ?t)" "a \<in> set (pr_todo q)" for q a
    using that p' ok' set_update_subset_insert [of "se_procs s" i p] by (auto simp: contexts_ok_def)
  have "0 \<le> pr_index q" if "q \<in> set (se_procs ?t)" for q
    using old [OF that] ok' by (auto simp: contexts_ok_def)
  moreover have "owned_by ?t c k" if "owned_by s c k" for c k
  proof -
    from that obtain q where q: "q \<in> set (se_procs s)" "pr_ctx q = c" "pr_index q = int k" by (auto simp: owned_by_def)
    then show ?thesis unfolding owned_by_def using new [OF q(1)] by fastforce
  qed
  ultimately have "contexts_ok ?t"
    using ok' identities ctxs act todo
    unfolding contexts_ok_def by (simp only: put_proc_sel(1-4)) blast
  moreover have "streams_ok ?t"
    using ok' p' left_counts [of s ?t] by (auto simp: streams_ok_def dest!: subsetD [OF set_update_subset_insert])
  moreover have "first_ok ?t"
  proof (cases "se_procs s")
    case (Cons q qs)
    then show ?thesis using ok' p' by (cases i) (auto simp: first_ok_def)
  qed (use p' in simp)
  ultimately show ?thesis using ok' by (simp add: session_ok_def)
qed

text \<open>Add puts a connection without streams at a fresh pointer.\<close>

lemma pool_add_session_ok:
  assumes ok: "session_ok s"
  shows "session_ok (s\<lparr>se_world := snd (pool_add now i c (se_world s))\<rparr>)"
proof (cases "0 \<le> i \<and> i < pool_len (cpool (se_world s))")
  case False
  then show ?thesis using ok by (simp add: pool_add_out not_le not_less)
next
  case True
  let ?w = "se_world s" and ?t = "s\<lparr>se_world := snd (pool_add now i c (se_world s))\<rparr>"
  let ?r = "next_ref ?w"
  note add = pool_add_in [of i ?w now c] and ok' = ok [unfolded session_ok_def]
  have "pool_ok (se_world ?t)" using ok' by (simp add: pool_add_ok)
  moreover have "conn_ping_ids (se_world ?t) = conn_ping_ids ?w"
    using True by (auto simp: add conn_ping_ids_def less_Suc_eq) (metis nat_neq_iff)
  then have "contexts_ok ?t"
    using ok' True action_ok_cong [of ?t s] by (simp add: contexts_ok_def add slot_ctxs_def ping_ids_def owned_by_def)
  moreover have "streams_ok ?t"
  proof -
    have "?r \<notin> set (map fst (se_requests s))" using ok' by (auto simp: streams_ok_def)
    then have "count_list (map fst (se_requests s)) ?r = 0" by simp
    moreover have "phase_ref (pr_phase p) \<subseteq> {..<Suc ?r}" if "p \<in> set (se_procs s)" for p
      using ok' that unfolding streams_ok_def by fastforce
    ultimately show ?thesis using ok' True left_counts [of s ?t] by (auto simp: streams_ok_def add less_Suc_eq)
  qed
  moreover have "first_ok ?t" using ok' by (simp add: first_ok_def)
  ultimately show ?thesis by (simp add: session_ok_def)
qed

text \<open>
  The step of a goroutine: what it does to the session keeps the invariant, and its next phase
  fits the session it leaves.
\<close>

definition fine_step :: "session \<Rightarrow> nat \<Rightarrow> slot_proc \<times> session \<Rightarrow> bool" where
  "fine_step s i r \<longleftrightarrow> session_ok (snd r) \<and> keeps_procs s (snd r) \<and> next_phase (snd r) i (fst r)"

lemma unseen_steps_ok [simp]:
  "session_ok s \<Longrightarrow> session_ok (close_conn c s)" "session_ok s \<Longrightarrow> session_ok (send_err e s)"
  "session_ok s \<Longrightarrow> session_ok (publish f s)" "session_ok s \<Longrightarrow> session_ok (s\<lparr>se_failures := n\<rparr>)"
  "session_ok s \<Longrightarrow> session_ok (s\<lparr>se_pings := ps\<rparr>)" "session_ok s \<Longrightarrow> session_ok (s\<lparr>se_sent := ms\<rparr>)"
  "session_ok s \<Longrightarrow> session_ok (s\<lparr>se_closing := rs\<rparr>)" "session_ok s \<Longrightarrow> session_ok (ping_loop_ended pg pe s)"
  "session_ok s \<Longrightarrow> session_ok (s\<lparr>se_locked := l\<rparr>)"
  by (auto intro: unseen_ok [rotated])

lemma send_err_sel [simp]:
  "se_err (send_err e s) \<noteq> None" "se_procs (send_err e s) = se_procs s" "se_world (send_err e s) = se_world s"
  "se_over (send_err e s) = se_over s" "se_cancelled (send_err e s) = se_cancelled s" "se_locked (send_err e s) = se_locked s"
  "se_next_slot (send_err e s) = se_next_slot s" "se_granted (send_err e s) = se_granted s"
  by (auto simp: send_err_def split: option.split)

lemma publish_sel [simp]:
  "se_procs (publish f s) = se_procs s" "se_world (publish f s) = se_world s" "se_over (publish f s) = se_over s"
  "se_err (publish f s) = se_err s" "se_cancelled (publish f s) = se_cancelled s" "se_locked (publish f s) = se_locked s"
  "se_next_slot (publish f s) = se_next_slot s" "se_granted (publish f s) = se_granted s"
  by (simp_all add: publish_def)

lemma apply_effect_sel [simp]:
  "se_procs (apply_effect e s) = se_procs s" "se_world (apply_effect e s) = se_world s"
  "se_over (apply_effect e s) = se_over s" "se_err (apply_effect e s) = se_err s"
  "se_locked (apply_effect e s) = se_locked s" "se_next_slot (apply_effect e s) = se_next_slot s"
  "se_granted (apply_effect e s) = se_granted s"
  "se_cancelled (apply_effect e s) = se_cancelled s \<union> cancels [e]"
  by (cases e; simp add: close_conn_def)+

lemma apply_effect_ok:
  assumes ok: "session_ok s" and e: "action_ok s (Perform e)"
  shows "session_ok (apply_effect e s)"
proof (cases e)
  case (CancelCall c)
  then show ?thesis using e by (intro cancel_ok [OF ok, of "{c}"]) simp_all
qed (use ok in simp_all)

section \<open>Actions\<close>

lemma session_resize_fine:
  assumes ok: "session_ok s" and R: "session_resize n s = (as, t)"
  shows "session_ok t \<and> se_procs t = se_procs s \<and> next_ref (se_world t) = next_ref (se_world s)
    \<and> (\<forall>b \<in> set as. action_ok t b) \<and> se_over t = se_over s \<and> se_err t = se_err s"
proof (cases "se_locked s")
  case True
  then show ?thesis using ok R by (auto simp: session_resize_def)
next
  case free: False
  obtain old new promoted es w where P: "pool_resize n (se_world s) = ((old, new, promoted), es, w)"
    by (metis prod.exhaust)
  have world: "pool_ok (se_world s)" using ok by (simp add: session_ok_def)
  have op: "pool_op (nat (min (clamp_max n) (pool_size (se_world s)))) (se_world s) (es, w)"
    using pool_resize_op [OF world, of n] P by simp
  have "0 < old" using pool_resize_old_new [of n "se_world s"] pool_okD(1) [OF world] P by (simp add: pool_size_def)
  show ?thesis
  proof (cases "new = old")
    case True
    then show ?thesis using ok R free by (simp add: session_resize_def P)
  next
    case False
    let ?u = "s\<lparr>se_world := w, se_locked := True\<rparr>"
    have t: "t = ?u" and as: "as = map Perform es @ (case promoted of None \<Rightarrow> [] | Some r \<Rightarrow> [StartPoolPing r])
        @ [StartSlots old new, UnlockController, SyncPool, PublishMax new]"
      using R free False by (simp_all add: session_resize_def P)
    have "session_ok ?u" using pool_op_world_ok [OF ok op] unseen_steps_ok(9) [of "s\<lparr>se_world := w\<rparr>" True] by simp
    moreover have "action_ok ?u (Perform e)" if "e \<in> set es" for e
    proof (cases e)
      case (CancelCall c)
      then have "c \<in> cancels (fst (es, w))" using that by (simp add: cancels_def)
      then have "action_ok s (Perform e)" using pool_op_cancels [OF ok op] CancelCall by blast
      then show ?thesis using action_ok_cong [of ?u s] by simp
    qed simp_all
    moreover have "next_ref w = next_ref (se_world s)" using op by (simp add: pool_op_def)
    ultimately show ?thesis using \<open>0 < old\<close> by (auto simp: t as split: option.splits)
  qed
qed

lemma start_ping_loops_sel:
  "start_pool_ping_loop r s = (as, t) \<Longrightarrow> se_procs t = se_procs s \<and> next_ref (se_world t) = next_ref (se_world s)
     \<and> se_over t = se_over s \<and> se_err t = se_err s \<and> se_locked t = se_locked s \<and> se_cancelled t = se_cancelled s
     \<and> slot_cancels (cpool (se_world t)) = slot_cancels (cpool (se_world s))
     \<and> se_next_slot t = se_next_slot s \<and> se_granted t = se_granted s"
  "start_conn_ping_loop c r s = (as, t) \<Longrightarrow> se_procs t = se_procs s \<and> next_ref (se_world t) = next_ref (se_world s)
     \<and> se_over t = se_over s \<and> se_err t = se_err s \<and> se_locked t = se_locked s \<and> se_cancelled t = se_cancelled s
     \<and> slot_cancels (cpool (se_world t)) = slot_cancels (cpool (se_world s))
     \<and> se_next_slot t = se_next_slot s \<and> se_granted t = se_granted s"
  by (auto simp: start_pool_ping_loop_def start_conn_ping_loop_def replace_ping_loop_def Let_def)

lemma last_pong_store_ok:
  assumes "session_ok s"
  shows "session_ok (s\<lparr>se_world := last_pong_store r now (se_world s)\<rparr>)"
  using fresh_not_used [OF assms]
  by (intro new_ping_ok [OF assms]) (simp add: new_ping_def ping_ids_def small_steps_same_pool subset_insertI)

lemma slot_act_fine:
  assumes ok: "session_ok s" and some: "se_procs s \<noteq> []" and a: "action_ok s a" and R: "slot_act now c a s = (as, t)"
  shows "session_ok t \<and> keeps_procs s t \<and> next_ref (se_world t) = next_ref (se_world s)
    \<and> (\<forall>b \<in> set as. action_ok t b) \<and> se_over t = se_over s \<and> (se_err s \<noteq> None \<longrightarrow> se_err t \<noteq> None)
    \<and> ((\<exists>e. a = Report e) \<longrightarrow> se_err t \<noteq> None)"
proof (cases a)
  case (Perform e)
  then show ?thesis using ok R a apply_effect_ok by (auto simp: keeps_procs_same)
next
  case (StartPoolPing r)
  then show ?thesis using start_pool_ping_loop_ok [OF ok] start_ping_loops_sel(1) R by (auto simp: keeps_procs_same)
next
  case (StartConnPing r)
  then show ?thesis using start_conn_ping_loop_ok [OF ok] start_ping_loops_sel(2) R by (auto simp: keeps_procs_same)
next
  case (StorePong r)
  then show ?thesis using last_pong_store_ok [OF ok] R by (auto simp: keeps_procs_same)
next
  case (ResizePool n)
  then show ?thesis using session_resize_fine [OF ok] R by (auto simp: keeps_procs_same)
next
  case (StartSlots i n)
  have next_slot: "0 < se_next_slot s" using ok some by (auto simp: session_ok_def first_ok_def order_less_le)
  have "start_slot i None s = (start_slot i None s)\<lparr>se_next_slot := se_next_slot s\<rparr>"
    by (simp add: start_slot_def Let_def)
  also have "session_ok \<dots>"
    using a some by (intro start_slot_ok [OF ok _ _ next_slot]) (simp_all add: StartSlots)
  finally have "session_ok (start_slot i None s)" .
  then show ?thesis using ok a R
    by (auto simp: StartSlots keeps_procs_def set_slot_cancel_sel split: if_splits)
next
  case (Report e)
  then have "as = []" "t = send_err e s" using R by simp_all
  then show ?thesis using ok Report send_err_sel(1) [of e s] by (simp add: keeps_procs_same)
qed (use ok R in \<open>auto simp: keeps_procs_same split: if_splits\<close>)

section \<open>Phases\<close>

lemma first_context:
  "session_ok s \<Longrightarrow> 0 < size (se_procs s) \<Longrightarrow> ctx_done (pr_ctx (se_procs s ! 0)) s \<Longrightarrow> se_over s"
  by (cases "se_procs s") (auto simp: session_ok_def first_ok_def ctx_done_def)

lemma first_index: "session_ok s \<Longrightarrow> 0 < size (se_procs s) \<Longrightarrow> pr_index (se_procs s ! 0) = 0"
  by (cases "se_procs s") (auto simp: session_ok_def first_ok_def)

lemma first_gone: "session_ok s \<Longrightarrow> 0 < size (se_procs s) \<Longrightarrow> pr_phase (se_procs s ! 0) = Gone \<Longrightarrow>
    se_over s \<or> se_err s \<noteq> None \<or> reports (se_procs s ! 0)"
  by (cases "se_procs s") (auto simp: session_ok_def first_ok_def)

lemma proc_ref: "session_ok s \<Longrightarrow> i < size (se_procs s) \<Longrightarrow> phase_ref (pr_phase (se_procs s ! i)) \<subseteq> {..<next_ref (se_world s)}"
  using nth_mem by (fastforce simp: session_ok_def streams_ok_def)

lemma proc_todo: "session_ok s \<Longrightarrow> i < size (se_procs s) \<Longrightarrow> a \<in> set (pr_todo (se_procs s ! i)) \<Longrightarrow> action_ok s a"
  using nth_mem by (fastforce simp: session_ok_def contexts_ok_def)

lemma slot_add_fine:
  assumes ok: "session_ok s" and i: "i < size (se_procs s)"
  shows "fine_step s i (slot_add c now (se_procs s ! i) s)"
proof -
  let ?p = "se_procs s ! i" and ?w = "se_world s"
  let ?t = "s\<lparr>se_world := snd (pool_add now (pr_index ?p) c ?w)\<rparr>"
  have t: "session_ok ?t" by (rule pool_add_session_ok [OF ok])
  have len: "0 < pool_len (cpool ?w)" using ok pool_okD(1,3) [of ?w] by (simp add: session_ok_def)
  show ?thesis
  proof (cases "0 \<le> pr_index ?p \<and> pr_index ?p < pool_len (cpool ?w)")
    case True
    then obtain r f w' where add: "pool_add now (pr_index ?p) c ?w = ((Some r, f), w')" "r < next_ref w'"
      by (simp add: pool_add_in)
    then show ?thesis
      using i t unfolding slot_add_def fine_step_def add(1) by (simp add: keeps_procs_same next_phase_def)
  next
    case False
    then have "i \<noteq> 0" using first_index [OF ok] i len by (cases i) auto
    with False show ?thesis
      using ok i unfolding slot_add_def fine_step_def
      by (simp add: pool_add_out not_le not_less next_phase_def ends_def)
  qed
qed

lemma slot_remove_fine:
  assumes ok: "session_ok s" and i: "i < size (se_procs s)"
  shows "fine_step s i (slot_remove arch r jitter (se_procs s ! i) s)"
proof -
  let ?p = "se_procs s ! i" and ?w = "se_world s"
  obtain remaining promoted lost ew where R: "pool_remove (pr_index ?p) ?w = ((remaining, promoted, lost), ew)"
    by (metis prod.exhaust)
  have w: "pool_ok ?w" using ok by (simp add: session_ok_def)
  have "session_ok (with_pool ew s)"
    using with_pool_ok [OF ok pool_remove_op [OF w]] R by (metis snd_conv)
  then show ?thesis
    using i unfolding slot_remove_def fine_step_def R
    by (cases promoted)
      (auto simp: Let_def next_phase_def ends_def repair_delay_def keeps_procs_same reports_def)
qed

lemma read_message_fine:
  assumes ok: "session_ok s" and r: "r < next_ref (se_world s)" and R: "read_message pr r sent msg s = (res, t)"
  shows "session_ok t \<and> se_procs t = se_procs s \<and> next_ref (se_world t) = next_ref (se_world s)
    \<and> se_over t = se_over s \<and> se_err t = se_err s \<and> (\<forall>as. res = ReadMore as \<longrightarrow> (\<forall>a \<in> set as. action_ok t a))"
proof (cases "m_kind msg")
  case MsgHTTPRequest
  obtain as u where acc: "accept_request r msg s = (as, u)" by (metis prod.exhaust)
  have "se_procs u = se_procs s" "next_ref (se_world u) = next_ref (se_world s)" "se_over u = se_over s"
      "se_err u = se_err s" "\<forall>a \<in> set as. action_ok u a"
    using acc by (auto simp: accept_request_def split: if_splits)
  then show ?thesis
    using R accept_request_ok [OF ok r, of msg] MsgHTTPRequest by (auto simp: read_message_def acc)
qed (use ok R in \<open>auto simp: read_message_def split: option.splits if_splits\<close>)

lemma slot_phase_step_fine:
  assumes ok: "session_ok s" and i: "i < size (se_procs s)" and idle: "pr_todo (se_procs s ! i) = []"
  shows "fine_step s i (slot_phase_step pr arch ev (se_procs s ! i) s)"
proof -
  let ?p = "se_procs s ! i"
  note ref = proc_ref [OF ok i]
  have over: "se_over s" if "i = 0" "ctx_done (pr_ctx ?p) s" using that first_context [OF ok] i by simp
  have gone: "se_over s \<or> se_err s \<noteq> None" if "i = 0" "pr_phase ?p = Gone"
    using that first_gone [OF ok] i idle by (auto simp: reports_def)
  note simps = fine_step_def next_phase_def ends_def repair_delay_def reports_def
  show ?thesis
  proof (cases ev)
    case (Advance now jitter)
    show ?thesis
    proof (cases "pr_phase ?p")
      case (Adding c)
      then show ?thesis using slot_add_fine [OF ok i] by (simp add: Advance)
    next
      case (Removing r)
      then show ?thesis using slot_remove_fine [OF ok i] by (simp add: Advance)
    qed (use ok i ref over gone idle in \<open>auto simp: Advance simps slot_top_def slot_join_failed_def split: option.split\<close>)
  next
    case (JoinEnds result)
    then show ?thesis
      using ok i ref over gone idle
      by (cases "pr_phase ?p") (auto simp: simps slot_joined_def split: sum.split)
  next
    case (Received msg sent)
    show ?thesis
    proof (cases "pr_phase ?p")
      case (Reading r)
      obtain res t where R: "read_message pr r sent msg s = (res, t)" by (metis prod.exhaust)
      show ?thesis
        using i ref Reading idle read_message_fine [OF ok _ R]
        by (auto simp: Received R simps keeps_procs_same split: read_result.split)
    qed (use ok i ref gone idle in \<open>auto simp: Received simps\<close>)
  qed (use ok i ref over gone idle in \<open>auto simp: simps split: slot_phase.split read_result.split\<close>)
qed

lemma slot_step_fine:
  assumes ok: "session_ok s" and i: "i < size (se_procs s)"
  shows "fine_step s i (slot_step pr arch ev (se_procs s ! i) s)"
proof (cases "pr_todo (se_procs s ! i)")
  case Nil
  then show ?thesis using slot_phase_step_fine [OF ok i] by (simp add: slot_step_def)
next
  case (Cons a as)
  let ?p = "se_procs s ! i"
  have todo: "action_ok s b" if "b \<in> set (a # as)" for b using proc_todo [OF ok i] that Cons by simp
  have stay: "fine_step s i (?p, s)"
    using ok i proc_ref [OF ok i] todo Cons first_gone [OF ok] by (auto simp: fine_step_def next_phase_def)
  show ?thesis
  proof (cases ev)
    case (Advance now jitter)
    obtain new t where R: "slot_act now (pr_ctx ?p) a s = (new, t)" by (metis prod.exhaust)
    have some: "se_procs s \<noteq> []" using i by auto
    have t: "session_ok t" "keeps_procs s t" "next_ref (se_world t) = next_ref (se_world s)"
      "\<forall>b \<in> set new. action_ok t b" "se_over t = se_over s" "se_err s \<noteq> None \<longrightarrow> se_err t \<noteq> None"
      "(\<exists>e. a = Report e) \<longrightarrow> se_err t \<noteq> None"
      using slot_act_fine [OF ok some _ R] todo by auto
    note kept = keeps_proc [OF t(2) i]
    have "action_ok t b" if "b \<in> set as" for b
      using proc_todo [OF t(1), of i b] kept that Cons by simp
    moreover have "se_over t \<or> se_err t \<noteq> None \<or> reports (?p\<lparr>pr_todo := new @ as\<rparr>)" if "i = 0" "pr_phase ?p = Gone"
      using that first_gone [OF ok] i t(5-7) Cons by (auto simp: reports_def)
    ultimately show ?thesis
      using t kept proc_ref [OF ok i] Cons
      by (auto simp: slot_step_def Advance R fine_step_def next_phase_def)
  qed (use stay Cons in \<open>simp_all add: slot_step_def\<close>)
qed

section \<open>A session\<close>

lemma pool_close_op:
  assumes "pool_ok w"
  shows "same_pool w (snd (pool_close w)) \<and> slot_cancels (cpool (snd (pool_close w))) = slot_cancels (cpool w)
    \<and> (\<forall>r. pc_streams (heap (snd (pool_close w)) r) = pc_streams (heap w r))
    \<and> ping_ids (snd (pool_close w)) \<subseteq> ping_ids w
    \<and> cancels (fst (pool_close w)) \<subseteq> ping_ids w \<union> slot_cancels_from 0 w"
proof (intro conjI)
  show "same_pool w (snd (pool_close w))" by (rule small_steps_same_pool)
  show "slot_cancels (cpool (snd (pool_close w))) = slot_cancels (cpool w)"
    "\<forall>r. pc_streams (heap (snd (pool_close w)) r) = pc_streams (heap w r)"
    "ping_ids (snd (pool_close w)) \<subseteq> ping_ids w"
    using take_ping_cancels_ids [of "conns (cpool w)" w]
    by (auto simp: pool_close_def Let_def case_prod_beta ping_ids_def)
  have "cancels (concat (map (case_option [] (\<lambda>r. [CloseConn (h r)])) cs)) = {}" for cs :: "ref option list" and h
    by (induction cs) (auto split: option.split)
  moreover have "cancels (concat (map opt_cancel cs)) = {c. Some c \<in> set cs}" for cs :: "cancel_id option list"
    by (induction cs) auto
  moreover have "cancels (fst (take_ping_cancels (conns (cpool w)) w)) \<subseteq> conn_ping_ids w"
  proof -
    have "c \<in> conn_ping_ids w" if "Some r \<in> set (conns (cpool w))" "pc_ping_cancel (heap w r) = Some c" for r c
      using occupied_ping_id [OF assms] that by blast
    then show ?thesis
      using take_ping_cancels_effects [OF pool_refs_distinct [OF assms]]
      by (auto simp: cancels_concat set_refs_of)
  qed
  ultimately show "cancels (fst (pool_close w)) \<subseteq> ping_ids w \<union> slot_cancels_from 0 w"
    by (auto simp: pool_close_def Let_def case_prod_beta ping_ids_def slot_cancels_from_def in_set_conv_nth)
qed

lemma end_session_ok:
  assumes ok: "session_ok s"
  shows "session_ok (end_session s)"
proof -
  let ?t = "end_session s" and ?w = "se_world s"
  note ok' = ok [unfolded session_ok_def]
  have w: "pool_ok ?w" using ok' by blast
  note close = pool_close_op [OF w]
  have sel: "se_world ?t = snd (pool_close ?w)" "se_over ?t" "se_procs ?t = se_procs s" "se_fresh ?t = se_fresh s"
      "se_cancelled ?t = se_cancelled s \<union> cancels (fst (pool_close ?w))" "se_accepted ?t = se_accepted s"
      "se_requests ?t = se_requests s" "se_leaving ?t = se_leaving s" "se_client ?t = se_client s" "se_next_slot ?t = se_next_slot s"
    by (simp_all add: end_session_def)
  have "slot_cancels_from 0 ?w \<subseteq> slot_ctxs s"
  proof
    fix c assume "c \<in> slot_cancels_from 0 ?w"
    then obtain p where "p \<in> set (se_procs s)" "pr_ctx p = c" using owner_exists ok' by blast
    then show "c \<in> slot_ctxs s" by (auto simp: slot_ctxs_def)
  qed
  moreover have old: "slot_ctxs s \<subseteq> {..<se_fresh s}" "se_cancelled s \<subseteq> {..<se_fresh s}"
      "ping_ids ?w \<subseteq> {..<se_fresh s} - slot_ctxs s" "distinct (map pr_ctx (se_procs s))"
    using ok' by (auto simp: contexts_ok_def)
  ultimately have "cancels (fst (pool_close ?w)) \<subseteq> {..<se_fresh s}" using close by blast
  then have "contexts_ok ?t"
    using ok' old close action_ok_cong [of ?t s]
    by (auto simp: contexts_ok_def sel slot_ctxs_def owned_by_def)
  moreover have "streams_ok ?t" using ok' close left_counts [of s ?t] by (simp add: streams_ok_def sel same_pool_def)
  moreover have "first_ok ?t" using ok' by (simp add: first_ok_def sel)
  moreover have "pool_ok (se_world ?t)" using close same_pool_ok [OF _ w] by (simp add: sel)
  ultimately show ?thesis by (simp add: session_ok_def)
qed

lemma session_step_ok: "session_ok s \<Longrightarrow> session_ok (session_step pr arch e s)"
proof (cases e)
  case (SlotEvent i ev)
  assume ok: "session_ok s"
  show ?thesis
  proof (cases "i < size (se_procs s)")
    case True
    obtain p t where R: "slot_step pr arch ev (se_procs s ! i) s = (p, t)" by (metis prod.exhaust)
    have "fine_step s i (p, t)" using slot_step_fine [OF ok True] R by metis
    then have "session_ok (put_proc i p t)" by (intro put_proc_ok) (simp_all add: fine_step_def)
    then show ?thesis using True by (simp add: SlotEvent R put_proc_def)
  qed (simp add: SlotEvent ok)
next
  case ContextEnds
  assume ok: "session_ok s"
  then show ?thesis
    using action_ok_cong [of "s\<lparr>se_over := True\<rparr>" s] left_counts [of s "s\<lparr>se_over := True\<rparr>"]
    by (auto simp: ContextEnds session_ok_defs slot_ctxs_def owned_by_def)
qed (use start_next_slot_ok request_starts_ok request_counted_ok request_ends_ok request_uncounted_ok request_leaves_ok earlier_request_ends_ok end_session_ok in auto)

interpretation sessions: machine "session_step pr arch" "\<lambda>_ _. True" session_ok
  for pr arch
  by unfold_locales (rule session_step_ok)

text \<open>What a session starts from: the stream slots taken by requests of former sessions.\<close>

lemma new_session_pool:
  "slot_cancels (cpool (se_world (new_session h addr ack control cl))) = replicate (nat (max 1 (granted_max ack))) None"
  "ping_ids (se_world (new_session h addr ack control cl)) = {}" "pool_ok (se_world (new_session h addr ack control cl))"
proof -
  show "pool_ok (se_world (new_session h addr ack control cl))"
    unfolding new_session_def session_pool_def session.simps
    by (rule new_pool_ok) (simp add: granted_max_def max_pool_connections_def)
qed (auto simp: new_session_def session_pool_def new_connection_pool_def Let_def ping_ids_def conn_ping_ids_def)

lemma start_session_sel [simp]:
  "se_procs (start_session h addr ack control now cl) = []" "se_over (start_session h addr ack control now cl) = False"
  "se_err (start_session h addr ack control now cl) = None" "se_locked (start_session h addr ack control now cl) = False"
  "se_next_slot (start_session h addr ack control now cl) = 0"
  "se_granted (start_session h addr ack control now cl) = m_max_connections ack"
  "se_world (start_session h addr ack control now cl) = se_world (new_session h addr ack control cl)"
  by (simp_all add: start_session_def new_session_def)

lemma start_session_ok:
  assumes "client_ok cl"
  shows "session_ok (start_session h addr ack control now cl)"
proof -
  have "session_ok (new_session h addr ack control cl)"
    using new_session_pool [of h addr ack control cl] assms
    by (simp add: session_ok_defs slot_ctxs_def) (simp add: new_session_def leave_session_def requests_at_def)
  then show ?thesis by (simp add: start_session_def)
qed

end
