(* ===== verification/SessionLock.thy ===== *)
theory SessionLock
  imports SessionSteps
begin

text \<open>
  The controller's mutex and the owners of the slots: at most one goroutine is between the lock
  and the unlock of resize, and of the goroutines of one slot at most one has a live context.
\<close>

section \<open>The mutex\<close>

text \<open>
  The cancels and starts of a resize are done before the mutex is released. A resize is the last
  thing a goroutine has to do.
\<close>

fun plain :: "slot_action \<Rightarrow> bool" where
  "plain UnlockController \<longleftrightarrow> False"
| "plain (StartSlots i n) \<longleftrightarrow> False"
| "plain (Perform e) \<longleftrightarrow> False"
| "plain (ResizePool n) \<longleftrightarrow> False"
| "plain _ \<longleftrightarrow> True"

fun todo_ok :: "slot_action list \<Rightarrow> bool" where
  "todo_ok [] \<longleftrightarrow> True"
| "todo_ok (UnlockController # as) \<longleftrightarrow> list_all plain as"
| "todo_ok (StartSlots i n # as) \<longleftrightarrow> (\<exists>bs. as = UnlockController # bs) \<and> todo_ok as"
| "todo_ok (ResizePool n # as) \<longleftrightarrow> as = []"
| "todo_ok (a # as) \<longleftrightarrow> todo_ok as"

definition holds :: "slot_proc \<Rightarrow> bool" where
  "holds p \<longleftrightarrow> UnlockController \<in> set (pr_todo p)"

definition holders :: "session \<Rightarrow> nat set" where
  "holders s = {k. k < size (se_procs s) \<and> holds (se_procs s ! k)}"

definition lock_ok :: "session \<Rightarrow> bool" where
  "lock_ok s \<longleftrightarrow> (\<forall>p \<in> set (se_procs s). todo_ok (pr_todo p))
     \<and> (if se_locked s then \<exists>k. holders s = {k} else holders s = {})"

lemma plain_todo_ok: "list_all plain as \<Longrightarrow> todo_ok as"
  by (induction as rule: todo_ok.induct) simp_all

lemma todo_ok_Perform [simp]: "todo_ok (map Perform es @ as) = todo_ok as"
  by (induction es) simp_all

lemma todo_ok_tail: "todo_ok (a # as) \<Longrightarrow> todo_ok as"
  by (cases a) (auto intro: plain_todo_ok)

lemma todo_ok_start: "todo_ok as \<Longrightarrow> StartSlots i n \<in> set as \<Longrightarrow> UnlockController \<in> set as"
proof (induction as rule: todo_ok.induct)
  case (2 as)
  then show ?case by (auto simp: list_all_iff)
qed auto

text \<open>How a step changes the mutex: not at all, the goroutine takes it, or it releases it.\<close>

definition lock_moves :: "session \<Rightarrow> slot_proc \<Rightarrow> slot_proc \<Rightarrow> session \<Rightarrow> bool" where
  "lock_moves s p q t \<longleftrightarrow>
     (se_locked t = se_locked s \<and> holds q = holds p)
     \<or> (\<not> se_locked s \<and> se_locked t \<and> holds q)
     \<or> (holds p \<and> \<not> se_locked t \<and> \<not> holds q)"

lemma holds_simps [simp]:
  "holds (p\<lparr>pr_phase := f\<rparr>) = holds p" "holds (p\<lparr>pr_attempt := n\<rparr>) = holds p"
  "holds (p\<lparr>pr_todo := as\<rparr>) \<longleftrightarrow> UnlockController \<in> set as" "holds (ends as p) \<longleftrightarrow> UnlockController \<in> set as"
  by (simp_all add: holds_def ends_def)

lemma session_resize_cases:
  assumes "session_resize n s = (as, t)"
  obtains (Waits) "se_locked s" "as = [ResizePool n]" "t = s"
  | (Same) "\<not> se_locked s" "clamp_max n = pool_size (se_world s)" "as = []" "t = s"
  | (Changes) old new promoted es w where "\<not> se_locked s" "pool_resize n (se_world s) = ((old, new, promoted), es, w)" "new \<noteq> old"
      "as = map Perform es @ (case promoted of None \<Rightarrow> [] | Some r \<Rightarrow> [StartPoolPing r])
        @ [StartSlots old new, UnlockController, SyncPool, PublishMax new]"
      "t = s\<lparr>se_world := w, se_locked := True\<rparr>"
proof -
  obtain old new promoted es w where R: "pool_resize n (se_world s) = ((old, new, promoted), es, w)"
    by (metis prod.exhaust)
  show thesis
  proof (cases "se_locked s")
    case True
    then show thesis using assms by (intro Waits) (simp_all add: session_resize_def)
  next
    case free: False
    show thesis
    proof (cases "new = old")
      case True
      then have "clamp_max n = pool_size (se_world s)" using pool_resize_old_new [of n "se_world s"] R by simp
      then show thesis using assms free True by (intro Same) (simp_all add: session_resize_def R)
    next
      case False
      then show thesis using assms free by (intro Changes [OF free R]) (simp_all add: session_resize_def R)
    qed
  qed
qed

lemma slot_act_lock:
  assumes ok: "todo_ok (a # as)" and R: "slot_act now c a s = (new, t)"
  shows "todo_ok (new @ as) \<and> lock_moves s (p\<lparr>pr_todo := a # as\<rparr>) (p\<lparr>pr_todo := new @ as\<rparr>) t"
proof (cases a)
  case (ResizePool n)
  have as: "as = []" using ok ResizePool by simp
  have "session_resize n s = (new, t)" using R ResizePool by simp
  then show ?thesis
  proof (cases rule: session_resize_cases)
    case (Changes old new promoted es w)
    then show ?thesis by (cases promoted) (simp_all add: as lock_moves_def)
  qed (simp_all add: ResizePool as lock_moves_def)
next
  case (StartPoolPing r)
  then show ?thesis
    using ok R by (auto simp: start_pool_ping_loop_def replace_ping_loop_def Let_def lock_moves_def split: option.splits)
next
  case (StartConnPing r)
  then show ?thesis
    using ok R by (auto simp: start_conn_ping_loop_def Let_def lock_moves_def)
next
  case UnlockController
  then have "list_all plain as" using ok by simp
  moreover have "UnlockController \<notin> set as" using calculation by (auto simp: list_all_iff)
  moreover have "new = []" "t = s\<lparr>se_locked := False\<rparr>" using R UnlockController by simp_all
  ultimately show ?thesis using plain_todo_ok UnlockController by (simp add: lock_moves_def)
next
  case (StartSlots i n)
  then obtain bs where "as = UnlockController # bs" "list_all plain bs" using ok by auto
  then show ?thesis using R StartSlots by (cases "i < n") (auto simp: lock_moves_def)
next
  case (IfControl r)
  then show ?thesis
    using ok R by (cases "is_control_slot (pc_index (heap (se_world s) r)) (cpool (se_world s))") (auto simp: lock_moves_def)
qed (use ok R in \<open>auto simp: lock_moves_def\<close>)

lemma slot_phase_step_lock:
  assumes "pr_todo p = []" and R: "slot_phase_step pr arch ev p s = (q, t)"
  shows "todo_ok (pr_todo q) \<and> \<not> holds q \<and> se_locked t = se_locked s \<and> se_procs t = se_procs s
    \<and> (\<forall>i n. StartSlots i n \<notin> set (pr_todo q))"
proof -
  note simps = holds_def ends_def repair_delay_def slot_top_def slot_join_failed_def slot_joined_def
  have add: ?thesis if "slot_add c now p s = (q, t)" for c now
    using that assms(1) by (auto simp: slot_add_def simps split: prod.splits option.splits if_splits)
  have remove: ?thesis if "slot_remove arch r jitter p s = (q, t)" for r jitter
    using that assms(1)
    by (auto simp: slot_remove_def simps Let_def split: prod.splits option.splits if_splits)
  have read: ?thesis if "read_message pr r sent msg s = (res, t)" "case res of ReadMore as \<Rightarrow> q = p\<lparr>pr_todo := as\<rparr> | ReadFails e \<Rightarrow> q = p\<lparr>pr_phase := ReadDone r\<rparr>"
    for r sent msg res
    using that assms(1)
    by (cases "m_kind msg") (auto simp: read_message_def accept_request_def simps split: option.splits if_splits)
  show ?thesis
  proof (cases ev)
    case (Advance now jitter)
    then show ?thesis using R assms(1) add remove
      by (cases "pr_phase p") (auto simp: simps split: option.splits if_splits)
  next
    case (Received msg sent)
    then show ?thesis using R assms(1) read
      by (cases "pr_phase p") (auto simp: simps split: prod.splits read_result.splits)
  qed (use R assms(1) in \<open>auto simp: simps split: slot_phase.splits sum.splits read_result.splits if_splits\<close>)
qed

lemma slot_act_procs:
  assumes "slot_act now c a s = (new, t)"
  shows "se_procs t = se_procs s \<or> (\<exists>i. se_procs t = se_procs s @ [slot_begin i (se_fresh s) None])"
  using assms start_ping_loops_sel(1) [of _ s new t] start_ping_loops_sel(2) [of c _ s new t]
  by (cases a) (auto simp: session_resize_def Let_def split: if_splits prod.splits)

lemma slot_step_lock:
  assumes ok: "todo_ok (pr_todo p)" and R: "slot_step pr arch ev p s = (q, t)"
  shows "todo_ok (pr_todo q) \<and> lock_moves s p q t
    \<and> (se_procs t = se_procs s \<or> (\<exists>i. se_procs t = se_procs s @ [slot_begin i (se_fresh s) None]))"
proof (cases "pr_todo p")
  case Nil
  then show ?thesis
    using R slot_phase_step_lock [of p pr arch ev s q t] by (simp add: slot_step_def lock_moves_def holds_def)
next
  case (Cons a as)
  show ?thesis
  proof (cases ev)
    case (Advance now jitter)
    obtain new u where act: "slot_act now (pr_ctx p) a s = (new, u)" by (metis prod.exhaust)
    have p: "p\<lparr>pr_todo := a # as\<rparr> = p" using Cons by simp
    have "q = p\<lparr>pr_todo := new @ as\<rparr>" "t = u" using R Cons Advance act by (simp_all add: slot_step_def)
    then show ?thesis
      using slot_act_lock [OF _ act, of as p] slot_act_procs [OF act] ok Cons p by simp
  qed (use R Cons ok in \<open>auto simp: slot_step_def lock_moves_def\<close>)
qed

lemma holders_put:
  assumes "se_procs t = se_procs s \<or> (\<exists>j c k. se_procs t = se_procs s @ [slot_begin j c k])" "i < size (se_procs s)"
  shows "holders (put_proc i q t) = (if holds q then insert i (holders s) else holders s - {i})"
  using assms by (auto simp: holders_def nth_list_update nth_append holds_def split: if_splits)

lemma lock_put_ok:
  assumes ok: "lock_ok s" and i: "i < size (se_procs s)" and q: "todo_ok (pr_todo q)"
    and moves: "lock_moves s (se_procs s ! i) q t"
    and procs: "se_procs t = se_procs s \<or> (\<exists>j c k. se_procs t = se_procs s @ [slot_begin j c k])"
  shows "lock_ok (put_proc i q t)"
proof -
  have "todo_ok (pr_todo p)" if "p \<in> set (se_procs (put_proc i q t))" for p
  proof -
    have "p = q \<or> p \<in> set (se_procs t)" using that set_update_subset_insert [of "se_procs t" i q] by auto
    then show ?thesis using ok q procs by (auto simp: lock_ok_def)
  qed
  moreover have "holds (se_procs s ! i) \<longleftrightarrow> i \<in> holders s" using i by (simp add: holders_def)
  then have "if se_locked t then \<exists>k. holders (put_proc i q t) = {k} else holders (put_proc i q t) = {}"
    using ok moves by (auto simp: holders_put [OF procs i] lock_ok_def lock_moves_def split: if_splits)
  ultimately show ?thesis by (simp add: lock_ok_def)
qed

lemma lock_same:
  assumes "lock_ok s" "se_locked t = se_locked s"
    and "se_procs t = se_procs s \<or> (\<exists>j c k. se_procs t = se_procs s @ [slot_begin j c k])"
  shows "lock_ok t"
proof -
  have "holders t = holders s"
    using assms(3) by (auto simp: holders_def nth_append holds_def split: if_splits)
  then show ?thesis using assms by (auto simp: lock_ok_def)
qed

lemma session_step_others [simp]:
  "se_locked (request_starts k s) = se_locked s" "se_procs (request_starts k s) = se_procs s"
  "se_locked (request_counted k s) = se_locked s" "se_procs (request_counted k s) = se_procs s"
  "se_locked (request_ends k s) = se_locked s" "se_procs (request_ends k s) = se_procs s"
  "se_locked (request_uncounted k s) = se_locked s" "se_procs (request_uncounted k s) = se_procs s"
  "se_locked (request_leaves s) = se_locked s" "se_procs (request_leaves s) = se_procs s"
  "se_locked (ping_loop_ended pg e s) = se_locked s" "se_procs (ping_loop_ended pg e s) = se_procs s"
  "se_locked (end_session s) = se_locked s" "se_procs (end_session s) = se_procs s"
  by (simp_all add: request_starts_def request_counted_def request_ends_def request_uncounted_def request_leaves_def
      ping_loop_ended_def end_session_def Let_def split: prod.split request_stage.split)

lemma start_next_slot_lock: "lock_ok s \<Longrightarrow> lock_ok (start_next_slot s)"
  by (erule lock_same) (auto simp: start_next_slot_def Let_def)

lemma lock_step_ok:
  assumes ok: "lock_ok s"
  shows "lock_ok (session_step pr arch e s)"
proof (cases e)
  case (SlotEvent i ev)
  show ?thesis
  proof (cases "i < size (se_procs s)")
    case True
    obtain q t where R: "slot_step pr arch ev (se_procs s ! i) s = (q, t)" by (metis prod.exhaust)
    have "todo_ok (pr_todo (se_procs s ! i))" using ok True by (simp add: lock_ok_def)
    then have "lock_ok (put_proc i q t)"
      using slot_step_lock [OF _ R] by (intro lock_put_ok [OF ok True]) blast+
    then show ?thesis using True by (simp add: SlotEvent R put_proc_def)
  qed (simp add: SlotEvent ok)
qed (use start_next_slot_lock ok in \<open>auto intro!: lock_same [OF ok] simp: close_conn_def\<close>)

interpretation locks: machine "session_step pr arch" "\<lambda>_ _. True" lock_ok
  for pr arch
  by unfold_locales (rule lock_step_ok)

lemma start_session_lock: "lock_ok (start_session h addr ack control now cl)"
  by (simp add: lock_ok_def holders_def)

section \<open>The owners of the slots\<close>

abbreviation cancel_of :: "session \<Rightarrow> nat \<Rightarrow> cancel_id option" where
  "cancel_of s i \<equiv> slot_cancels (cpool (se_world s)) ! i"

abbreviation slot_count :: "session \<Rightarrow> nat" where
  "slot_count s \<equiv> size (slot_cancels (cpool (se_world s)))"

definition cancelling :: "session \<Rightarrow> cancel_id \<Rightarrow> bool" where
  "cancelling s c \<longleftrightarrow> (\<exists>k \<in> holders s. Perform (CancelCall c) \<in> set (pr_todo (se_procs s ! k)))"

definition live :: "session \<Rightarrow> slot_proc \<Rightarrow> bool" where
  "live s p \<longleftrightarrow> \<not> ctx_done (pr_ctx p) s \<and> pr_index p < max_pool_connections"

text \<open>
  The context of a live goroutine is in its slot; a slot beyond the end was taken away by a
  resize that is about to cancel it.
\<close>

definition slots_owned :: "session \<Rightarrow> bool" where
  "slots_owned s \<longleftrightarrow>
     (\<forall>p \<in> set (se_procs s). live s p \<longrightarrow>
        (if nat (pr_index p) < slot_count s then cancel_of s (nat (pr_index p)) = Some (pr_ctx p)
         else cancelling s (pr_ctx p)))
     \<and> (\<forall>p \<in> set (se_procs s). \<forall>q \<in> set (se_procs s).
          live s p \<and> live s q \<and> pr_index p = pr_index q \<longrightarrow> pr_ctx p = pr_ctx q)"

definition vacant :: "session \<Rightarrow> go_int \<Rightarrow> bool" where
  "vacant s i \<longleftrightarrow> 0 \<le> i \<and> (i < int (slot_count s) \<and> cancel_of s (nat i) = None \<or> max_pool_connections \<le> i)"

definition starts_vacant :: "session \<Rightarrow> bool" where
  "starts_vacant s \<longleftrightarrow>
     (\<forall>p \<in> set (se_procs s). \<forall>i n j. StartSlots i n \<in> set (pr_todo p) \<and> i \<le> j \<and> j < n \<longrightarrow> vacant s j)
     \<and> (\<not> started s \<longrightarrow>
          (\<forall>j. se_next_slot s \<le> j \<and> j < se_granted s \<longrightarrow> vacant s j)
          \<and> (\<forall>p \<in> set (se_procs s). \<forall>i n. ResizePool n \<notin> set (pr_todo p) \<and> StartSlots i n \<notin> set (pr_todo p)))"

definition owners_ok :: "session \<Rightarrow> bool" where
  "owners_ok s \<longleftrightarrow> slots_owned s \<and> starts_vacant s"

text \<open>
  A new grant that arrives while the goroutines of the first one are still being started is left
  out here.
\<close>

fun no_early_grant :: "session_event \<Rightarrow> session \<Rightarrow> bool" where
  "no_early_grant (SlotEvent i (Received msg e)) s \<longleftrightarrow> (m_kind msg = MsgMaxConnectionsUpdate \<longrightarrow> started s)"
| "no_early_grant _ s \<longleftrightarrow> True"

text \<open>A step that leaves the slots alone and starts no goroutine.\<close>

definition continues :: "session \<Rightarrow> slot_proc \<Rightarrow> slot_proc \<Rightarrow> bool" where
  "continues s q p \<longleftrightarrow> pr_ctx q = pr_ctx p \<and> pr_index q = pr_index p
     \<and> (\<forall>i n. StartSlots i n \<in> set (pr_todo p) \<longrightarrow> StartSlots i n \<in> set (pr_todo q))
     \<and> (\<forall>n. ResizePool n \<in> set (pr_todo p) \<longrightarrow> started s \<or> ResizePool n \<in> set (pr_todo q))"

definition calm :: "session \<Rightarrow> session \<Rightarrow> bool" where
  "calm s t \<longleftrightarrow> slot_cancels (cpool (se_world t)) = slot_cancels (cpool (se_world s))
     \<and> se_next_slot t = se_next_slot s \<and> se_granted t = se_granted s
     \<and> (\<forall>c. ctx_done c s \<longrightarrow> ctx_done c t)
     \<and> (\<forall>c. cancelling s c \<longrightarrow> cancelling t c \<or> ctx_done c t)
     \<and> (\<forall>p \<in> set (se_procs t). \<exists>q \<in> set (se_procs s). continues s q p)"

lemma slots_owned_cong:
  assumes ok: "slots_owned s" and sc: "slot_cancels (cpool (se_world t)) = slot_cancels (cpool (se_world s))"
    and canc: "\<And>c. cancelling s c \<Longrightarrow> cancelling t c \<or> ctx_done c t"
    and old: "\<And>p. p \<in> set (se_procs t) \<Longrightarrow> live t p \<Longrightarrow>
      \<exists>q \<in> set (se_procs s). pr_ctx q = pr_ctx p \<and> pr_index q = pr_index p \<and> live s q"
  shows "slots_owned t"
  unfolding slots_owned_def
proof (intro conjI ballI impI)
  fix p assume p: "p \<in> set (se_procs t)" and l: "live t p"
  obtain q where q: "q \<in> set (se_procs s)" "pr_ctx q = pr_ctx p" "pr_index q = pr_index p" "live s q"
    using old [OF p l] by blast
  have "cancelling t (pr_ctx p)" if "cancelling s (pr_ctx p)"
    using canc [OF that] l by (simp add: live_def)
  moreover have "if nat (pr_index q) < slot_count s then cancel_of s (nat (pr_index q)) = Some (pr_ctx q)
      else cancelling s (pr_ctx q)"
    using ok q(1,4) unfolding slots_owned_def by blast
  ultimately show "if nat (pr_index p) < slot_count t then cancel_of t (nat (pr_index p)) = Some (pr_ctx p)
      else cancelling t (pr_ctx p)"
    unfolding sc q(2,3) by (auto split: if_splits)
next
  fix p p' assume pp: "p \<in> set (se_procs t)" "p' \<in> set (se_procs t)" and l: "live t p \<and> live t p' \<and> pr_index p = pr_index p'"
  obtain q where q: "q \<in> set (se_procs s)" "pr_ctx q = pr_ctx p" "pr_index q = pr_index p" "live s q"
    using old [OF pp(1)] l by blast
  obtain q' where q': "q' \<in> set (se_procs s)" "pr_ctx q' = pr_ctx p'" "pr_index q' = pr_index p'" "live s q'"
    using old [OF pp(2)] l by blast
  have "pr_index q = pr_index q'" using q(3) q'(3) l by simp
  then have "pr_ctx q = pr_ctx q'" using ok q(1,4) q'(1,4) unfolding slots_owned_def by blast
  then show "pr_ctx p = pr_ctx p'" using q(2) q'(2) by simp
qed

lemma calm_owners_ok:
  assumes ok: "owners_ok s" and calm: "calm s t"
  shows "owners_ok t"
proof -
  have sc: "slot_cancels (cpool (se_world t)) = slot_cancels (cpool (se_world s))"
    and starts: "se_next_slot t = se_next_slot s" "se_granted t = se_granted s"
    and ended: "\<And>c. ctx_done c s \<Longrightarrow> ctx_done c t"
    and canc: "\<And>c. cancelling s c \<Longrightarrow> cancelling t c \<or> ctx_done c t"
    and old: "\<And>p. p \<in> set (se_procs t) \<Longrightarrow> \<exists>q \<in> set (se_procs s). continues s q p"
    using calm unfolding calm_def by blast+
  have vac: "vacant t j = vacant s j" and started: "started t = started s" for j
    by (simp_all add: vacant_def sc started_def starts)
  have "slots_owned t"
  proof (rule slots_owned_cong [OF _ sc canc])
    show "slots_owned s" using ok by (simp add: owners_ok_def)
  next
    fix p assume p: "p \<in> set (se_procs t)" and l: "live t p"
    obtain q where q: "q \<in> set (se_procs s)" "continues s q p" using old [OF p] by blast
    then have "live s q" using l ended [of "pr_ctx q"] by (auto simp: live_def continues_def)
    then show "\<exists>q \<in> set (se_procs s). pr_ctx q = pr_ctx p \<and> pr_index q = pr_index p \<and> live s q"
      using q by (auto simp: continues_def)
  qed
  moreover have "starts_vacant t"
    unfolding starts_vacant_def
  proof (intro conjI ballI allI impI)
    fix p i n j assume p: "p \<in> set (se_procs t)" and j: "StartSlots i n \<in> set (pr_todo p) \<and> i \<le> j \<and> j < n"
    obtain q where "q \<in> set (se_procs s)" "continues s q p" using old [OF p] by blast
    then show "vacant t j" using j ok unfolding vac owners_ok_def starts_vacant_def continues_def by blast
  next
    fix j assume "\<not> started t" "se_next_slot t \<le> j \<and> j < se_granted t"
    then show "vacant t j" using ok by (simp add: vac started starts owners_ok_def starts_vacant_def)
  next
    fix p i n assume n: "\<not> started t" and p: "p \<in> set (se_procs t)"
    obtain q where "q \<in> set (se_procs s)" "continues s q p" using old [OF p] by blast
    then show "ResizePool n \<notin> set (pr_todo p)" "StartSlots i n \<notin> set (pr_todo p)"
      using n ok unfolding started owners_ok_def starts_vacant_def continues_def by blast+
  qed
  ultimately show ?thesis by (simp add: owners_ok_def)
qed

text \<open>What most steps leave alone.\<close>

definition slots_kept :: "session \<Rightarrow> session \<Rightarrow> bool" where
  "slots_kept s t \<longleftrightarrow> slot_cancels (cpool (se_world t)) = slot_cancels (cpool (se_world s))
     \<and> se_next_slot t = se_next_slot s \<and> se_granted t = se_granted s
     \<and> (\<forall>c. ctx_done c s \<longrightarrow> ctx_done c t)"

lemma slots_kept_refl [simp]: "slots_kept s s"
  by (simp add: slots_kept_def)

lemma slots_kept_simps [simp]:
  "slots_kept s (publish f s)" "slots_kept s (apply_effect e s)" "slots_kept s (send_err x s)"
  "slots_kept s (s\<lparr>se_failures := n\<rparr>)" "slots_kept s (s\<lparr>se_pings := ps\<rparr>)" "slots_kept s (s\<lparr>se_locked := l\<rparr>)"
  "slots_kept s (s\<lparr>se_sent := ms\<rparr>)" "slots_kept s (s\<lparr>se_world := last_pong_store r now (se_world s)\<rparr>)"
  by (auto simp: slots_kept_def ctx_done_def)

lemma continues_refl [simp]: "continues s p p"
  by (simp add: continues_def)

lemma same_procs_calm: "slots_kept s t \<Longrightarrow> se_procs t = se_procs s \<Longrightarrow> calm s t"
  by (auto simp: calm_def slots_kept_def cancelling_def holders_def intro: continues_refl)

lemma cancelling_put:
  assumes i: "i < size (se_procs s)" and procs: "se_procs t = se_procs s" and c: "cancelling s c"
    and canc: "holds (se_procs s ! i) \<Longrightarrow> Perform (CancelCall c) \<in> set (pr_todo (se_procs s ! i)) \<Longrightarrow>
      holds q \<and> Perform (CancelCall c) \<in> set (pr_todo q) \<or> ctx_done c t"
  shows "cancelling (put_proc i q t) c \<or> ctx_done c (put_proc i q t)"
proof -
  let ?u = "put_proc i q t"
  from c obtain k where k: "k < size (se_procs s)" "holds (se_procs s ! k)"
      "Perform (CancelCall c) \<in> set (pr_todo (se_procs s ! k))"
    by (auto simp: cancelling_def holders_def)
  show ?thesis
  proof (cases "k = i")
    case True
    then show ?thesis
      using canc k i procs by (auto simp: cancelling_def holders_def ctx_done_def)
  next
    case False
    then have "k \<in> holders ?u" "se_procs ?u ! k = se_procs s ! k" using k procs by (auto simp: holders_def)
    then show ?thesis using k unfolding cancelling_def by metis
  qed
qed

lemma put_calm:
  assumes i: "i < size (se_procs s)" and kept: "slots_kept s t" and procs: "se_procs t = se_procs s"
    and q: "continues s (se_procs s ! i) q"
    and canc: "\<And>c. holds (se_procs s ! i) \<Longrightarrow> Perform (CancelCall c) \<in> set (pr_todo (se_procs s ! i)) \<Longrightarrow>
      holds q \<and> Perform (CancelCall c) \<in> set (pr_todo q) \<or> ctx_done c t"
  shows "calm s (put_proc i q t)"
proof -
  let ?u = "put_proc i q t"
  have "cancelling ?u c \<or> ctx_done c ?u" if "cancelling s c" for c
    by (rule cancelling_put [OF i procs that canc])
  moreover have "\<exists>r \<in> set (se_procs s). continues s r p" if "p \<in> set (se_procs ?u)" for p
  proof -
    have "p = q \<or> p \<in> set (se_procs s)" using that procs set_update_subset_insert [of "se_procs s" i q] by auto
    then show ?thesis using q nth_mem [OF i] continues_refl by blast
  qed
  ultimately show ?thesis using kept by (simp add: calm_def slots_kept_def ctx_done_def)
qed

text \<open>The steps of goroutines that are not calm: a resize takes effect or starts a goroutine.\<close>

fun resizes :: "slot_action \<Rightarrow> session \<Rightarrow> bool" where
  "resizes (ResizePool n) s \<longleftrightarrow> \<not> se_locked s \<and> clamp_max n \<noteq> pool_size (se_world s)"
| "resizes (StartSlots i n) s \<longleftrightarrow> i < n"
| "resizes _ s \<longleftrightarrow> False"

lemma slot_act_kept:
  assumes R: "slot_act now c a s = (new, t)" and calm: "\<not> resizes a s"
  shows "slots_kept s t \<and> se_procs t = se_procs s \<and> (\<forall>i n. StartSlots i n \<notin> set new)
    \<and> (\<forall>n. ResizePool n \<in> set new \<longrightarrow> a = ResizePool n)"
proof (cases a)
  case (ResizePool n)
  have "session_resize n s = (new, t)" using R ResizePool by simp
  then show ?thesis
  proof (cases rule: session_resize_cases)
    case (Changes old new promoted es w)
    then show ?thesis using calm pool_resize_old_new [of n "se_world s"] by (simp add: ResizePool)
  qed (simp_all add: ResizePool)
next
  case (StartPoolPing r)
  then have "start_pool_ping_loop r s = (new, t)" using R by simp
  then show ?thesis
    using start_ping_loops_sel(1) [of r s new t]
    by (auto simp: slots_kept_def ctx_done_def start_pool_ping_loop_def replace_ping_loop_def Let_def split: option.splits)
next
  case (StartConnPing r)
  then have "start_conn_ping_loop c r s = (new, t)" using R by simp
  then show ?thesis
    using start_ping_loops_sel(2) [of c r s new t]
    by (auto simp: slots_kept_def ctx_done_def start_conn_ping_loop_def Let_def)
qed (use R calm in \<open>auto split: if_splits\<close>)

lemma slot_phase_step_kept:
  assumes "pr_todo p = []" and R: "slot_phase_step pr arch ev p s = (q, t)"
  shows "slots_kept s t \<and> se_procs t = se_procs s \<and> pr_ctx q = pr_ctx p \<and> pr_index q = pr_index p
    \<and> (\<forall>n. ResizePool n \<in> set (pr_todo q) \<longrightarrow> (\<exists>msg e. ev = Received msg e \<and> m_kind msg = MsgMaxConnectionsUpdate))"
proof -
  note simps = ends_def repair_delay_def slot_top_def slot_join_failed_def slot_joined_def
  have add: ?thesis if "slot_add c now p s = (q, t)" for c now
    using that assms(1)
    by (auto simp: slot_add_def simps slots_kept_def ctx_done_def pool_add_def Let_def split: prod.splits option.splits if_splits)
  have remove: ?thesis if R: "slot_remove arch r jitter p s = (q, t)" for r jitter
  proof -
    obtain remaining promoted lost ew where P: "pool_remove (pr_index p) (se_world s) = ((remaining, promoted, lost), ew)"
      by (metis prod.exhaust)
    have "slot_cancels (cpool (snd ew)) = slot_cancels (cpool (se_world s))"
      using arg_cong [OF P, of "\<lambda>x. slot_cancels (cpool (snd (snd x)))"]
      by (simp add: pool_remove_def Let_def case_prod_beta split: option.splits if_splits)
    then have "slots_kept s (with_pool ew s)" by (auto simp: slots_kept_def ctx_done_def)
    then show ?thesis
      using R assms(1) by (cases promoted) (auto simp: slot_remove_def P simps Let_def split: if_splits)
  qed
  have read: ?thesis if "read_message pr r sent msg s = (res, t)" "ev = Received msg e"
      "case res of ReadMore as \<Rightarrow> q = p\<lparr>pr_todo := as\<rparr> | ReadFails e \<Rightarrow> q = p\<lparr>pr_phase := ReadDone r\<rparr>"
    for r sent msg res e
    using that assms(1)
    by (cases "m_kind msg")
      (auto simp: read_message_def accept_request_def slots_kept_def ctx_done_def split: option.splits if_splits)
  show ?thesis
  proof (cases ev)
    case (Advance now jitter)
    then show ?thesis using R assms(1) add remove
      by (cases "pr_phase p") (auto simp: simps split: option.splits if_splits)
  next
    case (Received msg sent)
    then show ?thesis using R assms(1) read
      by (cases "pr_phase p") (auto simp: simps split: prod.splits read_result.splits)
  qed (use R assms(1) in \<open>auto simp: simps split: slot_phase.splits sum.splits read_result.splits if_splits\<close>)
qed

lemma slot_step_calm:
  assumes i: "i < size (se_procs s)" and R: "slot_step pr arch ev (se_procs s ! i) s = (q, t)"
    and ok: "todo_ok (pr_todo (se_procs s ! i))"
    and guard: "no_early_grant (SlotEvent i ev) s"
    and calm: "\<And>a as now jitter. pr_todo (se_procs s ! i) = a # as \<Longrightarrow> ev = Advance now jitter \<Longrightarrow> \<not> resizes a s"
  shows "calm s (put_proc i q t)"
proof (cases "pr_todo (se_procs s ! i)")
  case Nil
  have step: "slot_phase_step pr arch ev (se_procs s ! i) s = (q, t)" using R Nil by (simp add: slot_step_def)
  note kept = slot_phase_step_kept [OF Nil step] and lock = slot_phase_step_lock [OF Nil step]
  have "continues s (se_procs s ! i) q" using kept lock guard by (auto simp: continues_def)
  then show ?thesis using kept Nil by (intro put_calm [OF i]) simp_all
next
  case (Cons a as)
  show ?thesis
  proof (cases "\<exists>now jitter. ev = Advance now jitter")
    case True
    then obtain now jitter where ev: "ev = Advance now jitter" by blast
    obtain new u where act: "slot_act now (pr_ctx (se_procs s ! i)) a s = (new, u)" by (metis prod.exhaust)
    have q: "q = (se_procs s ! i)\<lparr>pr_todo := new @ as\<rparr>" and t: "t = u"
      using R Cons ev act by (simp_all add: slot_step_def)
    note kept = slot_act_kept [OF act calm [OF Cons ev]]
    have "continues s (se_procs s ! i) q" using kept by (auto simp: continues_def q Cons)
    moreover have "holds q \<and> Perform (CancelCall c) \<in> set (pr_todo q) \<or> ctx_done c t"
      if h: "holds (se_procs s ! i)" and c: "Perform (CancelCall c) \<in> set (pr_todo (se_procs s ! i))" for c
    proof (cases "a = Perform (CancelCall c)")
      case True
      then show ?thesis using act t by (auto simp: ctx_done_def)
    next
      case False
      then have "Perform (CancelCall c) \<in> set as" using c Cons by simp
      moreover from this have "a \<noteq> UnlockController" using ok Cons by (fastforce simp: list_all_iff)
      ultimately show ?thesis using h Cons by (simp add: q holds_def)
    qed
    ultimately show ?thesis using kept t by (intro put_calm [OF i]) simp_all
  next
    case False
    then have "q = se_procs s ! i" "t = s" using R Cons by (cases ev; simp add: slot_step_def)+
    then show ?thesis by (intro put_calm [OF i]) simp_all
  qed
qed

section \<open>Resizes and starts\<close>

lemma start_slot_cancelling [simp]: "cancelling (start_slot j c s) d = cancelling s d"
  by (auto simp: cancelling_def holders_def nth_append holds_def split: if_splits)

lemma start_slot_slots:
  "0 \<le> j \<Longrightarrow> slot_cancels (cpool (se_world (start_slot j c s))) =
     (if j < int (slot_count s) then (slot_cancels (cpool (se_world s)))[nat j := Some (se_fresh s)]
      else slot_cancels (cpool (se_world s)))"
  by (simp add: set_slot_cancel_sel)

lemma start_slot_vacant: "0 \<le> j \<Longrightarrow> vacant s k \<Longrightarrow> k \<noteq> j \<Longrightarrow> vacant (start_slot j c s) k"
  by (auto simp: vacant_def start_slot_slots nth_list_update simp del: start_slot_sel)

lemma start_slot_owned:
  assumes own: "slots_owned s" and free: "vacant s j"
  shows "slots_owned (start_slot j c s)"
proof -
  let ?u = "start_slot j c s" and ?f = "se_fresh s"
  have j: "0 \<le> j" using free by (simp add: vacant_def)
  note slots = start_slot_slots [OF j, of c s]
  have live: "live ?u p = live s p" for p by (simp add: live_def ctx_done_def)
  have owned: "if nat (pr_index p) < slot_count s then cancel_of s (nat (pr_index p)) = Some (pr_ctx p)
      else cancelling s (pr_ctx p)" if "p \<in> set (se_procs s)" "live s p" for p
    using own that unfolding slots_owned_def by blast
  have taken: "nat (pr_index p) \<noteq> nat j \<or> \<not> j < int (slot_count s)" if "p \<in> set (se_procs s)" "live s p" for p
  proof (cases "max_pool_connections \<le> j")
    case True
    then show ?thesis using that(2) by (auto simp: live_def max_pool_connections_def)
  next
    case False
    then show ?thesis using owned [OF that] free by (auto simp: vacant_def split: if_splits)
  qed
  have new: "j < int (slot_count s)" if "live s (slot_begin j ?f c)"
    using that free by (simp add: vacant_def live_def)
  have procs: "p \<in> set (se_procs ?u) \<longleftrightarrow> p \<in> set (se_procs s) \<or> p = slot_begin j ?f c" for p by auto
  show ?thesis
    unfolding slots_owned_def
  proof (intro conjI ballI impI)
    fix p assume "p \<in> set (se_procs ?u)" and "live ?u p"
    then consider (old) "p \<in> set (se_procs s)" "live s p" | (new) "p = slot_begin j ?f c" "live s p"
      unfolding procs live by blast
    then show "if nat (pr_index p) < slot_count ?u then cancel_of ?u (nat (pr_index p)) = Some (pr_ctx p)
        else cancelling ?u (pr_ctx p)"
    proof cases
      case old
      show ?thesis
        unfolding slots using owned [OF old] taken [OF old] by (auto simp: nth_list_update split: if_splits)
    next
      case new
      then show ?thesis using \<open>live s (slot_begin j ?f c) \<Longrightarrow> j < int (slot_count s)\<close> j unfolding slots by auto
    qed
  next
    fix p q assume pq: "p \<in> set (se_procs ?u)" "q \<in> set (se_procs ?u)" and l: "live ?u p \<and> live ?u q \<and> pr_index p = pr_index q"
    have clash: False if "r \<in> set (se_procs s)" "live s r" "pr_index r = j" "live s (slot_begin j ?f c)" for r
      using taken [OF that(1,2)] that(3) new [OF that(4)] by simp
    show "pr_ctx p = pr_ctx q"
      using pq l clash own unfolding procs live slots_owned_def by (metis slot_begin_sel(1))
  qed
qed

lemma slot_count_pool_size: "pool_ok w \<Longrightarrow> size (slot_cancels (cpool w)) = nat (pool_size w) \<and> 0 < pool_size w"
  using pool_okD [of w] by (auto simp: pool_size_def pool_len_def)

text \<open>
  A resize finds all live goroutines in their slots. Those of the slots it takes away are the
  ones it is about to cancel.
\<close>

lemma resize_owners_ok:
  assumes ok: "session_ok s" and lock: "lock_ok s" and own: "owners_ok s" and i: "i < size (se_procs s)"
    and todo: "pr_todo (se_procs s ! i) = [ResizePool n]" and free: "\<not> se_locked s"
    and R: "pool_resize n (se_world s) = ((old, new, promoted), es, w)"
    and as: "as = map Perform es @ (case promoted of None \<Rightarrow> [] | Some r \<Rightarrow> [StartPoolPing r])
        @ [StartSlots old new, UnlockController, SyncPool, PublishMax new]"
  shows "owners_ok (put_proc i ((se_procs s ! i)\<lparr>pr_todo := as\<rparr>) (s\<lparr>se_world := w, se_locked := True\<rparr>))"
proof -
  let ?p = "se_procs s ! i" and ?q = "(se_procs s ! i)\<lparr>pr_todo := as\<rparr>"
  let ?u = "put_proc i ?q (s\<lparr>se_world := w, se_locked := True\<rparr>)"
  have world: "pool_ok (se_world s)" using ok by (simp add: session_ok_def)
  have w: "pool_ok w" using pool_resize_ok [OF world, of n] R by simp
  have op: "pool_op (nat (min new old)) (se_world s) (es, w)"
    using pool_resize_op [OF world, of n] pool_resize_old_new [of n "se_world s"] R by simp
  have count: "slot_count s = nat old" "0 < old" "size (slot_cancels (cpool w)) = nat new" "0 < new"
    using slot_count_pool_size [OF world] slot_count_pool_size [OF w] pool_resize_slots [OF world, of n 0]
      pool_resize_old_new [of n "se_world s"] R by simp_all
  have sc: "slot_cancels (cpool w) ! k = (if k < nat old then cancel_of s k else None)" if "k < nat new" for k
    using op that count by (auto simp: pool_op_def split: if_splits)
  have noone: "holders s = {}" using lock free by (simp add: lock_ok_def)
  then have none: "\<not> cancelling s c" for c by (simp add: cancelling_def)
  have started: "started s"
    using own nth_mem [OF i] todo unfolding owners_ok_def starts_vacant_def by fastforce
  have holds: "i \<in> holders ?u" "se_procs ?u ! i = ?q" using i by (auto simp: holders_def as)
  have live: "live ?u r = live s r" for r by (simp add: live_def ctx_done_def)
  have procs: "r \<in> set (se_procs s) \<or> r = ?q" if "r \<in> set (se_procs ?u)" for r
    using that set_update_subset_insert [of "se_procs s" i ?q] by auto
  have old: "\<exists>r' \<in> set (se_procs s). pr_ctx r' = pr_ctx r \<and> pr_index r' = pr_index r \<and> live s r'"
    if "r \<in> set (se_procs ?u)" "live ?u r" for r
    using procs [OF that(1)] that(2) nth_mem [OF i] by (auto simp: live_def ctx_done_def)
  have owned: "nat (pr_index r) < nat old \<and> cancel_of s (nat (pr_index r)) = Some (pr_ctx r)"
    if "r \<in> set (se_procs s)" "live s r" for r
    using own that none count(1) unfolding owners_ok_def slots_owned_def by (metis (full_types))
  have "slots_owned ?u"
    unfolding slots_owned_def
  proof (intro conjI ballI impI)
    fix r assume r: "r \<in> set (se_procs ?u)" "live ?u r"
    obtain r' where r': "r' \<in> set (se_procs s)" "pr_ctx r' = pr_ctx r" "pr_index r' = pr_index r" "live s r'"
      using old [OF r] by blast
    let ?k = "nat (pr_index r)"
    have k: "?k < nat old" "cancel_of s ?k = Some (pr_ctx r)" using owned [OF r'(1,4)] r'(2,3) by simp_all
    show "if ?k < slot_count ?u then cancel_of ?u ?k = Some (pr_ctx r) else cancelling ?u (pr_ctx r)"
    proof (cases "?k < nat new")
      case True
      then show ?thesis using sc [OF True] k count(3) by simp
    next
      case False
      then have "nat (min new old) \<le> ?k \<and> ?k < slot_count s" using k(1) count(1) by linarith
      then have "pr_ctx r \<in> slot_cancels_from (nat (min new old)) (se_world s)"
        using k(2) unfolding slot_cancels_from_def by blast
      then have "CancelCall (pr_ctx r) \<in> set es" using op by (auto simp: pool_op_def cancels_def)
      then have "cancelling ?u (pr_ctx r)" using holds unfolding cancelling_def by (intro bexI [of _ i]) (auto simp: as)
      then show ?thesis using False count(3,4) by simp
    qed
  next
    fix r r' assume r: "r \<in> set (se_procs ?u)" "r' \<in> set (se_procs ?u)" "live ?u r \<and> live ?u r' \<and> pr_index r = pr_index r'"
    obtain a where a: "a \<in> set (se_procs s)" "pr_ctx a = pr_ctx r" "pr_index a = pr_index r" "live s a"
      using old [OF r(1)] r(3) by blast
    obtain b where b: "b \<in> set (se_procs s)" "pr_ctx b = pr_ctx r'" "pr_index b = pr_index r'" "live s b"
      using old [OF r(2)] r(3) by blast
    show "pr_ctx r = pr_ctx r'" using owned [OF a(1,4)] owned [OF b(1,4)] a b r(3) by simp
  qed
  moreover have "starts_vacant ?u"
  proof -
    have "vacant ?u j" if "r \<in> set (se_procs ?u)" "StartSlots k m \<in> set (pr_todo r)" "k \<le> j" "j < m" for r k m j
    proof -
      have "r = ?q"
      proof (rule ccontr)
        assume "r \<noteq> ?q"
        then have r: "r \<in> set (se_procs s)" using procs [OF that(1)] by blast
        then have "UnlockController \<in> set (pr_todo r)"
          using that(2) todo_ok_start lock unfolding lock_ok_def by blast
        then show False using r noone by (auto simp: holders_def holds_def in_set_conv_nth)
      qed
      then have "k = old" "m = new" using that(2) by (auto simp: as split: option.splits)
      then show ?thesis using that(3,4) sc [of "nat j"] count by (simp add: vacant_def)
    qed
    moreover have "started ?u" using started by (simp add: started_def)
    ultimately show ?thesis unfolding starts_vacant_def by blast
  qed
  ultimately show ?thesis by (simp add: owners_ok_def)
qed

text \<open>A resize starts a goroutine in a slot that has none.\<close>

lemma start_owners_ok:
  assumes lock: "lock_ok s" and own: "owners_ok s" and i: "i < size (se_procs s)"
    and todo: "pr_todo (se_procs s ! i) = StartSlots j n # as" and j: "j < n"
  shows "owners_ok (put_proc i ((se_procs s ! i)\<lparr>pr_todo := StartSlots (j + 1) n # as\<rparr>) (start_slot j None s))"
proof -
  let ?p = "se_procs s ! i" and ?q = "(se_procs s ! i)\<lparr>pr_todo := StartSlots (j + 1) n # as\<rparr>"
  let ?t = "start_slot j None s"
  let ?u = "put_proc i ?q ?t"
  have p: "?p \<in> set (se_procs s)" using i by simp
  have shape: "todo_ok (StartSlots j n # as)" using lock p todo by (auto simp: lock_ok_def)
  then obtain bs where bs: "as = UnlockController # bs" "list_all plain bs" by auto
  then have quiet: "Perform e \<notin> set (pr_todo ?p)" "Perform e \<notin> set as" "StartSlots k m \<notin> set as" for e k m
    by (auto simp: todo list_all_iff)
  have vacant: "vacant s k" if "j \<le> k" "k < n" for k
    using own p todo that unfolding owners_ok_def starts_vacant_def by (metis list.set_intros(1))
  have started: "started s" using own p todo unfolding owners_ok_def starts_vacant_def by (metis list.set_intros(1))
  have jn: "0 \<le> j" using vacant [of j] j by (simp add: vacant_def)
  have only: "l = i" if "l < size (se_procs s)" "StartSlots k m \<in> set (pr_todo (se_procs s ! l))" for l k m
  proof -
    have "todo_ok (pr_todo (se_procs s ! l))" using that(1) lock by (simp add: lock_ok_def)
    then have "UnlockController \<in> set (pr_todo (se_procs s ! l))" using that(2) by (rule todo_ok_start)
    then have "l \<in> holders s" "i \<in> holders s" using that(1) i todo bs by (simp_all add: holders_def holds_def)
    then show ?thesis using lock by (auto simp: lock_ok_def split: if_splits)
  qed
  have it: "i < size (se_procs ?t)" "se_procs ?t ! i = ?p" using i by (simp_all add: nth_append)
  have procs: "r = ?q \<or> r \<in> set (se_procs ?t)" if "r \<in> set (se_procs ?u)" for r
    using that set_update_subset_insert [of "se_procs ?t" i ?q] by auto
  have "slots_owned ?t" using own vacant [of j] j by (intro start_slot_owned) (simp_all add: owners_ok_def)
  then have "slots_owned ?u"
  proof (rule slots_owned_cong)
    show "slot_cancels (cpool (se_world ?u)) = slot_cancels (cpool (se_world ?t))" by simp
  next
    fix c assume "cancelling ?t c"
    then show "cancelling ?u c \<or> ctx_done c ?u"
      by (rule cancelling_put [OF it(1) refl]) (use quiet(1) in \<open>simp only: it(2)\<close>)
  next
    fix r assume r: "r \<in> set (se_procs ?u)" "live ?u r"
    then have "live ?t r" by (simp add: live_def ctx_done_def)
    moreover have "live ?t ?p" if "r = ?q" using that \<open>live ?t r\<close> by (simp add: live_def ctx_done_def)
    ultimately show "\<exists>r' \<in> set (se_procs ?t). pr_ctx r' = pr_ctx r \<and> pr_index r' = pr_index r \<and> live ?t r'"
      using procs [OF r(1)] p by (cases "r = ?q") (force, blast)
  qed
  moreover have "starts_vacant ?u"
  proof -
    have "vacant ?u k" if r: "r \<in> set (se_procs ?u)" "StartSlots l m \<in> set (pr_todo r)" "l \<le> k" "k < m" for r l m k
    proof -
      obtain x where x: "x < size (se_procs ?u)" "r = se_procs ?u ! x" using r(1) unfolding in_set_conv_nth by blast
      have "x = i"
      proof (rule ccontr)
        assume "x \<noteq> i"
        then have "r = (se_procs s @ [slot_begin j (se_fresh s) None]) ! x" using x by simp
        then have "x < size (se_procs s)" "r = se_procs s ! x" using r(2) x(1) by (auto simp: nth_append less_Suc_eq)
        then show False using only r(2) \<open>x \<noteq> i\<close> by blast
      qed
      then have "r = ?q" using x(2) it(1) by simp
      then have "l = j + 1 \<and> m = n" using r(2) quiet(3) by auto
      then have "vacant s k" "k \<noteq> j" using vacant [of k] r(3,4) by simp_all
      then have "vacant ?t k" by (rule start_slot_vacant [OF jn])
      then show ?thesis by (simp add: vacant_def)
    qed
    moreover have "started ?u" using started by (simp add: started_def)
    ultimately show ?thesis unfolding starts_vacant_def by blast
  qed
  ultimately show ?thesis by (simp add: owners_ok_def)
qed

lemma start_next_slot_owners:
  assumes own: "owners_ok s"
  shows "owners_ok (start_next_slot s)"
proof (cases "started s \<or> se_locked s")
  case False
  let ?j = "se_next_slot s" and ?c = "if se_next_slot s = 0 then Some (se_control s) else None"
  let ?t = "start_slot ?j ?c s" and ?u = "start_next_slot s"
  have u: "?u = ?t\<lparr>se_next_slot := ?j + 1\<rparr>" using False by (simp add: start_next_slot_def Let_def)
  have quiet: "ResizePool n \<notin> set (pr_todo p)" "StartSlots i n \<notin> set (pr_todo p)" if "p \<in> set (se_procs s)" for p i n
    using own False that unfolding owners_ok_def starts_vacant_def by blast+
  have vac: "vacant s k" if "?j \<le> k" "k < se_granted s" for k
    using own False that unfolding owners_ok_def starts_vacant_def by blast
  have free: "vacant s ?j" using vac [of ?j] False by (simp add: started_def)
  then have j: "0 \<le> ?j" by (simp add: vacant_def)
  have "slots_owned ?t" using own free by (intro start_slot_owned) (simp_all add: owners_ok_def)
  then have "slots_owned ?u"
    by (rule slots_owned_cong) (auto simp: u cancelling_def holders_def live_def ctx_done_def nth_append)
  moreover have "vacant ?u k" if "?j + 1 \<le> k" "k < se_granted s" for k
  proof -
    have "vacant ?t k" using start_slot_vacant [OF j vac [of k]] that by simp
    then show ?thesis by (simp add: u vacant_def)
  qed
  moreover have "ResizePool n \<notin> set (pr_todo p)" "StartSlots i n \<notin> set (pr_todo p)" if "p \<in> set (se_procs ?u)" for p i n
    using that quiet by (auto simp: u)
  ultimately show ?thesis by (auto simp: owners_ok_def starts_vacant_def u)
qed (use own in \<open>auto simp: start_next_slot_def\<close>)

lemma step_calm:
  assumes "\<And>i ev. e \<noteq> SlotEvent i ev" "e \<noteq> StartsNextSlot" "session_ok s"
  shows "calm s (session_step pr arch e s)"
proof -
  have world: "pool_ok (se_world s)" using assms(3) by (simp add: session_ok_def)
  show ?thesis
  proof (rule same_procs_calm)
    show "se_procs (session_step pr arch e s) = se_procs s"
      using assms by (cases e) (auto simp: close_conn_def)
    show "slots_kept s (session_step pr arch e s)"
      using assms pool_close_op [OF world]
      by (cases e)
        (auto simp: slots_kept_def ctx_done_def request_starts_def request_counted_def request_ends_def
          request_uncounted_def request_leaves_def ping_loop_ended_def close_conn_def end_session_def Let_def
          split: prod.split request_stage.split)
  qed
qed

definition owned_session :: "session \<Rightarrow> bool" where
  "owned_session s \<longleftrightarrow> session_ok s \<and> lock_ok s \<and> owners_ok s"

lemma owners_step_ok:
  assumes ok: "owned_session s" and guard: "no_early_grant e s"
  shows "owned_session (session_step pr arch e s)"
proof -
  have inv: "session_ok s" "lock_ok s" "owners_ok s" using ok by (simp_all add: owned_session_def)
  have "owners_ok (session_step pr arch e s)"
  proof (cases "\<exists>i ev. e = SlotEvent i ev")
    case True
    then obtain i ev where e: "e = SlotEvent i ev" by blast
    show ?thesis
    proof (cases "i < size (se_procs s)")
      case i: True
      obtain q t where R: "slot_step pr arch ev (se_procs s ! i) s = (q, t)" by (metis prod.exhaust)
      have step: "session_step pr arch e s = put_proc i q t" using i by (simp add: e R put_proc_def)
      have todo: "todo_ok (pr_todo (se_procs s ! i))" using inv(2) i by (simp add: lock_ok_def)
      show ?thesis
      proof (cases "\<exists>a as now jitter. pr_todo (se_procs s ! i) = a # as \<and> ev = Advance now jitter \<and> resizes a s")
        case False
        then have "calm s (put_proc i q t)"
          using guard e by (intro slot_step_calm [OF i R todo]) auto
        then show ?thesis using calm_owners_ok [OF inv(3)] by (simp add: step)
      next
        case True
        then obtain a as now jitter where a: "pr_todo (se_procs s ! i) = a # as" "ev = Advance now jitter" "resizes a s"
          by blast
        obtain new u where act: "slot_act now (pr_ctx (se_procs s ! i)) a s = (new, u)" by (metis prod.exhaust)
        have q: "q = (se_procs s ! i)\<lparr>pr_todo := new @ as\<rparr>" and t: "t = u"
          using R a act by (simp_all add: slot_step_def)
        from a(3) consider (resize) n where "a = ResizePool n" | (start) j n where "a = StartSlots j n" "j < n"
          by (cases "(a, s)" rule: resizes.cases) auto
        then show ?thesis
        proof cases
          case resize
          then have as: "as = []" using todo a(1) by simp
          have "session_resize n s = (new, u)" using act resize by simp
          then show ?thesis
          proof (cases rule: session_resize_cases)
            case (Changes old m promoted es w)
            show ?thesis
              unfolding step q t Changes(5) as append_Nil2
              by (rule resize_owners_ok [OF inv i _ Changes(1,2,4)]) (simp add: a(1) resize as)
          qed (use a(3) in \<open>simp_all add: resize\<close>)
        next
          case start
          then have "new = [StartSlots (j + 1) n]" "u = start_slot j None s" using act by auto
          then show ?thesis
            using start_owners_ok [OF inv(2,3) i _ start(2), of as] a(1) start(1) by (simp add: step q t)
        qed
      qed
    qed (simp add: e inv)
  next
    case False
    then show ?thesis
      using start_next_slot_owners [OF inv(3)] calm_owners_ok [OF inv(3) step_calm [OF _ _ inv(1)]]
      by (cases "e = StartsNextSlot") auto
  qed
  then show ?thesis using inv session_step_ok lock_step_ok by (simp add: owned_session_def)
qed

interpretation owned_sessions: machine "session_step pr arch" no_early_grant owned_session
  for pr arch
  by unfold_locales (rule owners_step_ok)

lemma start_session_owned:
  assumes "client_ok cl"
  shows "owned_session (start_session h addr ack control now cl)"
proof -
  let ?s = "start_session h addr ack control now cl"
  have "slots_owned ?s" by (simp add: slots_owned_def)
  moreover have "vacant ?s j" if "0 \<le> j" "j < m_max_connections ack" for j
    using that by (auto simp: vacant_def new_session_pool granted_max_def max_pool_connections_def)
  then have "starts_vacant ?s" by (simp add: starts_vacant_def)
  ultimately show ?thesis
    using start_session_ok [OF assms] start_session_lock by (simp add: owned_session_def owners_ok_def)
qed

end
