(* ===== verification/SessionSpec.thy ===== *)
theory SessionSpec
  imports SessionLock
begin

text \<open>
  What a running session promises, whatever the network does and however its goroutines
  interleave.
\<close>

section \<open>A sample run\<close>

definition blank_conn :: pool_conn where
  "blank_conn = \<lparr>pc_conn = 0, pc_index = 0, pc_streams = 0, pc_last_pong = 0, pc_ping_cancel = None\<rparr>"

definition sample_session :: "session_event list \<Rightarrow> session" where
  "sample_session es = run (session_step sample_protocol Amd64) es
     (start_session (\<lambda>_. blank_conn) ''s'' (sample_ack 2) 7 0 new_client)"

lemma new_client_ok [simp]: "client_ok new_client"
  by (simp add: client_ok_def new_client_def max_concurrent_streams_def)

definition granted :: "go_int \<Rightarrow> message" where
  "granted n = (new_message MsgMaxConnectionsUpdate)\<lparr>m_max_connections := n\<rparr>"

text \<open>A goroutine does its next \<open>n\<close> things.\<close>

definition goes :: "nat \<Rightarrow> nat \<Rightarrow> session_event list" where
  "goes i n = replicate n (SlotEvent i (Advance 1 0))"

text \<open>
  The first connection becomes active and gets a request; the server takes the second slot away
  and gives it back.
\<close>

definition sample_events :: "session_event list" where
  "sample_events =
     [StartsNextSlot, StartsNextSlot] @ goes 0 9
     @ [SlotEvent 0 (Received (new_message MsgHTTPRequest) None), RequestStarts 0, RequestCounted 0]
     @ SlotEvent 0 (Received (granted 1) None) # goes 0 8
     @ SlotEvent 0 (Received (granted 2) None) # goes 0 7"

text \<open>What a run leaves: the goroutines, the pool's slots and the requests.\<close>

definition summary :: "session \<Rightarrow>
    (slot_phase \<times> slot_action list \<times> go_int \<times> bool) list \<times> ref option list \<times> nat \<times> (ref \<times> request_stage) list \<times> bool \<times> client_error option" where
  "summary s = (map (\<lambda>p. (pr_phase p, pr_todo p, pr_index p, ctx_done (pr_ctx p) s)) (se_procs s),
     conns (cpool (se_world s)), next_ref (se_world s), se_requests s, se_over s, se_err s)"

lemma sample_procs:
  "fst (summary (sample_session sample_events)) =
     [(Reading 0, [], 0, False), (Staggered 150000000, [], 1, True), (Staggered 150000000, [], 1, False)]"
  by code_simp

lemma sample_pool_state: "fst (snd (summary (sample_session sample_events))) = [Some 0, None]"
  by code_simp

lemma sample_rest: "snd (snd (summary (sample_session sample_events))) = (1, [(0, GaugeCounted)], False, None)"
  by code_simp

lemma sample_started: "started (sample_session sample_events)"
  by code_simp

lemma sample_guarded:
  "guarded no_early_grant (session_step sample_protocol Amd64) sample_events
     (start_session (\<lambda>_. blank_conn) ''s'' (sample_ack 2) 7 0 new_client)"
  by code_simp

lemma sample_proc:
  fixes t
  defines "t \<equiv> sample_session sample_events"
  shows "size (se_procs t) = 3"
    and "i < 3 \<Longrightarrow> (pr_phase (se_procs t ! i), pr_todo (se_procs t ! i), pr_index (se_procs t ! i), ctx_done (pr_ctx (se_procs t ! i)) t) =
      [(Reading 0, [], 0, False), (Staggered 150000000, [], 1, True), (Staggered 150000000, [], 1, False)] ! i"
proof -
  have s: "map (\<lambda>p. (pr_phase p, pr_todo p, pr_index p, ctx_done (pr_ctx p) t)) (se_procs t) =
      [(Reading 0, [], 0, False), (Staggered 150000000, [], 1, True), (Staggered 150000000, [], 1, False)]"
    using sample_procs by (simp add: summary_def t_def)
  show size: "size (se_procs t) = 3" using arg_cong [OF s, of size] by simp
  show "(pr_phase (se_procs t ! i), pr_todo (se_procs t ! i), pr_index (se_procs t ! i), ctx_done (pr_ctx (se_procs t ! i)) t) =
      [(Reading 0, [], 0, False), (Staggered 150000000, [], 1, True), (Staggered 150000000, [], 1, False)] ! i" if "i < 3"
    unfolding s [symmetric] using that size by simp
qed

section \<open>Streams and goroutines\<close>

lemma session_run_ok:
  "client_ok cl \<Longrightarrow> session_ok (run (session_step pr arch) es (start_session h addr ack control now cl))"
  by (rule sessions.run_ok) (simp_all add: start_session_ok)

text \<open>
  C12. However the goroutines of a session interleave, at every step the occupied stream slots are
  as many as the request goroutines of the client, at most 128; the stream counter of each
  connection is the number of those on it that have counted themselves there and not yet taken
  themselves off; and the gauge of active streams is the number of those that have counted
  themselves in it and not yet taken themselves off.
\<close>

theorem session_streams_exact:
  assumes "client_ok cl"
    and "t = run (session_step pr arch) es (start_session h addr ack control now cl)"
  shows "cl_in_flight (se_client t) = int (size (se_accepted t) + size (se_requests t) + se_leaving t
        + cl_waiting (se_client t) + cl_running (se_client t) + cl_leaving (se_client t))
    \<and> cl_in_flight (se_client t) \<le> 128
    \<and> cl_active_streams (se_client t) = int (requests_at GaugeCounted t + cl_running (se_client t))
    \<and> (\<forall>r < next_ref (se_world t).
         pc_streams (heap (se_world t) r) = int (count_list (map fst (se_requests t)) r))"
  using session_run_ok [of cl pr arch es h addr ack control now] assms
  by (simp add: session_ok_def streams_ok_def left_client_ok requests_at_count max_concurrent_streams_def)

theorem session_streams_exact_witness:
  "pc_streams (heap (se_world (sample_session sample_events)) 0) = 1
   \<and> 1 \<le> cl_in_flight (se_client (sample_session sample_events)) \<and> cl_in_flight (se_client (sample_session sample_events)) \<le> 128"
  using session_streams_exact [OF new_client_ok sample_session_def [of sample_events]] sample_rest
  by (auto simp: summary_def)

text \<open>
  C11. Of two goroutines that were started for the same slot of the pool at most one has a context
  that is not cancelled, however the pool was shrunk and grown in between, if no new grant came
  before the goroutines of the first one were started.
\<close>

theorem one_goroutine_per_slot:
  assumes "client_ok cl"
    and "guarded no_early_grant (session_step pr arch) es (start_session h addr ack control now cl)"
    and "t = run (session_step pr arch) es (start_session h addr ack control now cl)"
    and "i \<noteq> j" and "i < size (se_procs t)" and "j < size (se_procs t)"
    and "pr_index (se_procs t ! i) = k" and "pr_index (se_procs t ! j) = k" and "k < 32"
  shows "ctx_done (pr_ctx (se_procs t ! i)) t \<or> ctx_done (pr_ctx (se_procs t ! j)) t"
proof (rule ccontr)
  assume no: "\<not> ?thesis"
  have "owned_session t"
    using owned_sessions.run_ok [OF start_session_owned assms(2)] assms(1,3) by simp
  then have own: "slots_owned t" and con: "contexts_ok t"
    by (simp_all add: owned_session_def session_ok_def owners_ok_def)
  have "live t (se_procs t ! i)" "live t (se_procs t ! j)"
    using no assms(7-9) by (simp_all add: live_def max_pool_connections_def)
  then have "pr_ctx (se_procs t ! i) = pr_ctx (se_procs t ! j)"
    using own nth_mem [OF assms(5)] nth_mem [OF assms(6)] assms(7,8) unfolding slots_owned_def by metis
  then have "i = j" using con assms(5,6) by (simp add: contexts_ok_def distinct_conv_nth) metis
  with assms(4) show False ..
qed

theorem one_goroutine_per_slot_witness:
  "ctx_done (pr_ctx (se_procs (sample_session sample_events) ! 1)) (sample_session sample_events)"
  using one_goroutine_per_slot [OF new_client_ok sample_guarded sample_session_def [of sample_events], of 1 2 1]
    sample_proc(1) sample_proc(2) [of 1] sample_proc(2) [of 2]
  by simp

text \<open>
  A new grant can come while the goroutines of the first one are still being started. The one
  that is started for a slot that is gone has a context that nobody can cancel, and a later
  grant starts a second one for the same slot.
\<close>

definition early_grant_events :: "session_event list" where
  "early_grant_events =
     StartsNextSlot # goes 0 9
     @ SlotEvent 0 (Received (granted 1) None) # goes 0 8
     @ StartsNextSlot # SlotEvent 0 (Received (granted 2) None) # goes 0 7"

lemma early_grant_doubles_slot:
  "map (\<lambda>p. (pr_index p, ctx_done (pr_ctx p) (sample_session early_grant_events)))
     (se_procs (sample_session early_grant_events)) = [(0, False), (1, False), (1, False)]"
  by code_simp

section \<open>The control connection\<close>

text \<open>
  A pool with a control connection for which no ping loop is registered; a goroutine that is about
  to start one.
\<close>

definition unwatched :: "pool_world \<Rightarrow> bool" where
  "unwatched w \<longleftrightarrow> control_of w \<noteq> None \<and> ping_cancel (cpool w) = None"

definition starts_ping :: "slot_proc \<Rightarrow> bool" where
  "starts_ping p \<longleftrightarrow> (\<exists>r. StartPoolPing r \<in> set (pr_todo p))"

text \<open>No error was reported or is about to be, and the session is not over.\<close>

definition undisturbed :: "session \<Rightarrow> bool" where
  "undisturbed s \<longleftrightarrow> \<not> se_over s \<and> se_err s = None \<and> (\<forall>p \<in> set (se_procs s). \<not> reports p)"

definition watched :: "session \<Rightarrow> bool" where
  "watched s \<longleftrightarrow> (undisturbed s \<longrightarrow> controlled (se_world s)
     \<and> (unwatched (se_world s) \<longrightarrow> (\<exists>p \<in> set (se_procs s). starts_ping p)))"

lemma unwatched_same:
  "same_pool w v \<Longrightarrow> ping_cancel (cpool v) = ping_cancel (cpool w) \<Longrightarrow> unwatched v = unwatched w"
  using same_pool_slots [of w v] by (auto simp: unwatched_def control_of_alt same_pool_def)

lemma pool_add_watch:
  assumes w: "controlled w"
  shows "case pool_add now i c w of ((r, is_control), v) \<Rightarrow>
    controlled v \<and> (\<not> is_control \<or> r = None \<longrightarrow> unwatched v \<longrightarrow> unwatched w)"
proof -
  have ok: "pool_ok w" using w by (simp add: controlled_def)
  have con: "controlled (snd (pool_add now i c w))" using w controlled_add by simp
  have ping: "ping_cancel (cpool (snd (pool_add now i c w))) = ping_cancel (cpool w)"
    by (simp add: pool_add_def Let_def)
  show ?thesis
    using con ping pool_add_facts [OF ok, of i now c] by (auto simp: unwatched_def split: if_splits)
qed

lemma pool_remove_watch:
  assumes "controlled w" and "pool_remove i w = ((remaining, promoted, lost), eff, v)"
    and "\<not> (lost \<and> promoted = None \<and> remaining > 0)"
  shows "controlled v \<and> (\<not> lost \<or> promoted = None \<longrightarrow> unwatched v \<longrightarrow> unwatched w)"
proof (cases "slots w i")
  case None
  then show ?thesis using assms by (auto simp: pool_remove_free)
next
  case (Some r)
  have w: "pool_ok w" using assms(1) by (simp add: controlled_def)
  have con: "controlled v"
    using controlled_remove [of w i] assms by (simp add: control_abandoned_def)
  have ping: "ping_cancel (cpool v) = (if lost then None else ping_cancel (cpool w))"
    using pool_remove_cpool [OF Some] pool_remove_result [OF Some] assms(2) by simp
  show ?thesis
    using con ping assms(1) pool_remove_facts [OF w Some, unfolded assms(2)]
    by (auto simp: unwatched_def)
qed


lemma pool_resize_watch:
  assumes "controlled w" and "pool_resize n w = ((old, new, promoted), eff, v)"
  shows "controlled v \<and> (promoted = None \<longrightarrow> unwatched v \<longrightarrow> unwatched w)"
proof -
  have w: "pool_ok w" using assms(1) by (simp add: controlled_def)
  have con: "controlled v"
    using controlled_resize [of w n] assms by simp
  have "unwatched w" if "promoted = None" "unwatched v"
  proof (cases "control_of w")
    case None
    then have "control_of v = None" using pool_resize_control [OF w, of n] assms(2) by simp
    then show ?thesis using that by (simp add: unwatched_def)
  next
    case (Some c)
    then have idx: "control_index (cpool w) = c" by (simp add: control_of_Some)
    have "ping_cancel (cpool v) = ping_cancel (cpool w)" if "c < clamp_max n"
      using that idx assms(2) pool_resize_shrink_cpool [of n w] pool_resize_grow [of w n] pool_resize_same [of n w]
      by (cases "clamp_max n" "max_conns (cpool w)" rule: linorder_cases) (auto simp: grow_pool_def Let_def)
    moreover have "control_of v = None" if "\<not> c < clamp_max n"
      using that Some \<open>promoted = None\<close> pool_resize_facts [OF w, of n] pool_resize_old_new [of n w] assms(2)
      by (simp add: control_of_alt)
    ultimately show ?thesis using that(2) Some by (cases "c < clamp_max n") (auto simp: unwatched_def)
  qed
  with con show ?thesis by simp
qed

text \<open>What a step of a goroutine \<open>p\<close>, which becomes \<open>q\<close>, does to the control connection.\<close>

definition watch_step :: "session \<Rightarrow> slot_proc \<Rightarrow> slot_proc \<Rightarrow> session \<Rightarrow> bool" where
  "watch_step s p q t \<longleftrightarrow>
     se_over t = se_over s \<and> (se_err t = None \<longrightarrow> se_err s = None)
     \<and> (reports p \<longrightarrow> reports q \<or> se_err t \<noteq> None)
     \<and> (controlled (se_world s) \<and> \<not> reports q \<longrightarrow>
          controlled (se_world t) \<and> (unwatched (se_world t) \<longrightarrow> unwatched (se_world s) \<or> starts_ping q))
     \<and> (starts_ping p \<longrightarrow> starts_ping q \<or> \<not> unwatched (se_world t))"

lemma same_pool_refl [simp]: "same_pool w w"
  by (simp add: same_pool_def)

lemma watch_step_put:
  assumes ok: "watched s" and i: "i < size (se_procs s)" and step: "watch_step s (se_procs s ! i) q t"
    and procs: "keeps_procs s t"
  shows "watched (put_proc i q t)"
  unfolding watched_def
proof
  let ?u = "put_proc i q t"
  note step' = step [unfolded watch_step_def]
  assume quiet: "undisturbed ?u"
  have here: "r \<in> set (se_procs ?u)" if r: "r \<in> set (se_procs s)" "r \<noteq> se_procs s ! i" for r
  proof -
    obtain k where k: "k < size (se_procs s)" "r = se_procs s ! k" using r(1) by (metis in_set_conv_nth)
    then have "k \<noteq> i" using r(2) by blast
    then have "se_procs ?u ! k = r" "k < size (se_procs ?u)" using k keeps_proc [OF procs k(1)] by simp_all
    then show ?thesis using nth_mem by blast
  qed
  have q: "q \<in> set (se_procs ?u)" using keeps_proc [OF procs i] by (simp add: set_update_memI)
  then have "\<not> reports q" "se_err t = None" "\<not> se_over t" using quiet by (auto simp: undisturbed_def)
  moreover from this have "\<not> reports (se_procs s ! i)" using step' by blast
  moreover have "\<not> reports r" if "r \<in> set (se_procs s)" "r \<noteq> se_procs s ! i" for r
    using here [OF that] quiet by (auto simp: undisturbed_def)
  ultimately have "undisturbed s" using step' unfolding undisturbed_def by metis
  then have old: "controlled (se_world s)" "unwatched (se_world s) \<longrightarrow> (\<exists>p \<in> set (se_procs s). starts_ping p)"
    using ok by (simp_all add: watched_def)
  then have new: "controlled (se_world t)" "unwatched (se_world t) \<longrightarrow> unwatched (se_world s) \<or> starts_ping q"
    using step' \<open>\<not> reports q\<close> by blast+
  have "\<exists>p \<in> set (se_procs ?u). starts_ping p" if un: "unwatched (se_world t)"
  proof (cases "starts_ping q")
    case True
    with q show ?thesis by blast
  next
    case False
    then obtain p where p: "p \<in> set (se_procs s)" "starts_ping p" using un new old by blast
    then have "p \<noteq> se_procs s ! i" using step' False un by blast
    then show ?thesis using here p by blast
  qed
  with new show "controlled (se_world ?u) \<and> (unwatched (se_world ?u) \<longrightarrow> (\<exists>p \<in> set (se_procs ?u). starts_ping p))"
    by simp
qed

lemma reports_todo [simp]:
  "reports (p\<lparr>pr_todo := as\<rparr>) \<longleftrightarrow> (\<exists>e. Report e \<in> set as)" "starts_ping (p\<lparr>pr_todo := as\<rparr>) \<longleftrightarrow> (\<exists>r. StartPoolPing r \<in> set as)"
  by (simp_all add: reports_def starts_ping_def)

lemma same_pool_watch:
  assumes "same_pool (se_world s) (se_world t)" "ping_cancel (cpool (se_world t)) = ping_cancel (cpool (se_world s))"
  shows "controlled (se_world s) \<longrightarrow> controlled (se_world t)" "unwatched (se_world t) = unwatched (se_world s)"
  using controlled_same_pool [OF assms(1)] unwatched_same [OF assms] by auto

lemma slot_act_watch:
  assumes R: "slot_act now c a s = (new, t)"
  shows "watch_step s (p\<lparr>pr_todo := a # as\<rparr>) (p\<lparr>pr_todo := new @ as\<rparr>) t"
proof (cases a)
  case (StartPoolPing r)
  have "start_pool_ping_loop r s = (new, t)" using R StartPoolPing by simp
  then have "same_pool (se_world s) (se_world t)" "ping_cancel (cpool (se_world t)) \<noteq> None" "se_over t = se_over s" "se_err t = se_err s"
    by (auto simp: start_pool_ping_loop_def replace_ping_loop_def same_pool_def Let_def split: option.splits)
  then show ?thesis using controlled_same_pool StartPoolPing by (auto simp: watch_step_def unwatched_def)
next
  case (StartConnPing r)
  have "start_conn_ping_loop c r s = (new, t)" using R StartConnPing by simp
  then have t: "t = s\<lparr>se_fresh := Suc (se_fresh s), se_world :=
      set_conn_ping_cancel (pc_index (heap (se_world s) r)) (se_fresh s) (se_world s)\<rparr>"
    and new: "set new \<subseteq> {StorePong r} \<union> range GoPing"
    by (auto simp: start_conn_ping_loop_def Let_def)
  have "same_pool (se_world s) (se_world t)" by (simp add: t same_pool_def)
  from same_pool_watch [OF this] show ?thesis using new by (auto simp: watch_step_def StartConnPing t)
next
  case (StorePong r)
  then have t: "t = s\<lparr>se_world := last_pong_store r now (se_world s)\<rparr>" "new = []" using R by auto
  have "same_pool (se_world s) (se_world t)" by (simp add: t small_steps_same_pool)
  from same_pool_watch [OF this] show ?thesis by (auto simp: watch_step_def StorePong t)
next
  case (StartSlots i n)
  have "same_pool (se_world s) (se_world (start_slot i None s))" by (simp add: small_steps_same_pool)
  from same_pool_watch [OF this] show ?thesis
    using R by (auto simp: watch_step_def StartSlots set_slot_cancel_def split: if_splits)
next
  case (ResizePool n)
  have "session_resize n s = (new, t)" using R ResizePool by simp
  then show ?thesis
  proof (cases rule: session_resize_cases)
    case (Changes old m promoted es w)
    show ?thesis
      using pool_resize_watch [OF _ Changes(2)] by (cases promoted) (auto simp: watch_step_def ResizePool Changes(4,5))
  qed (auto simp: watch_step_def ResizePool)
next
  case (Report e)
  then have "t = send_err e s" "new = []" using R by simp_all
  then show ?thesis using send_err_sel(1) [of e s] by (simp add: watch_step_def) (auto simp: Report)
qed (use R in \<open>auto simp: watch_step_def split: if_splits\<close>)


lemma watch_idle:
  assumes "pr_todo p = []" "se_over t = se_over s" "se_err t = se_err s"
    and "controlled (se_world s) \<Longrightarrow> \<not> reports q \<Longrightarrow>
      controlled (se_world t) \<and> (unwatched (se_world t) \<longrightarrow> unwatched (se_world s) \<or> starts_ping q)"
  shows "watch_step s p q t"
  using assms by (auto simp: watch_step_def reports_def [of p] starts_ping_def [of p])

lemma reports_ends [simp]:
  "reports (ends as p) \<longleftrightarrow> (\<exists>e. Report e \<in> set as)" "starts_ping (ends as p) \<longleftrightarrow> (\<exists>r. StartPoolPing r \<in> set as)"
  by (simp_all add: reports_def starts_ping_def ends_def)

lemma slot_add_watch:
  assumes idle: "pr_todo p = []" and R: "slot_add c now p s = (q, t)"
  shows "watch_step s p q t"
proof -
  obtain r is_control v where P: "pool_add now (pr_index p) c (se_world s) = ((r, is_control), v)"
    by (metis prod.exhaust)
  note watch = pool_add_watch [of "se_world s" now "pr_index p" c, unfolded P, simplified]
  show ?thesis
  proof (cases r)
    case None
    then have "q = ends [Perform (CloseConn c)] p" "t = s\<lparr>se_world := v\<rparr>" using R by (simp_all add: slot_add_def P)
    then show ?thesis using watch None by (intro watch_idle [OF idle]) simp_all
  next
    case (Some r')
    then have q: "q = p\<lparr>pr_phase := Reading r', pr_todo := [SyncPool, if is_control then StartPoolPing r' else StartConnPing r']\<rparr>"
      and t: "t = s\<lparr>se_world := v\<rparr>" using R by (simp_all add: slot_add_def P)
    have "starts_ping q" if is_control using that by (simp add: q starts_ping_def)
    then show ?thesis using watch t by (intro watch_idle [OF idle]) auto
  qed
qed

lemma slot_remove_watch:
  assumes idle: "pr_todo p = []" and R: "slot_remove arch r jitter p s = (q, t)"
  shows "watch_step s p q t"
proof -
  obtain remaining promoted lost eff v where P: "pool_remove (pr_index p) (se_world s) = ((remaining, promoted, lost), eff, v)"
    by (metis prod.exhaust)
  have t: "t = with_pool (eff, v) s" using R by (auto simp: slot_remove_def P Let_def split: if_splits)
  show ?thesis
  proof (cases "lost \<and> promoted = None \<and> remaining > 0")
    case True
    then have "reports q" using R by (auto simp: slot_remove_def P Let_def)
    then show ?thesis by (intro watch_idle [OF idle]) (simp_all add: t)
  next
    case False
    have "starts_ping q" if "lost" "promoted = Some x" for x
    proof -
      have "StartPoolPing x \<in> set (pr_todo q)"
        using R that by (auto simp: slot_remove_def P Let_def ends_def split: if_splits)
      then show ?thesis by (auto simp: starts_ping_def)
    qed
    then show ?thesis
      using pool_remove_watch [OF _ P False] by (cases promoted) (auto intro!: watch_idle [OF idle] simp: t)
  qed
qed

lemma slot_phase_step_watch:
  assumes idle: "pr_todo p = []" and R: "slot_phase_step pr arch ev p s = (q, t)"
  shows "watch_step s p q t"
proof -
  have still: "watch_step s p q' s" for q' by (rule watch_idle [OF idle]) simp_all
  have read: "watch_step s p q' t'" if "read_message pr r sent msg s = (res, t')" for r sent msg res q' t'
    using that by (intro watch_idle [OF idle])
      (auto simp: read_message_def accept_request_def split: msg_kind.splits option.splits if_splits)
  show ?thesis
  proof (cases ev)
    case (Advance now jitter)
    then show ?thesis using R idle slot_add_watch slot_remove_watch still
      by (cases "pr_phase p") (auto split: if_splits)
  next
    case (Received msg sent)
    then show ?thesis using R read still
      by (cases "pr_phase p") (auto split: prod.splits read_result.splits)
  qed (use R still in \<open>auto split: slot_phase.splits sum.splits read_result.splits if_splits\<close>)
qed

lemma slot_step_watch:
  assumes R: "slot_step pr arch ev p s = (q, t)"
  shows "watch_step s p q t"
proof (cases "pr_todo p")
  case Nil
  then show ?thesis using R slot_phase_step_watch by (simp add: slot_step_def)
next
  case (Cons a as)
  have refl: "watch_step s p p s" by (auto simp: watch_step_def)
  show ?thesis
  proof (cases ev)
    case (Advance now jitter)
    obtain new u where act: "slot_act now (pr_ctx p) a s = (new, u)" by (metis prod.exhaust)
    have p: "p\<lparr>pr_todo := a # as\<rparr> = p" using Cons by simp
    have "q = p\<lparr>pr_todo := new @ as\<rparr>" "t = u" using R Cons Advance act by (simp_all add: slot_step_def)
    then show ?thesis using slot_act_watch [OF act, where p = p and as = as] p by simp
  qed (use R Cons refl in \<open>auto simp: slot_step_def\<close>)
qed

lemma slot_step_keeps_procs:
  assumes "slot_step pr arch ev p s = (q, t)"
  shows "keeps_procs s t"
proof (cases "pr_todo p")
  case Nil
  then have "slot_phase_step pr arch ev p s = (q, t)" using assms by (simp add: slot_step_def)
  then show ?thesis using slot_phase_step_kept [OF Nil] keeps_procs_same by blast
next
  case (Cons a as)
  show ?thesis
  proof (cases ev)
    case (Advance now jitter)
    obtain new u where act: "slot_act now (pr_ctx p) a s = (new, u)" by (metis prod.exhaust)
    then have "t = u" using assms Cons Advance by (simp add: slot_step_def)
    then show ?thesis using slot_act_procs [OF act] by (auto simp: keeps_procs_def)
  qed (use assms Cons in \<open>simp_all add: slot_step_def\<close>)
qed

text \<open>A step of anything else leaves the control connection alone.\<close>

lemma watched_same:
  assumes ok: "watched s" and "se_over t \<or> same_pool (se_world s) (se_world t) \<and> ping_cancel (cpool (se_world t)) = ping_cancel (cpool (se_world s))"
    and "se_over s \<longrightarrow> se_over t" "se_err t = se_err s"
    and "se_procs t = se_procs s \<or> (\<exists>j c k. se_procs t = se_procs s @ [slot_begin j c k])"
  shows "watched t"
  unfolding watched_def
proof
  assume quiet: "undisturbed t"
  then have same: "same_pool (se_world s) (se_world t)" "ping_cancel (cpool (se_world t)) = ping_cancel (cpool (se_world s))"
    using assms(2) by (auto simp: undisturbed_def)
  have "undisturbed s" using quiet assms(3-5) by (auto simp: undisturbed_def)
  then show "controlled (se_world t) \<and> (unwatched (se_world t) \<longrightarrow> (\<exists>p \<in> set (se_procs t). starts_ping p))"
    using ok same_pool_watch [OF same] assms(5) by (auto simp: watched_def)
qed

lemma session_step_watched:
  assumes ok: "watched s"
  shows "watched (session_step pr arch e s)"
proof (cases e)
  case (SlotEvent i ev)
  show ?thesis
  proof (cases "i < size (se_procs s)")
    case True
    obtain q t where R: "slot_step pr arch ev (se_procs s ! i) s = (q, t)" by (metis prod.exhaust)
    have "watched (put_proc i q t)"
      using watch_step_put [OF ok True slot_step_watch [OF R] slot_step_keeps_procs [OF R]] .
    then show ?thesis using True by (simp add: SlotEvent R put_proc_def)
  qed (simp add: SlotEvent ok)
next
  case StartsNextSlot
  show ?thesis
  proof (cases "started s \<or> se_locked s")
    case True
    then have "start_next_slot s = s" by (auto simp: start_next_slot_def)
    then show ?thesis using ok by (simp add: StartsNextSlot)
  next
    case False
    let ?c = "if se_next_slot s = 0 then Some (se_control s) else None"
    have "start_next_slot s = (start_slot (se_next_slot s) ?c s)\<lparr>se_next_slot := se_next_slot s + 1\<rparr>"
      using False by (simp add: start_next_slot_def Let_def)
    moreover have "watched \<dots>"
      by (rule watched_same [OF ok]) (auto simp: small_steps_same_pool, simp add: set_slot_cancel_def split: if_splits)
    ultimately show ?thesis by (simp add: StartsNextSlot)
  qed
next
  case (RequestStarts k)
  then show ?thesis
    by (auto intro!: watched_same [OF ok] simp: request_starts_def Let_def small_steps_same_pool)
next
  case (RequestUncounted k)
  then show ?thesis
    by (auto intro!: watched_same [OF ok] simp: request_uncounted_def small_steps_same_pool split: prod.split request_stage.split)
qed (auto intro!: watched_same [OF ok] simp: request_counted_def request_ends_def request_leaves_def
    ping_loop_ended_def close_conn_def end_session_def split: prod.split request_stage.split)

interpretation watched_sessions: machine "session_step pr arch" "\<lambda>_ _. True" watched
  for pr arch
  by unfold_locales (rule session_step_watched)

lemma start_session_watched: "watched (start_session h addr ack control now cl)"
proof -
  let ?w = "se_world (new_session h addr ack control cl)"
  have "slots ?w = Map.empty"
    by (simp add: slots_empty_iff new_session_def session_pool_def new_connection_pool_def Let_def)
  then have "controlled ?w" "\<not> unwatched ?w"
    using new_session_pool(3) by (simp_all add: unwatched_def controlled_def control_of_alt)
  then show ?thesis by (simp add: watched_def)
qed

text \<open>
  C9. As long as a session is not over and none of its goroutines has reported or is about to
  report an error, a pool with a connection has exactly one control connection, and a ping loop
  is registered for the control connection or a goroutine is about to start it.
\<close>

theorem session_control_watched:
  assumes "t = run (session_step pr arch) es (start_session h addr ack control now cl)"
    and "\<not> se_over t" "se_err t = None" "filter reports (se_procs t) = []" "0 < active_count (cpool (se_world t))"
  shows "(\<exists>!i. is_control_slot i (cpool (se_world t)))
    \<and> (ping_cancel (cpool (se_world t)) \<noteq> None
       \<or> (\<exists>p r. p \<in> set (se_procs t) \<and> StartPoolPing r \<in> set (pr_todo p)))"
proof -
  have "undisturbed t" using assms(2-4) by (auto simp: undisturbed_def filter_empty_conv)
  then have "controlled (se_world t)" "unwatched (se_world t) \<longrightarrow> (\<exists>p \<in> set (se_procs t). starts_ping p)"
    using watched_sessions.run_ok [OF start_session_watched] assms(1) by (auto simp: watched_def)
  then show ?thesis
    using assms(5) active_count_zero_slots [of "se_world t"]
    by (auto simp: controlled_def active_count_def is_control_slot_iff unwatched_def starts_ping_def)
qed

lemma sample_undisturbed: "filter reports (se_procs (sample_session sample_events)) = []"
proof -
  have "map (fst \<circ> snd) (fst (summary (sample_session sample_events))) = [[], [], []]" using sample_procs by simp
  then have "map pr_todo (se_procs (sample_session sample_events)) = [[], [], []]" by (simp add: summary_def comp_def)
  then have "pr_todo p = []" if "p \<in> set (se_procs (sample_session sample_events))" for p
    using that by (metis (no_types) empty_iff in_set_conv_nth insert_iff length_map list.set(1) list.set(2) nth_map nth_mem)
  then show ?thesis by (auto simp: filter_empty_conv reports_def)
qed

theorem session_control_watched_witness:
  "\<exists>!i. is_control_slot i (cpool (se_world (sample_session sample_events)))"
  using session_control_watched [OF sample_session_def [of sample_events] _ _ sample_undisturbed] sample_rest sample_pool_state
  by (simp add: summary_def active_count_def active_count_locked_def)

text \<open>
  The loop that is registered need not be the control connection's own: a goroutine that promoted
  a connection and comes to start its ping loop only after that connection was lost, too, ends
  the ping loop of the one that was promoted next. The control connection, in slot 2 here, is
  then watched by nobody.
\<close>

definition joins_slot :: "nat \<Rightarrow> conn_id \<Rightarrow> session_event list" where
  "joins_slot i c = [SlotEvent i TimerFired, SlotEvent i (Advance 1 0), SlotEvent i (JoinEnds (Inr c))] @ goes i 7"

definition late_promotion_events :: "session_event list" where
  "late_promotion_events =
     replicate 3 StartsNextSlot @ goes 0 9 @ joins_slot 1 8 @ joins_slot 2 9
     @ SlotEvent 0 (ReceiveFails False ''eof'') # goes 0 5
     @ SlotEvent 1 (ReceiveFails False ''eof'') # goes 1 11
     @ goes 0 5"

definition late_promotion :: session where
  "late_promotion = run (session_step sample_protocol Amd64) late_promotion_events
     (start_session (\<lambda>_. blank_conn) ''s'' (sample_ack 3) 7 0 new_client)"

definition running_pings :: "session \<Rightarrow> ref list" where
  "running_pings s = map pg_ref (filter (\<lambda>pg. \<not> ctx_done (pg_ctx pg) s
     \<and> (case pg_parent pg of None \<Rightarrow> True | Some c \<Rightarrow> \<not> ctx_done c s)) (se_pings s))"

lemma late_promotion_unwatches_control:
  "control_index (cpool (se_world late_promotion)) = 2"
  "conns (cpool (se_world late_promotion)) = [None, None, Some 2]"
  "running_pings late_promotion = [1]"
  by code_simp+

section \<open>No silent end\<close>

lemma slot_act_granted: "slot_act now c a s = (as, t) \<Longrightarrow> se_granted t = se_granted s"
  using start_ping_loops_sel(1) [of _ s as t] start_ping_loops_sel(2) [of c _ s as t]
  by (cases a) (auto simp: session_resize_def Let_def split: if_splits prod.splits)

lemma slot_step_granted:
  assumes R: "slot_step pr arch ev p s = (q, t)"
  shows "se_granted t = se_granted s"
proof (cases "pr_todo p")
  case Nil
  then have "slot_phase_step pr arch ev p s = (q, t)" using R by (simp add: slot_step_def)
  then show ?thesis using slot_phase_step_kept [OF Nil] by (auto simp: slots_kept_def)
next
  case (Cons a as)
  then show ?thesis using R slot_act_granted by (cases ev) (auto simp: slot_step_def split: prod.splits)
qed

lemma session_step_granted: "session_ok s \<Longrightarrow> se_granted (session_step pr arch e s) = se_granted s"
proof (cases e)
  case (SlotEvent i ev)
  then show ?thesis using slot_step_granted by (auto split: prod.split)
next
  case StartsNextSlot
  then show ?thesis by (simp add: start_next_slot_def Let_def)
qed (use step_calm [of e s pr arch] in \<open>auto simp: calm_def\<close>)

interpretation granted_sessions: machine "session_step pr arch" "\<lambda>_ _. True" "\<lambda>s. session_ok s \<and> se_granted s = n"
  for pr arch n
  using session_step_ok session_step_granted by unfold_locales blast

text \<open>
  C10. Once the goroutines of a session are started, that of the first slot lives, with its
  context, until an error is reported or the session is over; the last thing it does is to report
  an error. So a session never keeps waiting with all its goroutines gone.
\<close>

theorem first_slot_never_silent:
  assumes "client_ok cl" and "0 < m_max_connections ack"
    and "t = run (session_step pr arch) es (start_session h addr ack control now cl)" and "started t"
  shows "se_over t \<or> se_err t \<noteq> None
    \<or> (\<exists>p ps. se_procs t = p # ps \<and> pr_index p = 0 \<and> (pr_phase p \<noteq> Gone \<or> reports p) \<and> pr_ctx p \<notin> se_cancelled t)"
proof -
  have "session_ok t" "se_granted t = m_max_connections ack"
    using granted_sessions.run_ok [of "start_session h addr ack control now cl" "m_max_connections ack" pr arch es]
      start_session_ok assms by simp_all
  moreover from this have "se_procs t \<noteq> []"
    using assms(2,4) by (auto simp: session_ok_def first_ok_def started_def)
  ultimately show ?thesis
    by (cases "se_procs t") (auto simp: session_ok_def first_ok_def)
qed

theorem first_slot_never_silent_witness:
  "pr_phase (hd (se_procs (sample_session sample_events))) \<noteq> Gone"
proof -
  have "0 < m_max_connections (sample_ack 2)" by (simp add: sample_ack_def)
  then have "\<exists>p ps. se_procs (sample_session sample_events) = p # ps \<and> (pr_phase p \<noteq> Gone \<or> reports p)"
    using first_slot_never_silent [OF new_client_ok _ sample_session_def [of sample_events] sample_started] sample_rest
    by (auto simp: summary_def)
  then show ?thesis using sample_undisturbed by auto
qed

section \<open>The controller's mutex\<close>

text \<open>
  A goroutine that has the mutex never waits, and each of its steps brings it nearer to the
  release.
\<close>

fun weight :: "slot_action \<Rightarrow> nat" where
  "weight SyncPool = 2"
| "weight (StartPoolPing r) = 5"
| "weight (StartConnPing r) = 3"
| "weight (IfControl r) = 2"
| "weight (StartSlots i n) = nat (n - i) + 1"
| "weight _ = 1"

lemma slot_act_progress:
  assumes "slot_act now c a s = (new, t)" "\<forall>n. a \<noteq> ResizePool n"
  shows "sum_list (map weight new) < weight a"
  using assms
  by (cases a) (auto simp: start_pool_ping_loop_def start_conn_ping_loop_def replace_ping_loop_def Let_def
      split: option.splits if_splits)

lemma holder_releases:
  assumes "lock_ok s" "se_locked s" "k \<in> holders s"
  shows "\<exists>n. \<not> se_locked (run (session_step pr arch) (replicate n (SlotEvent k (Advance now jitter))) s)"
  using assms
proof (induction "sum_list (map weight (pr_todo (se_procs s ! k)))" arbitrary: s rule: less_induct)
  case less
  let ?p = "se_procs s ! k"
  have k: "k < size (se_procs s)" and unlock: "UnlockController \<in> set (pr_todo ?p)"
    using less.prems(3) by (auto simp: holders_def holds_def)
  then obtain a as where todo: "pr_todo ?p = a # as" by (cases "pr_todo ?p") auto
  have shape: "todo_ok (a # as)" using less.prems(1) k todo by (metis lock_ok_def nth_mem)
  have free: "\<forall>n. a \<noteq> ResizePool n" using shape unlock todo by auto
  obtain new t where act: "slot_act now (pr_ctx ?p) a s = (new, t)" by (metis prod.exhaust)
  let ?u = "session_step pr arch (SlotEvent k (Advance now jitter)) s"
  have u: "?u = put_proc k (?p\<lparr>pr_todo := new @ as\<rparr>) t"
    using k todo act by (simp add: slot_step_def put_proc_def)
  show ?case
  proof (cases "se_locked ?u")
    case False
    then show ?thesis by (intro exI [of _ 1]) simp
  next
    case True
    have lock: "lock_ok ?u" using lock_step_ok less.prems(1) by blast
    have "keeps_procs s t" using slot_act_procs [OF act] by (auto simp: keeps_procs_def)
    note kept = keeps_proc [OF this k]
    have p': "?p\<lparr>pr_todo := a # as\<rparr> = ?p" using todo by simp
    have "lock_moves s ?p (?p\<lparr>pr_todo := new @ as\<rparr>) t"
      using slot_act_lock [OF shape act, where p = ?p] by (simp add: p')
    moreover have "se_locked t" using True unfolding u by simp
    ultimately have "UnlockController \<in> set (new @ as)"
      using less.prems(2) unlock by (auto simp: lock_moves_def holds_def [of ?p])
    then have holder: "k \<in> holders ?u" using kept unfolding u by (simp add: holders_def)
    have "sum_list (map weight (pr_todo (se_procs ?u ! k))) < sum_list (map weight (pr_todo ?p))"
      using slot_act_progress [OF act free] kept todo unfolding u by simp
    from less.hyps [OF this lock True holder] obtain n where
      "\<not> se_locked (run (session_step pr arch) (replicate n (SlotEvent k (Advance now jitter))) ?u)" by blast
    then show ?thesis by (intro exI [of _ "Suc n"]) simp
  qed
qed

text \<open>
  C13. While the controller's mutex is taken exactly one goroutine has yet to release it, and
  that one releases it after finitely many steps of its own, whatever the others do meanwhile or
  wait for: a resize never hangs on the mutex.
\<close>

theorem session_mutex_released:
  assumes "t = run (session_step pr arch) es (start_session h addr ack control now cl)" and "se_locked t"
  shows "\<exists>k. k < size (se_procs t) \<and> holders t = {k}
    \<and> (\<exists>n. \<not> se_locked (run (session_step pr arch) (replicate n (SlotEvent k (Advance clock jitter))) t))"
proof -
  have lock: "lock_ok t" using locks.run_ok [OF start_session_lock] assms(1) by simp
  then obtain k where k: "holders t = {k}" using assms(2) by (auto simp: lock_ok_def)
  then have mine: "k \<in> holders t" by simp
  then have "k < size (se_procs t)" by (simp add: holders_def)
  moreover have "\<exists>n. \<not> se_locked (run (session_step pr arch) (replicate n (SlotEvent k (Advance clock jitter))) t)"
    by (rule holder_releases [OF lock assms(2) mine])
  ultimately show ?thesis using k by (intro exI [of _ k]) simp
qed

text \<open>A shrinking resize that has changed the pool and has all its cancels before it.\<close>

definition resize_events :: "session_event list" where
  "resize_events = [StartsNextSlot, StartsNextSlot] @ goes 0 9 @ SlotEvent 0 (Received (granted 1) None) # goes 0 1"

lemma sample_resizing: "se_locked (sample_session resize_events)"
  by code_simp

theorem session_mutex_released_witness:
  "\<exists>k n. holders (sample_session resize_events) = {k}
    \<and> \<not> se_locked (run (session_step sample_protocol Amd64) (replicate n (SlotEvent k (Advance 1 0))) (sample_session resize_events))"
proof -
  let ?t = "sample_session resize_events"
  from session_mutex_released [OF sample_session_def [of resize_events] sample_resizing, where clock = 1 and jitter = 0]
  obtain k n where "holders ?t = {k}"
      "\<not> se_locked (run (session_step sample_protocol Amd64) (replicate n (SlotEvent k (Advance 1 0))) ?t)"
    by (elim exE conjE)
  then show ?thesis by (intro exI conjI)
qed

section \<open>The life of a slot's goroutine\<close>

text \<open>
  The phases of maintainPoolSlot as an automaton: every step of a goroutine is one of its
  transitions, a goroutine that has ended stays so, and one that reads goes on only by the end
  of its read loop.
\<close>

inductive slot_next :: "slot_phase \<Rightarrow> slot_phase \<Rightarrow> bool" where
  Stays: "slot_next a a"
| Staggers: "slot_next (Staggered d) (LoopTop None)"
| Repaired: "slot_next (Repairing d) (LoopTop None)"
| Dials: "slot_next (LoopTop None) Joining"
| Takes: "slot_next (LoopTop (Some c)) (Holding c)"
| Joins: "slot_next Joining (Holding c)"
| Fails: "slot_next Joining (JoinFailed e)"
| Retries: "slot_next (JoinFailed e) (Repairing d)"
| Offers: "slot_next (Holding c) (Adding c)"
| Added: "slot_next (Adding c) (Reading r)"
| ReadEnds: "slot_next (Reading r) (ReadDone r)"
| Leaves: "slot_next (ReadDone r) (Removing r)"
| Repairs: "slot_next (Removing r) (Repairing d)"
| Ends: "\<forall>r. a \<noteq> Reading r \<Longrightarrow> slot_next a Gone"

inductive_simps from_gone [simp]: "slot_next Gone b"
inductive_simps from_reading [simp]: "slot_next (Reading r) b"

declare slot_next.intros [intro]

lemma slot_add_next: "slot_next (Adding c) (pr_phase (fst (slot_add c now p s)))"
  by (auto simp: slot_add_def ends_def split: prod.split option.split)

lemma slot_remove_next: "slot_next (Removing r) (pr_phase (fst (slot_remove arch r jitter p s)))"
  by (auto simp: slot_remove_def ends_def repair_delay_def Let_def case_prod_beta)

lemma slot_phase_step_next: "slot_next (pr_phase p) (pr_phase (fst (slot_phase_step pr arch ev p s)))"
proof (cases ev)
  case (Advance now jitter)
  show ?thesis
  proof (cases "pr_phase p")
    case (LoopTop conn)
    then show ?thesis by (cases conn) (auto simp: Advance slot_top_def ends_def)
  next
    case (JoinFailed e)
    then show ?thesis by (auto simp: Advance slot_join_failed_def repair_delay_def ends_def)
  qed (auto simp: Advance ends_def slot_add_next slot_remove_next)
next
  case (JoinEnds result)
  then show ?thesis by (cases "pr_phase p") (auto simp: slot_joined_def ends_def split: sum.split)
next
  case (Received msg sent)
  then show ?thesis
    by (cases "pr_phase p") (auto split: prod.split read_result.split)
qed (cases "pr_phase p"; auto simp: ends_def split: read_result.split)+

lemma slot_step_next: "slot_next (pr_phase p) (pr_phase (fst (slot_step pr arch ev p s)))"
  by (auto simp: slot_step_def slot_phase_step_next split: list.split slot_event.split prod.split)

lemma gone_for_good: "pr_phase p = Gone \<Longrightarrow> pr_phase (fst (slot_step pr arch ev p s)) = Gone"
  using slot_step_next [of p pr arch ev s] by simp

lemma reading_goes_on: "pr_phase p = Reading r \<Longrightarrow>
    pr_phase (fst (slot_step pr arch ev p s)) \<in> {Reading r, ReadDone r}"
  using slot_step_next [of p pr arch ev s] by auto

section \<open>Goroutines of slots taken away\<close>

text \<open>
  A goroutine that passed its last look at its context before its slot was taken away removes
  whatever connection the slot has when it comes to it, also the one that the goroutine of the
  slot's next life put there: Remove is given the slot's number only.
\<close>

lemma stale_goroutine_removes:
  assumes "slots (se_world s) (pr_index p) = Some q"
  shows "slots (se_world (snd (slot_remove arch r jitter p s))) (pr_index p) = None"
proof -
  obtain remaining promoted lost eff v where R: "pool_remove (pr_index p) (se_world s) = ((remaining, promoted, lost), eff, v)"
    by (metis prod.exhaust)
  have "slots v (pr_index p) = None" using pool_remove_slots [OF assms] R by simp
  then show ?thesis by (simp add: slot_remove_def R Let_def)
qed

text \<open>
  A context that ends before a slot's goroutine first looks at it leaves the connection it was
  started with open: only the goroutine that waits for the drain and the pool close connections.
\<close>

lemma initial_connection_leaks:
  "ctx_done (pr_ctx p) s \<Longrightarrow> pr_phase p = LoopTop (Some c) \<Longrightarrow> pr_todo p = [] \<Longrightarrow>
     slot_step pr arch (Advance now jitter) p s = (ends [] p, s)"
  by (simp add: slot_step_def slot_top_def)

text \<open>A grant of no connections starts no goroutine: nothing is left that could report an error.\<close>

lemma empty_grant_waits_forever:
  assumes "m_max_connections ack \<le> 0"
  shows "se_procs (run (session_step pr arch) es (start_session h addr ack control now cl)) = []
    \<and> se_err (run (session_step pr arch) es (start_session h addr ack control now cl)) = None"
proof -
  let ?idle = "\<lambda>s. se_procs s = [] \<and> se_err s = None \<and> se_next_slot s = 0 \<and> se_granted s \<le> 0"
  have step: "?idle (session_step pr arch e s)" if "?idle s" for e s
    using that by (cases e) (auto simp: start_next_slot_def started_def request_starts_def request_counted_def request_ends_def
        request_uncounted_def request_leaves_def Let_def ping_loop_ended_def close_conn_def end_session_def
        split: prod.split request_stage.split)
  have "?idle (run (session_step pr arch) es s)" if "?idle s" for s
    using that by (induction es arbitrary: s) (simp_all add: step)
  from this [of "start_session h addr ack control now cl"] show ?thesis using assms by simp
qed

end
