(* ===== verification/ClientRun.thy ===== *)
theory ClientRun
  imports SessionSpec
begin

text \<open>
  The loop of Run over sessions: what it keeps of the client from one session to the next, and
  how long it waits between them.
\<close>

section \<open>From session to session\<close>

lemma client_ok_simps [simp]:
  "client_ok (publish_client f cl) = client_ok cl"
  by (simp add: client_ok_def publish_client_def)

lemma session_client_ok: "session_ok s \<Longrightarrow> client_ok (leave_session s)"
  by (simp add: session_ok_def streams_ok_def)

lemma run_session_client_ok:
  assumes "client_ok cl" and "run_session pr arch cfg h r cl = (res, cl')"
  shows "client_ok cl'"
proof (cases "fst (register_control pr cfg (rd_net r))")
  case (Inr ack)
  let ?s = "run (session_step pr arch) (rd_events r)
      (start_session h (case net_dial (rd_net r) of Inl _ \<Rightarrow> [] | Inr a \<Rightarrow> a) ack (rd_control r) (rd_registered_at r) cl)"
  have "session_ok ?s" using assms(1) session_run_ok by simp
  then have "client_ok (leave_session ?s)" "client_ok (leave_session (end_session ?s))"
    using end_session_ok session_client_ok by blast+
  then show ?thesis using assms(2) Inr by (auto simp: run_session_def Let_def split: option.splits)
qed (use assms in \<open>simp add: run_session_def\<close>)

text \<open>A session returns without an error only when the context of Run has ended.\<close>

lemma run_session_nil:
  "run_session pr arch cfg h r cl = (Some None, cl') \<Longrightarrow> ends_during (rd_ends r)"
  by (cases "rd_ends r") (auto simp: run_session_def Let_def split: sum.splits option.splits if_splits)

lemma client_loop_delays:
  assumes "client_loop pr arch err_text cfg h rs n cl = (ds, cl', returned)" and "client_ok cl"
    and "0 \<le> n" "n + int (size rs) \<le> max_int64"
  shows "size ds \<le> size rs
    \<and> (\<forall>k < size ds. ds ! k = backoff_delay arch (n + int k) (cfg_max_reconnect_delay cfg) (rd_jitter (rs ! k)))
    \<and> (returned \<longrightarrow> (\<exists>r \<in> set rs. rd_ends r \<noteq> Alive)) \<and> client_ok cl'"
  using assms
proof (induction rs arbitrary: n cl ds cl' returned)
  case (Cons r rs)
  obtain res cl1 where R: "run_session pr arch cfg h r cl = (res, cl1)" by fastforce
  have cl1: "client_ok cl1" using run_session_client_ok [OF Cons.prems(2) R] .
  show ?case
  proof (cases "rd_ends r = EndsBefore \<or> res = None \<or> ends_during (rd_ends r)")
    case True
    then show ?thesis using Cons.prems R cl1 by (cases res) (auto split: if_splits)
  next
    case False
    then obtain e where res: "res = Some (Some e)" using R run_session_nil by (cases res) fastforce+
    let ?cl = "publish_client (session_failed (err_text e) n (rd_failed_at r)) cl1"
    obtain ds1 cl2 ret where L: "client_loop pr arch err_text cfg h rs (wrap64 (n + 1)) ?cl = (ds1, cl2, ret)"
      by (metis prod.exhaust)
    have "wrap64 (n + 1) = n + 1" using Cons.prems(3,4) by (intro wrap64_id) (simp add: in_int64_iff max_int64_def)
    then have ih: "size ds1 \<le> size rs
        \<and> (\<forall>k < size ds1. ds1 ! k = backoff_delay arch (n + 1 + int k) (cfg_max_reconnect_delay cfg) (rd_jitter (rs ! k)))
        \<and> (ret \<longrightarrow> (\<exists>r \<in> set rs. rd_ends r \<noteq> Alive)) \<and> client_ok cl2"
      using Cons.IH [OF L] Cons.prems(3,4) cl1 by simp
    show ?thesis
    proof (cases "rd_ends r = EndsWaiting")
      case True
      then show ?thesis using Cons.prems(1) R res cl1 by auto
    next
      case waits: False
      then have "ds = backoff_delay arch n (cfg_max_reconnect_delay cfg) (rd_jitter r) # ds1" "cl' = cl2" "returned = ret"
        using Cons.prems(1) R res False L by (auto simp: Let_def)
      then show ?thesis using ih by (auto simp: nth_Cons ac_simps split: nat.split)
    qed
  qed
qed auto

text \<open>
  C14. Run returns only when its context has ended, and the wait after its \<open>k\<close>-th failed session
  is the backoff delay of attempt \<open>k\<close>, counted from its start: no session, however long it was
  up, takes the delay back to the first one. The stream slots taken are those of the requests
  that former sessions have left running.
\<close>

theorem reconnect_attempts_never_reset:
  assumes "client_run pr arch err_text cfg h rs cl = (ds, cl', returned)"
    and "client_ok cl" and "int (size rs) < 2 ^ 63"
  shows "(\<forall>k < size ds. ds ! k = backoff_delay arch (int k) (cfg_max_reconnect_delay cfg) (rd_jitter (rs ! k)))
    \<and> (returned \<longrightarrow> (\<exists>r \<in> set rs. rd_ends r \<noteq> Alive))
    \<and> client_ok cl'"
  using client_loop_delays [OF assms(1) [unfolded client_run_def]] assms(2,3)
  by (simp add: max_int64_def)

text \<open>A server that cannot be reached, a session that is up and breaks, and again no server.\<close>

definition no_server :: run_round where
  "no_server = \<lparr>rd_ends = Alive, rd_net = \<lparr>net_dial = Inl ''refused'', net_send = None, net_receive = Inl ''eof''\<rparr>,
     rd_control = 1, rd_registered_at = 0, rd_events = [], rd_failed_at = 5, rd_jitter = 9\<rparr>"

definition broken_session :: run_round where
  "broken_session = no_server\<lparr>rd_net := \<lparr>net_dial = Inr ''peer'', net_send = None, net_receive = Inr (sample_ack 1)\<rparr>,
     rd_events := StartsNextSlot # goes 0 9 @ SlotEvent 0 (ReceiveFails False ''eof'') # goes 0 6\<rparr>"

definition home_config :: config where
  "home_config = \<lparr>cfg_token = ''t'', cfg_server_url = ''wss://h'', cfg_plex_target = ''http://p'', cfg_subdomain = [],
     cfg_log_level = ''info'', cfg_debug_bandwidth_log = False, cfg_max_connections = 0, cfg_ping_interval = 30 * second,
     cfg_pong_timeout = 10 * second, cfg_max_reconnect_delay = 60 * second, cfg_response_chunk_size = 65536,
     cfg_response_header_timeout = 30 * second\<rparr>"

definition sample_run_loop :: "duration list \<times> client_state \<times> bool" where
  "sample_run_loop = client_run sample_protocol Amd64 (\<lambda>_. ''lost'') home_config (\<lambda>_. blank_conn)
     [no_server, broken_session, no_server] new_client"

lemma sample_run_loop_waits: "size (fst sample_run_loop) = 3"
  by code_simp

theorem reconnect_attempts_never_reset_witness:
  "fst sample_run_loop ! 2 = backoff_delay Amd64 2 (cfg_max_reconnect_delay home_config) 9
   \<and> \<not> snd (snd sample_run_loop)"
  using reconnect_attempts_never_reset
      [of sample_protocol Amd64 "\<lambda>_. ''lost''" home_config "\<lambda>_. blank_conn" "[no_server, broken_session, no_server]"
        new_client "fst sample_run_loop" "fst (snd sample_run_loop)" "snd (snd sample_run_loop)"]
    sample_run_loop_waits
  by (simp add: sample_run_loop_def) (simp add: no_server_def broken_session_def)

text \<open>
  So after 55 failed sessions in the life of a client every further wait is at most the jitter,
  whatever maximum is configured.
\<close>

lemma reconnects_end_without_delay:
  assumes "client_run pr arch err_text cfg h rs cl = (ds, cl', returned)"
    and "client_ok cl" and "int (size rs) \<le> max_int64" and "55 \<le> k" "k < size ds"
    and "cfg_max_reconnect_delay cfg \<le> max_int64 - max_reconnect_jitter" "jitter_ok (rd_jitter (rs ! k))"
  shows "ds ! k \<le> max_reconnect_jitter"
  using client_loop_delays [OF assms(1) [unfolded client_run_def]] assms(2-5)
    backoff_collapses [of "int k" "cfg_max_reconnect_delay cfg" "rd_jitter (rs ! k)" arch] assms(6,7)
  by simp

end
