(* ===== verification/Service.thy ===== *)
theory Service
  imports MainProg UiSafety RateLimit
begin

text \<open>
  The web UI as the process serves it: requests in any order, with the background sweeps of the
  login limiter and of the sessions in between.
\<close>

section \<open>Requests and sweeps\<close>

datatype service_event = Arrives surroundings request | SweepLogins instant | SweepSessions instant

fun event_time :: "service_event \<Rightarrow> instant" where
  "event_time (Arrives out r) = out_now out"
| "event_time (SweepLogins t) = t"
| "event_time (SweepSessions t) = t"

fun service_step ::
  "(string \<Rightarrow> go_int option) \<Rightarrow> ui_handler \<Rightarrow> service_event \<Rightarrow> ui_state \<Rightarrow> ui_page response option \<times> ui_state" where
  "service_step pl h (Arrives out r) s = (case ui_serve pl h out r s of (rs, s) \<Rightarrow> (Some rs, s))"
| "service_step pl h (SweepLogins t) s = (None, s\<lparr>ui_limiter := limiter_sweep t (ui_limiter s)\<rparr>)"
| "service_step pl h (SweepSessions t) s = (None, s\<lparr>ui_sessions := session_sweep t (ui_sessions s)\<rparr>)"

text \<open>What the limiter sees of an event: a login attempt is a POST to /login from the UI's own origin.\<close>

definition login_post :: "ui_handler \<Rightarrow> request \<Rightarrow> bool" where
  "login_post h r \<longleftrightarrow> mux_route ui_patterns r = RoutedTo ''POST'' [''login''] \<and> origin_allowed h r"

fun limiter_events :: "ui_handler \<Rightarrow> service_event list \<Rightarrow> string limiter_event list" where
  "limiter_events h [] = []"
| "limiter_events h (Arrives out r # es) =
     (if login_post h r then [Attempt (remote_ip_key (rq_remote_addr r)) (out_now out)] else []) @ limiter_events h es"
| "limiter_events h (SweepLogins t # es) = Collect t # limiter_events h es"
| "limiter_events h (SweepSessions t # es) = limiter_events h es"

text \<open>A login attempt whose credentials were looked at: one that was not answered 429.\<close>

fun guess_of :: "ui_handler \<Rightarrow> string \<Rightarrow> service_event \<times> ui_page response option \<Rightarrow> bool" where
  "guess_of h ip (Arrives out r, Some rs) \<longleftrightarrow>
     login_post h r \<and> remote_ip_key (rq_remote_addr r) = ip \<and> rs_status rs \<noteq> 429"
| "guess_of h ip _ \<longleftrightarrow> False"

definition guesses :: "ui_handler \<Rightarrow> string \<Rightarrow> service_event list \<Rightarrow> ui_page response option list \<Rightarrow> nat" where
  "guesses h ip es rs = size (filter (guess_of h ip) (zip es rs))"

lemma mux_route_found:
  assumes "mux_route ps r = RoutedTo m p"
  shows "(m, p) \<in> set ps \<and> method_matches m (rq_method r)"
proof -
  have "x \<in> set xs \<and> P x" if "find P xs = Some x" for P and xs :: "route_pattern list" and x
    using that by (auto simp: find_Some_iff)
  with assms show ?thesis
    by (fastforce simp: mux_route_def Let_def split: if_splits option.splits prod.splits)
qed

lemma mux_route_login:
  "mux_route ui_patterns r = RoutedTo m [''login''] \<Longrightarrow> m = ''GET'' \<or> m = ''POST'' \<and> rq_method r = ''POST''"
  using mux_route_found [of ui_patterns r m] by (auto simp: ui_patterns_def)

section \<open>Only logins touch the limiter\<close>

lemma handler_limiter:
  "ui_limiter (snd (handle_login_get h out r s)) = ui_limiter s"
  "ui_limiter (snd (handle_logout_post h out r s)) = ui_limiter s"
  "ui_limiter (snd (handle_index out r s)) = ui_limiter s"
  "ui_limiter (snd (handle_status out r s)) = ui_limiter s"
  "ui_limiter (snd (handle_settings pl h out r s)) = ui_limiter s"
  by (simp_all add: login_get_effect index_effect status_effect)
    (auto simp: handle_logout_post_def handle_settings_def case_prod_beta Let_def split: option.split sum.split)

lemma require_session_limiter:
  assumes "\<And>s. ui_limiter (snd (nh out r s)) = ui_limiter s"
  shows "ui_limiter (snd (require_session h nh out r s)) = ui_limiter s"
  by (cases rule: require_session_cases [of h nh out r s]) (simp_all add: assms)

lemma login_post_limiter:
  assumes "rq_method r = ''POST''" "origin_allowed h r"
    and "login_allow (remote_ip_key (rq_remote_addr r)) (out_now out) (ui_limiter s) = (ok, l)"
  shows "ui_limiter (snd (handle_login_post h out r s)) = l"
    and "rs_status (fst (handle_login_post h out r s)) = 429 \<longleftrightarrow> \<not> ok"
  using assms
  by (auto simp: handle_login_post_def Let_def http_error_def redirect_login_error_def http_redirect_def respond_def
      set_cookie_def split: option.split prod.split)

lemma ui_serve_limiter:
  "if login_post h r
   then case login_allow (remote_ip_key (rq_remote_addr r)) (out_now out) (ui_limiter s) of (ok, l) \<Rightarrow>
     ui_limiter (snd (ui_serve pl h out r s)) = l \<and> (rs_status (fst (ui_serve pl h out r s)) = 429 \<longleftrightarrow> \<not> ok)
   else ui_limiter (snd (ui_serve pl h out r s)) = ui_limiter s"
proof (cases "mux_route ui_patterns r")
  case (RoutedTo m p)
  let ?hn = "ui_handler_of pl h m p"
  have serve: "ui_limiter (snd (ui_serve pl h out r s)) = ui_limiter (snd (?hn out r s))"
      "rs_status (fst (ui_serve pl h out r s)) = rs_status (fst (?hn out r s))"
    by (simp_all add: ui_serve_def RoutedTo case_prod_beta)
  show ?thesis
  proof (cases "p = [''login'']")
    case True
    then consider "m = ''GET''" | "m = ''POST''" "rq_method r = ''POST''"
      using mux_route_login RoutedTo by blast
    then show ?thesis
    proof cases
      case 2
      then show ?thesis
        using serve True login_post_limiter [of r h out s]
        by (cases "origin_allowed h r") (auto simp: login_post_def RoutedTo ui_handler_of_def handle_login_post_def split: prod.split)
    qed (simp add: serve True login_post_def RoutedTo ui_handler_of_def handler_limiter)
  next
    case False
    then show ?thesis
      by (simp add: serve login_post_def RoutedTo ui_handler_of_def handler_limiter require_session_limiter)
  qed
qed (simp_all add: login_post_def ui_serve_def)

text \<open>So the limiter of the service runs on the login attempts and its sweeps alone.\<close>

lemma service_limiter:
  assumes "serve_all (service_step pl h) es s = (rs, s1)"
  shows "limiter_run login_allow limiter_sweep (limiter_events h es) (ui_limiter s) = (oks, l) \<Longrightarrow>
    ui_limiter s1 = l \<and> guesses h ip es rs = accepted (answers_to ip (limiter_events h es) oks)"
  using assms
proof (induction es arbitrary: s rs oks)
  case (Cons e es)
  obtain rs2 s2 where step: "service_step pl h e s = (rs2, s2)" by fastforce
  obtain rs3 s3 where rest: "serve_all (service_step pl h) es s2 = (rs3, s3)" by fastforce
  have rs: "rs = rs2 # rs3" "s1 = s3" using Cons.prems(2) by (simp_all add: step rest)
  show ?case
  proof (cases e)
    case (Arrives out r)
    have serve: "rs2 = Some (fst (ui_serve pl h out r s))" "s2 = snd (ui_serve pl h out r s)"
      using step by (simp_all add: Arrives case_prod_beta)
    show ?thesis
    proof (cases "login_post h r")
      case True
      obtain ok l1 where allow: "login_allow (remote_ip_key (rq_remote_addr r)) (out_now out) (ui_limiter s) = (ok, l1)"
        by fastforce
      have here: "ui_limiter s2 = l1" "rs_status (fst (ui_serve pl h out r s)) = 429 \<longleftrightarrow> \<not> ok"
        using ui_serve_limiter [where h = h and r = r and out = out and s = s and pl = pl] True by (simp_all add: allow serve)
      obtain oks2 l2 where run: "limiter_run login_allow limiter_sweep (limiter_events h es) l1 = (oks2, l2)" by fastforce
      then have "oks = ok # oks2" "l = l2" using Cons.prems(1) True by (simp_all add: Arrives allow)
      then show ?thesis
        using Cons.IH [of s2 oks2 rs3] rest run here rs True
        by (auto simp: Arrives serve guesses_def accepted_def)
    next
      case False
      then have "ui_limiter s2 = ui_limiter s" using ui_serve_limiter [where h = h and r = r and out = out and s = s and pl = pl] by (simp add: serve)
      then show ?thesis
        using Cons.IH [of s2 oks rs3] Cons.prems(1) rest rs False
        by (auto simp: Arrives serve guesses_def)
    qed
  next
    case (SweepLogins t)
    then show ?thesis
      using Cons.IH [of s2 oks rs3] Cons.prems(1) rest rs step by (auto simp: guesses_def)
  next
    case (SweepSessions t)
    then show ?thesis
      using Cons.IH [of s2 oks rs3] Cons.prems(1) rest rs step by (auto simp: guesses_def)
  qed
qed (simp add: guesses_def accepted_def)

section \<open>Guessing the password\<close>

text \<open>
  C29. From the start of the program on, whatever requests anybody sends, in whatever order the
  requests and the background sweeps come, the credentials submitted from one address are looked
  at at most ten times per window of a minute: between \<open>T0\<close> and \<open>T\<close> at most
  \<open>10 * (1 + (T - T0) div (1 min + 1 ns))\<close> times; the other attempts are answered 429.
\<close>

theorem password_guesses_bounded:
  assumes "main_start env pd parse_level = UiServing m"
    and "serve_all (service_step pl (sv_handler m)) es (sv_state m) = (rs, s1)"
    and "sorted (map event_time es)"
    and "\<forall>e \<in> set es. T0 \<le> event_time e \<and> event_time e \<le> T" and "zero_time < T0" "T0 \<le> T"
  shows "int (guesses (sv_handler m) ip es rs) \<le> 10 * (1 + (T - T0) div (minute + 1))"
proof -
  let ?les = "limiter_events (sv_handler m) es"
  obtain oks l where run: "limiter_run login_allow limiter_sweep ?les (ui_limiter (sv_state m)) = (oks, l)" by fastforce
  have fresh: "ui_limiter (sv_state m) = new_login_rate_limiter"
    using assms(1) by (auto elim: main_start_serving)
  have count: "guesses (sv_handler m) ip es rs = accepted (answers_to ip ?les oks)"
    using service_limiter [OF assms(2) run] by simp
  have times: "limiter_time ` set (limiter_events h fs) \<subseteq> event_time ` set fs
      \<and> (sorted (map event_time fs) \<longrightarrow> sorted (map limiter_time (limiter_events h fs)))" for h fs
    by (induction h fs rule: limiter_events.induct) (auto 0 4)
  have near: "T0 \<le> limiter_time e \<and> limiter_time e \<le> T" if "e \<in> set ?les" for e
    using times [of "sv_handler m" es] assms(4) that by fastforce
  have mem: "t \<in> limiter_time ` set fs" if "t \<in> set (attempts_of ip fs)" for t and fs :: "string limiter_event list"
    using that by (induction ip fs rule: attempts_of.induct) (auto split: if_splits)
  show ?thesis
  proof (cases "attempts_of ip ?les")
    case Nil
    have "answers_to ip fs os = []" if "attempts_of ip fs = []" for os and fs :: "string limiter_event list"
      using that by (induction ip fs os rule: answers_to.induct) (auto split: if_splits)
    then have "guesses (sv_handler m) ip es rs = 0" using Nil count by (simp add: accepted_def)
    moreover have "0 \<le> (T - T0) div (minute + 1)" using assms(6) by (simp add: pos_imp_zdiv_nonneg_iff unit_defs)
    ultimately show ?thesis by simp
  next
    case (Cons t1 ts)
    have t1: "T0 \<le> t1" using mem [of t1 ?les] near Cons by auto
    have "int (guesses (sv_handler m) ip es rs) \<le> 10 * (1 + (T - t1) div (minute + 1))"
      unfolding count
    proof -
      have "\<forall>t \<in> set (t1 # ts). t \<le> T" using mem [of _ ?les] near Cons by fastforce
      then show "int (accepted (answers_to ip ?les oks)) \<le> 10 * (1 + (T - t1) div (minute + 1))"
        using attempts_within_budget [of ?les ip t1 ts T] times [of "sv_handler m" es] assms(3,5) near Cons run fresh
        by fastforce
    qed
    moreover have "(T - t1) div (minute + 1) \<le> (T - T0) div (minute + 1)"
      using t1 by (intro zdiv_mono1) (simp_all add: unit_defs)
    moreover have "x \<le> 10 * (1 + a) \<Longrightarrow> a \<le> b \<Longrightarrow> x \<le> 10 * (1 + b)" for x a b :: int by simp
    ultimately show ?thesis by blast
  qed
qed

theorem password_guesses_bounded_witness:
  "\<exists>m rs s1. main_start sample_env (\<lambda>_. None) (\<lambda>_. Some 1) = UiServing m
     \<and> serve_all (service_step (\<lambda>_. Some 1) (sv_handler m))
         [SweepLogins 5, Arrives sample_surroundings (sample_post ''/login'' ''password=secret'')] (sv_state m) = (rs, s1)
     \<and> int (guesses (sv_handler m) ''10.0.0.7''
         [SweepLogins 5, Arrives sample_surroundings (sample_post ''/login'' ''password=secret'')] rs) \<le> 170"
proof -
  let ?es = "[SweepLogins 5, Arrives sample_surroundings (sample_post ''/login'' ''password=secret'')]"
  have "session_ttl_setting sample_env (\<lambda>_. None) = Some (7 * 24 * hour)"
    by (simp add: session_ttl_setting_def sample_env_def)
  moreover have "getenv_default sample_env ''PLEXTUNNEL_UI_LISTEN'' ''127.0.0.1:9090'' \<noteq> []"
    by (rule getenv_default_nonempty) simp
  ultimately obtain m where m: "main_start sample_env (\<lambda>_. None) (\<lambda>_. Some 1) = UiServing m"
    by (simp add: main_start_def sample_config_loads Let_def)
  obtain rs s1 where run: "serve_all (service_step (\<lambda>_. Some 1) (sv_handler m)) ?es (sv_state m) = (rs, s1)"
    by fastforce
  have "int (guesses (sv_handler m) ''10.0.0.7'' ?es rs) \<le> 10 * (1 + (1000 * second - 5) div (minute + 1))"
    by (rule password_guesses_bounded [OF m run])
      (simp_all add: sample_surroundings_def zero_time_def unit_defs)
  then show ?thesis using m run by (intro exI [of _ m] exI [of _ rs] exI [of _ s1]) (simp add: unit_defs)
qed

section \<open>The end of the process\<close>

text \<open>
  The process serves until a signal arrives or the listener stops for another reason than the
  server's shutdown; then the deferred Stop of the controller ends the client.
\<close>

datatype process_event = Serves service_event | SignalArrives | ListenerStops bool

fun process_run ::
  "(string \<Rightarrow> go_int option) \<Rightarrow> ui_handler \<Rightarrow> process_event list \<Rightarrow> ui_state \<Rightarrow> ui_state \<times> bool" where
  "process_run pl h [] s = (s, False)"
| "process_run pl h (Serves e # es) s = process_run pl h es (snd (service_step pl h e s))"
| "process_run pl h (SignalArrives # es) s = (s\<lparr>ui_runtime := stop (ui_runtime s)\<rparr>, True)"
| "process_run pl h (ListenerStops server_closed # es) s =
     (if server_closed then process_run pl h es s else (s\<lparr>ui_runtime := stop (ui_runtime s)\<rparr>, True))"

text \<open>The controller's own run is the only one that has not ended.\<close>

definition one_client :: "runtime \<Rightarrow> bool" where
  "one_client w \<longleftrightarrow> unfinished_runs w \<subseteq> set_option (ctl_done (ctl w))"

lemma finish_run_unfinished: "unfinished_runs (finish_run d w) = unfinished_runs w - set_option d"
  by (auto simp: finish_run_def unfinished_runs_def split: option.split)

lemma stop_ends_client: "one_client w \<Longrightarrow> unfinished_runs (stop w) = {}"
  by (auto simp: one_client_def stop_def take_run_def finish_run_unfinished)

lemma start_one_client: "unfinished_runs w = {} \<Longrightarrow> one_client (start_locked w)"
  using unfinished_start [of w] by (simp add: one_client_def start_locked_def Let_def)

lemma apply_config_one_client: "one_client w \<Longrightarrow> one_client (apply_config cfg w)"
  unfolding apply_config_def take_run_with_def take_run_def Let_def split_beta fst_conv snd_conv
  by (rule start_one_client) (simp add: finish_run_unfinished one_client_def)

lemma handler_one_client:
  assumes "one_client (ui_runtime s)" and "hn \<in> ui_handlers pl h"
  shows "one_client (ui_runtime (snd (hn out r s)))"
proof -
  have settings: "one_client (ui_runtime (snd (handle_settings pl h out r s)))" if "one_client (ui_runtime s)" for s
    using that by (auto simp: handle_settings_def case_prod_beta Let_def apply_config_one_client split: option.split sum.split)
  have guarded: "one_client (ui_runtime (snd (require_session h nh out r s)))"
    if "\<And>s. one_client (ui_runtime s) \<Longrightarrow> one_client (ui_runtime (snd (nh out r s)))" for nh
    by (cases rule: require_session_cases [of h nh out r s]) (simp_all add: assms(1) that)
  show ?thesis
    using assms guarded [of "handle_settings pl h", OF settings] guarded [of handle_index] guarded [of handle_status]
      logout_effect(1) [of s h out r] login_post_client [of h out r s]
    by (auto simp: ui_handlers_def login_get_effect index_effect status_effect same_client_def)
qed

lemma service_step_one_client:
  "one_client (ui_runtime s) \<Longrightarrow> one_client (ui_runtime (snd (service_step pl h e s)))"
proof (cases e)
  case (Arrives out r)
  assume s: "one_client (ui_runtime s)"
  show ?thesis
  proof (cases rule: ui_serve_cases [of pl h out r s])
    case (Handled hn)
    then show ?thesis using handler_one_client [OF s] by (simp add: Arrives case_prod_beta)
  qed (use s in \<open>simp_all add: Arrives case_prod_beta\<close>)
qed simp_all

text \<open>Whatever the UI was sent, the process leaves no client running behind it.\<close>

lemma process_leaves_no_client:
  assumes "main_start env pd parse_level = UiServing m"
    and "process_run pl (sv_handler m) es (sv_state m) = (s1, True)"
  shows "unfinished_runs (ui_runtime s1) = {}"
proof -
  have exits: "unfinished_runs (ui_runtime s1) = {}"
    if "one_client (ui_runtime s)" "process_run pl h es s = (s1, True)" for h s
    using that
    by (induction pl h es s rule: process_run.induct)
      (auto simp: stop_ends_client service_step_one_client split: if_splits)
  have "unfinished_runs (new_runtime cfg) = {}" for cfg by (simp add: unfinished_runs_def new_runtime_def)
  then have "one_client (ui_runtime (sv_state m))"
    using assms(1) start_one_client by (auto elim!: main_start_serving)
  then show ?thesis using exits assms(2) by blast
qed

end
