(* ===== verification/Spec2Isabelle.thy ===== *)
theory Spec2Isabelle
  imports Circuit Backoff PoolSpec Target Handshake KeepAlive Proxy SessionStore RateLimit Auth Status
    Controller UiSafety UiBehaviour MainProg ClientRun Service
begin

text \<open>
  The tunnel client of plex-tunnel, verified: the Go packages pkg/client and cmd/client of this
  repository.

  \<^bold>\<open>The program.\<close> A process reads its configuration from the environment, runs one tunnel client
  and serves a small web UI. The client registers with a tunnel server over a websocket, keeps a
  pool of further connections to it and forwards the HTTP requests that arrive on them to a
  media server in the local network. The UI shows the client's status, logs people in, changes
  the configuration and restarts the client with it.

  \<^bold>\<open>Parts and theories.\<close> Each theory names the code it translates; its definitions have the
  code's names, in the code's order.

    \<^item> Prelude: Go's 64-bit integers (\<open>wrap64\<close>), time, errors as sums, and the locales
      \<open>machine\<close> and \<open>refined_machine\<close> of components driven by events, with what holds
      for every run of them.
    \<^item> GoStrings, GoNet, GoUrl, GoHttp: what the code uses of Go's standard library (strings,
      net, net/url, net/http), as executable functions.
    \<^item> Circuit (pkg/client/circuit.go): the circuit breaker, and the three-mode automaton that it
      refines.
    \<^item> Backoff (pkg/client/reconnect.go): the reconnect delay with its overflow.
    \<^item> Pool, PoolSpec (pkg/client/pool.go): the connection pool over a store of shared connection
      structs; the methods as atomic steps; the pool as a map from slots to connections; the
      invariant of every sequence of calls.
    \<^item> Config (pkg/client/config.go): LoadConfig over an arbitrary environment.
    \<^item> Target (resolveTargetURL of pkg/client/client.go): the URL a request is sent to.
    \<^item> Tunnel: the messages of the tunnel protocol and its errors. The protocol package is
      another module; its version, its capability bit and its validation are the parameter
      \<open>protocol\<close>.
    \<^item> Handshake (runSession's registration, joinSessionConnection, validateRegisterAck).
    \<^item> KeepAlive (pingLoop): the ping loop against the read loop's stores.
    \<^item> Proxy (handleHTTPRequest, sendProxyError): a request against a scripted upstream, with its
      frames, its verdict to the breaker and its metrics; and the handlers of many requests at
      the same time against the breaker they share (\<open>proxies_step\<close>).
    \<^item> Status (pkg/client/status.go, pkg/client/metrics.go, updateStatus, syncPoolStatus).
    \<^item> Session (sessionPoolController, readLoop, maintainPoolSlot, startPoolPingLoop,
      startConnPingLoop, runSession, Run): a session as a record of its goroutines, each in a
      phase of its loop with the actions it has to do before it gets there, and one step for
      each thing that can happen to it. SessionInv and SessionSteps have the invariant and its
      preservation, SessionLock the controller's mutex and the owners of the slots, SessionSpec
      what follows from them, ClientRun the loop over sessions.
    \<^item> SessionStore, RateLimit, Auth (cmd/client/login.go): login sessions, the login rate limiter
      and the credential check down to crypto/subtle's words.
    \<^item> Controller (clientController of cmd/client/ui.go): Start, Stop and ApplyConfig from several
      goroutines, as a step relation between their critical sections.
    \<^item> Login, Ui (cmd/client/login.go, cmd/client/ui.go): every handler and the routing over a model
      of requests and responses. UiSafety and UiBehaviour have what the UI protects and does.
    \<^item> MainProg (cmd/client/main.go): from the environment to the serving UI. Service: the UI as
      the process serves it, with background sweeps, signals and the process's end.

  \<^bold>\<open>How they fit.\<close> A session uses the pool through \<open>with_pool\<close>, which performs the calls the
  pool's methods return as effects; \<open>run_session\<close> composes Handshake and Session; \<open>client_run\<close>
  composes the sessions with Backoff and Status; \<open>main_start\<close> composes Config, Controller and Ui;
  \<open>process_run\<close> runs the result. Proxy and KeepAlive model the inside of the goroutines that a
  session starts for its requests and connections; Session has their begin and end as events.

  \<^bold>\<open>Concurrency.\<close> Code under a lock is one atomic step, with the cancels it calls under it. Where
  the code makes several such steps in a row, the controllers' calls are interleaved step by
  step: a slot's goroutine has a list of actions, each a single access to something shared, a
  request's goroutine counts itself in its connection's stream counter and in the gauge, and
  takes itself off them, in steps of their own (\<open>request_starts\<close>, \<open>request_counted\<close>,
  \<open>request_ends\<close>, \<open>request_uncounted\<close>, \<open>request_leaves\<close>), and the steps of all goroutines of
  a session interleave in every order. Taken together are: the accesses at the end of a session
  (\<open>end_session\<close>), after which it is over; a Receive and the one access to shared state that
  the message leads to; and a frame's write to a connection. Of a request's handler, Proxy takes
  what it does from Allow to its outcome for itself, since only the breaker is shared, and the
  handlers interleave at their two uses of it.

  \<^bold>\<open>What is shown.\<close>

    \<^item> Breaker: refinement of the automaton, one probe at a time; a probe that times out blocks it
      for every later request, when no handler that is still in flight records an outcome.
    \<^item> Pool: Add, Remove, Resize and Close on every branch; through every sequence of calls, when
      there is a control slot and when none (a Remove that found only busy connections); and in
      every reachable state of a session the control connection with its ping
      loop, one live goroutine per slot (unless a new grant comes while the first goroutines are
      still being started), exact stream counters within 128, a first goroutine
      that never ends in silence, and a mutex that is always released. Runs that show what late
      steps of goroutines can still do are lemmas of SessionSpec. The phases of a goroutine
      follow the automaton \<open>slot_next\<close>.
    \<^item> Reconnecting: the delay of each attempt, and that the attempts are never counted afresh.
    \<^item> Handshake and configuration: exact success conditions and the error of every failure.
    \<^item> Keepalive: when a silent connection is given up and that a responsive one never is.
    \<^item> Proxy: complete delivery, refusals, the end mark, at most one verdict for the breaker; a
      resolved target never leaves the configured host.
    \<^item> Login: session lifecycle and token format, the limiter's bound and the invisibility of its
      sweeps, equality of the constant-time check, and the bound on password guesses through the
      whole service.
    \<^item> UI: without the password no change and no page of the client but /metrics, which the code
      serves to everybody; from another site no change and no logout; the token never shown,
      settings applied exactly when valid, valid configurations only; and a process that ends
      leaves no client running.

  \<^bold>\<open>Bounds and fuel.\<close> Loops over lists and strings are structural. Loops that follow the outside
  world (sessions, reconnects, ping loops, garbage collection) run over a list of events or
  rounds of any length. \<open>drain_wait\<close> has the 50 polls of the code. One loop has fuel,
  \<open>ipv6_groups\<close>, which reads the sixteen bytes of an address two at a time: eight rounds are
  enough (lemma GoNet.ipv6_groups_fuel).

  \<^bold>\<open>Parameters.\<close> \<open>time.ParseDuration\<close>, \<open>zerolog.ParseLevel\<close>, \<open>error.Error\<close>, the random
  jitter and token bytes, every clock reading, what the network, the upstream server and the
  tunnel server answer.

  \<^bold>\<open>Not modelled.\<close> The HTML, CSS and script of the UI's pages (their data is), the log records,
  the Prometheus registry (the values written to it are), the websocket connection with its
  framing and the protocol package's validation (another module), the HTTP server's timeouts
  and its graceful shutdown, and the build, container and CI files, which hold no program logic.
\<close>

end
